(* ===== verification/Dkim_Prelude.thy ===== *)
theory Dkim_Prelude
  imports Main "HOL-Library.Word" "HOL-Library.Sublist"
begin

text \<open>
  Shared vocabulary of the development: bytes, the character classes and the string functions of
  the C library in the C locale, and the generic list lemmas that several components use.

  A byte is a \<open>char\<close>; a C string is the \<open>string\<close> of the bytes before its terminating NUL, so a
  pointer into a string is the suffix it points at and \<open>*p == '\0'\<close> is the empty suffix. A byte
  buffer with an explicit length is a \<open>string\<close> that may hold NUL bytes.
\<close>

named_theorems cctype \<open>definitions of the character classes\<close>
named_theorems cstring \<open>facts about the C string functions\<close>

type_synonym byte = char

abbreviation NUL :: byte where "NUL \<equiv> CHR 0x00"
abbreviation TAB :: byte where "TAB \<equiv> CHR 0x09"
abbreviation LF :: byte where "LF \<equiv> CHR 0x0A"
abbreviation CR :: byte where "CR \<equiv> CHR 0x0D"
abbreviation SPACE :: byte where "SPACE \<equiv> CHR 0x20"
abbreviation CRLF :: string where "CRLF \<equiv> [CR, LF]"

abbreviation ord :: "byte \<Rightarrow> nat" where "ord c \<equiv> of_char c"

abbreviation shr :: "nat \<Rightarrow> nat \<Rightarrow> nat" where "shr x n \<equiv> x div 2 ^ n"
abbreviation shl :: "nat \<Rightarrow> nat \<Rightarrow> nat" where "shl x n \<equiv> x * 2 ^ n"

subsection \<open>Character classes of the C locale\<close>

definition isascii :: "byte \<Rightarrow> bool" where
  [cctype]: "isascii c \<longleftrightarrow> ord c < 128"

definition isspace :: "byte \<Rightarrow> bool" where
  [cctype]: "isspace c \<longleftrightarrow> (9 \<le> ord c \<and> ord c \<le> 13) \<or> ord c = 32"

definition isupper :: "byte \<Rightarrow> bool" where
  [cctype]: "isupper c \<longleftrightarrow> 65 \<le> ord c \<and> ord c \<le> 90"

definition islower :: "byte \<Rightarrow> bool" where
  [cctype]: "islower c \<longleftrightarrow> 97 \<le> ord c \<and> ord c \<le> 122"

definition isdigit :: "byte \<Rightarrow> bool" where
  [cctype]: "isdigit c \<longleftrightarrow> 48 \<le> ord c \<and> ord c \<le> 57"

definition isalnum :: "byte \<Rightarrow> bool" where
  [cctype]: "isalnum c \<longleftrightarrow> isupper c \<or> islower c \<or> isdigit c"

definition isprint :: "byte \<Rightarrow> bool" where
  [cctype]: "isprint c \<longleftrightarrow> 32 \<le> ord c \<and> ord c \<le> 126"

definition isxdigit :: "byte \<Rightarrow> bool" where
  [cctype]: "isxdigit c \<longleftrightarrow>
     isdigit c \<or> (65 \<le> ord c \<and> ord c \<le> 70) \<or> (97 \<le> ord c \<and> ord c \<le> 102)"

definition ispunct :: "byte \<Rightarrow> bool" where
  [cctype]: "ispunct c \<longleftrightarrow> 33 \<le> ord c \<and> ord c \<le> 126 \<and> \<not> isalnum c"

definition tolower :: "byte \<Rightarrow> byte" where
  "tolower c = (if isupper c then char_of (ord c + 32) else c)"


lemma ord_eq_iff: "ord c = ord d \<longleftrightarrow> c = d"
  by (metis char_of_char)

lemma ord_char_of [simp]: "n < 256 \<Longrightarrow> ord (char_of (n::nat)) = n"
  by (simp add: of_char_of)

lemma char_of_nat_eq: "n < 256 \<Longrightarrow> m < 256 \<Longrightarrow> (char_of (n::nat) = char_of m) \<longleftrightarrow> n = m"
  by (metis ord_char_of)

text \<open>Evaluation of \<open>tolower\<close> and of comparisons with its result.\<close>

named_theorems char_eval \<open>rules that evaluate comparisons of lowered characters\<close>

lemma char_of_eq [char_eval]: "n < 256 \<Longrightarrow> char_of (n::nat) = c \<longleftrightarrow> n = ord c"
  by (metis char_of_char ord_char_of)

lemma eq_char_of [char_eval]: "n < 256 \<Longrightarrow> c = char_of (n::nat) \<longleftrightarrow> ord c = n"
  by (metis char_of_char ord_char_of)

declare isupper_def [char_eval] tolower_def [char_eval]

lemma isspace_ascii: "isspace c \<Longrightarrow> isascii c"
  by (auto simp: cctype)

lemma isupper_tolower [simp]: "\<not> isupper (tolower c)"
  by (auto simp: tolower_def isupper_def of_char_of)

lemma tolower_idem [simp]: "tolower (tolower c) = tolower c"
  by (simp add: tolower_def [of "tolower c"])

lemma isspace_tolower [simp]: "isspace (tolower c) = isspace c"
  by (auto simp: tolower_def isupper_def isspace_def of_char_of)

lemma tolower_eq_NUL [simp]: "tolower c = NUL \<longleftrightarrow> c = NUL"
proof (cases "isupper c")
  case True
  then have "ord (tolower c) \<noteq> 0" and "ord c \<noteq> 0"
    by (auto simp: tolower_def isupper_def of_char_of)
  then show ?thesis by auto
next
  case False
  then show ?thesis by (simp add: tolower_def)
qed

subsection \<open>C strings\<close>

text \<open>\<open>cstr b\<close> is the C string that starts at the buffer \<open>b\<close>: the bytes before the first NUL.\<close>

definition cstr :: "string \<Rightarrow> string" where
  "cstr b = takeWhile (\<lambda>c. c \<noteq> NUL) b"

definition is_cstring :: "string \<Rightarrow> bool" where
  "is_cstring s \<longleftrightarrow> NUL \<notin> set s"

lemma cstr_id [cstring]: "is_cstring s \<Longrightarrow> cstr s = s"
  by (auto simp: cstr_def is_cstring_def takeWhile_eq_all_conv)

lemma is_cstring_cstr [simp]: "is_cstring (cstr s)"
  by (auto simp: cstr_def is_cstring_def dest: set_takeWhileD)

lemma is_cstring_Nil [simp]: "is_cstring []"
  by (simp add: is_cstring_def)

lemma is_cstring_Cons [simp]: "is_cstring (c # s) \<longleftrightarrow> c \<noteq> NUL \<and> is_cstring s"
  by (auto simp: is_cstring_def)

lemma is_cstring_append [simp]: "is_cstring (s @ t) \<longleftrightarrow> is_cstring s \<and> is_cstring t"
  by (auto simp: is_cstring_def)

lemma cstr_append_NUL [cstring]: "is_cstring s \<Longrightarrow> cstr (s @ NUL # t) = s"
  by (auto simp: cstr_def is_cstring_def takeWhile_append)

text \<open>\<open>strchr\<close>: the suffix from the first occurrence of a byte other than NUL.\<close>

fun strchr :: "string \<Rightarrow> byte \<Rightarrow> string option" where
  "strchr [] c = None"
| "strchr (x # xs) c = (if x = c then Some (x # xs) else strchr xs c)"

definition before :: "string \<Rightarrow> byte \<Rightarrow> string" where
  "before s c = takeWhile (\<lambda>x. x \<noteq> c) s"

lemma strchr_None [cstring]: "strchr s c = None \<longleftrightarrow> c \<notin> set s"
  by (induction s) auto

lemma strchr_Some [cstring]: "strchr s c = Some t \<Longrightarrow> s = before s c @ t \<and> t \<noteq> [] \<and> hd t = c"
  by (induction s) (auto simp: before_def split: if_splits)

text \<open>\<open>strcasecmp(a, b) == 0\<close> and \<open>strncasecmp(a, b, n) == 0\<close> on C strings.\<close>

definition strcaseeq :: "string \<Rightarrow> string \<Rightarrow> bool" where
  "strcaseeq a b \<longleftrightarrow> map tolower a = map tolower b"

definition strncaseeq :: "string \<Rightarrow> string \<Rightarrow> nat \<Rightarrow> bool" where
  "strncaseeq a b n \<longleftrightarrow> map tolower (take n a) = map tolower (take n b)"

lemma strcaseeq_refl [simp]: "strcaseeq a a"
  by (simp add: strcaseeq_def)

lemma strcaseeq_sym: "strcaseeq a b \<Longrightarrow> strcaseeq b a"
  by (simp add: strcaseeq_def)

lemma strcaseeq_trans: "strcaseeq a b \<Longrightarrow> strcaseeq b c \<Longrightarrow> strcaseeq a c"
  by (simp add: strcaseeq_def)

lemma strcaseeq_length: "strcaseeq a b \<Longrightarrow> length a = length b"
  unfolding strcaseeq_def by (metis length_map)

lemma strncaseeq_full: "strncaseeq a b (length a) \<Longrightarrow> length a = length b \<Longrightarrow> strcaseeq a b"
  by (simp add: strncaseeq_def strcaseeq_def)

lemma strncaseeq_0 [simp]: "strncaseeq a b 0"
  by (simp add: strncaseeq_def)

text \<open>\<open>strlcpy\<close> into a buffer of \<open>n\<close> bytes keeps at most \<open>n - 1\<close> bytes.\<close>

definition strlcpy :: "string \<Rightarrow> nat \<Rightarrow> string" where
  "strlcpy s n = take (n - 1) s"

lemma strlcpy_id [cstring]: "length s < n \<Longrightarrow> strlcpy s n = s"
  by (simp add: strlcpy_def)

text \<open>\<open>strtok_r\<close> with a one-byte separator: the non-empty fields between the separators.\<close>

fun split_on :: "byte \<Rightarrow> string \<Rightarrow> string list" where
  "split_on d [] = [[]]"
| "split_on d (c # s) =
     (if c = d then [] # split_on d s
      else (case split_on d s of [] \<Rightarrow> [[c]] | f # fs \<Rightarrow> (c # f) # fs))"

definition strtok :: "byte \<Rightarrow> string \<Rightarrow> string list" where
  "strtok d s = filter (\<lambda>f. f \<noteq> []) (split_on d s)"

lemma split_on_nonempty [simp]: "split_on d s \<noteq> []"
  by (cases s) (auto split: list.splits)

lemma split_on_no_sep: "d \<notin> set s \<Longrightarrow> split_on d s = [s]"
  by (induction s) auto

lemma split_on_fields: "f \<in> set (split_on d s) \<Longrightarrow> d \<notin> set f"
  by (induction s arbitrary: f) (auto split: list.splits if_splits)

lemma split_on_set: "f \<in> set (split_on d s) \<Longrightarrow> set f \<subseteq> set s"
  by (induction s arbitrary: f) (fastforce split: list.splits if_splits)+

lemma split_on_append: "d \<notin> set s \<Longrightarrow> split_on d (s @ d # t) = s # split_on d t"
  by (induction s) auto

lemma strtok_single: "d \<notin> set s \<Longrightarrow> s \<noteq> [] \<Longrightarrow> strtok d s = [s]"
  by (simp add: strtok_def split_on_no_sep)

lemma strtok_append: "d \<notin> set s \<Longrightarrow> s \<noteq> [] \<Longrightarrow> strtok d (s @ d # t) = s # strtok d t"
  by (simp add: strtok_def split_on_append)

subsection \<open>Lists\<close>

lemma takeWhile_append_stop:
  "(\<forall>x\<in>set xs. P x) \<Longrightarrow> \<not> P y \<Longrightarrow> takeWhile P (xs @ y # ys) = xs"
  by (simp add: takeWhile_append)

lemma dropWhile_length_le: "length (dropWhile P xs) \<le> length xs"
  by (induction xs) auto

lemma foldl_append_chunks: "foldl f (foldl f s xs) ys = foldl f s (xs @ ys)"
  by simp

end
