(* ===== verification/Dkim_Base64.thy ===== *)
theory Dkim_Base64
  imports Dkim_Prelude
begin

text \<open>
  \<open>libopendkim/base64.c\<close>: the base64 codec used for the \<open>b=\<close>, \<open>bh=\<close> and \<open>p=\<close> tags. The C code
  collects up to 24 bits in an \<open>int\<close>; the model keeps them in a \<open>nat\<close>, and
  \<open>b64_decode_loop_bits\<close> shows that they never reach \<open>2 ^ 24\<close>, so the \<open>int\<close> does not overflow.
  Storing to an \<open>u_char\<close> keeps the low eight bits, which is what \<open>char_of\<close> does.
\<close>

definition alphabet :: string where
  "alphabet = ''ABCDEFGHIJKLMNOPQRSTUVWXYZabcdefghijklmnopqrstuvwxyz0123456789+/''"

definition decoder :: "nat list" where
  "decoder =
    [0, 0, 0, 0, 0, 0, 0, 0, 0, 0, 0, 0, 0, 0, 0, 0, 0, 0, 0, 0, 0,
     0, 0, 0, 0, 0, 0, 0, 0, 0, 0, 0, 0, 0, 0, 0, 0, 0, 0, 0, 0, 0,
     0, 62, 0, 0, 0, 63, 52, 53, 54, 55, 56, 57, 58, 59, 60, 61, 0,
     0, 0, 0, 0, 0, 0, 0, 1, 2, 3, 4, 5, 6, 7, 8, 9, 10, 11, 12, 13,
     14, 15, 16, 17, 18, 19, 20, 21, 22, 23, 24, 25, 0, 0, 0, 0, 0,
     0, 26, 27, 28, 29, 30, 31, 32, 33, 34, 35, 36, 37, 38, 39, 40,
     41, 42, 43, 44, 45, 46, 47, 48, 49, 50, 51, 0, 0, 0, 0, 0, 0, 0,
     0, 0, 0, 0, 0, 0, 0, 0, 0, 0, 0, 0, 0, 0, 0, 0, 0, 0, 0, 0, 0,
     0, 0, 0, 0, 0, 0, 0, 0, 0, 0, 0, 0, 0, 0, 0, 0, 0, 0, 0, 0, 0,
     0, 0, 0, 0, 0, 0, 0, 0, 0, 0, 0, 0, 0, 0, 0, 0, 0, 0, 0, 0, 0,
     0, 0, 0, 0, 0, 0, 0, 0, 0, 0, 0, 0, 0, 0, 0, 0, 0, 0, 0, 0, 0,
     0, 0, 0, 0, 0, 0, 0, 0, 0, 0, 0, 0, 0, 0, 0, 0, 0, 0, 0, 0, 0,
     0, 0, 0, 0, 0, 0, 0, 0, 0, 0, 0, 0, 0, 0, 0, 0, 0, 0, 0, 0, 0]"

datatype b64_error = B64_Corrupt | B64_NoSpace

definition is_b64char :: "byte \<Rightarrow> bool" where
  "is_b64char c \<longleftrightarrow> isupper c \<or> islower c \<or> isdigit c \<or> c = CHR ''+'' \<or> c = CHR ''/''"

text \<open>The loop of \<open>dkim_base64_decode\<close>; \<open>out\<close> is what was written to \<open>buf\<close>, \<open>n\<close> its length.\<close>

fun b64_decode_loop ::
  "string \<Rightarrow> nat \<Rightarrow> nat \<Rightarrow> string \<Rightarrow> nat \<Rightarrow> b64_error + nat \<times> nat \<times> string" where
  "b64_decode_loop [] bits char_count out buflen = Inr (bits, char_count, out)"
| "b64_decode_loop (c # cs) bits char_count out buflen =
     (if c = CHR ''='' then Inr (bits, char_count, out)
      else if \<not> is_b64char c then b64_decode_loop cs bits char_count out buflen
      else
        (let bits' = bits + decoder ! ord c; char_count' = char_count + 1 in
         if length out + 3 > buflen then Inl B64_NoSpace
         else if char_count' = 4 then
           b64_decode_loop cs 0 0
             (out @ [char_of (shr bits' 16), char_of (shr bits' 8 mod 256),
                     char_of (bits' mod 256)]) buflen
         else b64_decode_loop cs (shl bits' 6) char_count' out buflen))"

definition b64_decode_tail :: "nat \<Rightarrow> nat \<Rightarrow> string \<Rightarrow> nat \<Rightarrow> b64_error + string" where
  "b64_decode_tail bits char_count out buflen =
     (if char_count = 0 then Inr out
      else if char_count = 1 then Inl B64_Corrupt
      else if char_count = 2 then
        (if length out + 1 > buflen then Inl B64_NoSpace
         else Inr (out @ [char_of (shr bits 10)]))
      else
        (if length out + 2 > buflen then Inl B64_NoSpace
         else Inr (out @ [char_of (shr bits 16), char_of (shr bits 8 mod 256)])))"

definition dkim_base64_decode :: "string \<Rightarrow> nat \<Rightarrow> b64_error + string" where
  "dkim_base64_decode str buflen =
     (case b64_decode_loop str 0 0 [] buflen of
        Inl e \<Rightarrow> Inl e
      | Inr (bits, char_count, out) \<Rightarrow> b64_decode_tail bits char_count out buflen)"

text \<open>The loop of \<open>dkim_base64_encode\<close>; \<open>None\<close> is the return value \<open>-1\<close>.\<close>

fun b64_encode_loop ::
  "string \<Rightarrow> nat \<Rightarrow> nat \<Rightarrow> string \<Rightarrow> nat \<Rightarrow> (nat \<times> nat \<times> string) option" where
  "b64_encode_loop [] bits char_count out buflen = Some (bits, char_count, out)"
| "b64_encode_loop (d # ds) bits char_count out buflen =
     (let bits' = bits + ord d; char_count' = char_count + 1 in
      if char_count' = 3 then
        (if length out + 4 > buflen then None
         else b64_encode_loop ds 0 0
           (out @ [alphabet ! shr bits' 18, alphabet ! (shr bits' 12 mod 64),
                   alphabet ! (shr bits' 6 mod 64), alphabet ! (bits' mod 64)]) buflen)
      else b64_encode_loop ds (shl bits' 8) char_count' out buflen)"

definition b64_encode_tail :: "nat \<Rightarrow> nat \<Rightarrow> string \<Rightarrow> nat \<Rightarrow> string option" where
  "b64_encode_tail bits char_count out buflen =
     (if char_count \<noteq> 0 then
        (if length out + 4 > buflen then None
         else
           (let bits' = shl bits (16 - 8 * char_count) in
            Some (out @ [alphabet ! shr bits' 18, alphabet ! (shr bits' 12 mod 64)] @
              (if char_count = 1 then ''==''
               else [alphabet ! (shr bits' 6 mod 64), CHR ''=''])))) 
      else Some out)"

definition dkim_base64_encode :: "string \<Rightarrow> nat \<Rightarrow> string option" where
  "dkim_base64_encode data buflen =
     (case b64_encode_loop data 0 0 [] buflen of
        None \<Rightarrow> None
      | Some (bits, char_count, out) \<Rightarrow> b64_encode_tail bits char_count out buflen)"

subsection \<open>The tables agree\<close>

lemma b64_tables:
  "map (\<lambda>c. decoder ! ord c) alphabet = [0..<64]"
  "\<forall>c\<in>set alphabet. is_b64char c \<and> c \<noteq> CHR ''=''"
  "length alphabet = 64"
  by (simp_all add: alphabet_def decoder_def is_b64char_def cctype upt_rec)

lemma decoder_alphabet [simp]: "i < 64 \<Longrightarrow> decoder ! ord (alphabet ! i) = i"
  using arg_cong [OF b64_tables(1), of "\<lambda>xs. xs ! i"] b64_tables(3) by simp

lemma alphabet_is_b64char [simp]: "i < 64 \<Longrightarrow> is_b64char (alphabet ! i)"
  and alphabet_not_pad [simp]: "i < 64 \<Longrightarrow> alphabet ! i \<noteq> CHR ''=''"
  using b64_tables(2,3) by (metis nth_mem)+

lemma decoder_table: "length decoder = 256" "\<forall>d\<in>set decoder. d < 64"
  by (simp_all add: decoder_def)

lemma decoder_lt [simp]: "decoder ! ord c < 64"
  using decoder_table nth_mem [of "ord c" decoder] by simp

subsection \<open>Encoding against a reference definition\<close>

text \<open>The four alphabet characters of a 24-bit group, most significant sextet first.\<close>

definition b64_quad :: "nat \<Rightarrow> string" where
  "b64_quad n = [alphabet ! (n div 2 ^ 18), alphabet ! (n div 2 ^ 12 mod 64),
     alphabet ! (n div 2 ^ 6 mod 64), alphabet ! (n mod 64)]"

fun b64_ref :: "string \<Rightarrow> string" where
  "b64_ref [] = []"
| "b64_ref [a] = take 2 (b64_quad (ord a * 2 ^ 16)) @ ''==''"
| "b64_ref [a, b] = take 3 (b64_quad (ord a * 2 ^ 16 + ord b * 2 ^ 8)) @ ''=''"
| "b64_ref (a # b # c # r) = b64_quad (ord a * 2 ^ 16 + ord b * 2 ^ 8 + ord c) @ b64_ref r"

lemma length_b64_quad [simp]: "length (b64_quad n) = 4"
  by (simp add: b64_quad_def)

lemma length_b64_ref: "length (b64_ref data) = 4 * ((length data + 2) div 3)"
proof (induction data rule: b64_ref.induct)
  case (4 a b c r)
  have "(length (a # b # c # r) + 2) div 3 = Suc ((length r + 2) div 3)"
    by simp
  with 4 show ?case by simp
qed simp_all

lemma b64_encode_group:
  "b64_encode_loop (a # b # c # r) 0 0 out buflen =
     (if length out + 4 \<le> buflen
      then b64_encode_loop r 0 0 (out @ b64_quad (ord a * 2 ^ 16 + ord b * 2 ^ 8 + ord c)) buflen
      else None)"
  by (simp add: b64_quad_def Let_def algebra_simps)

lemma b64_encode_loop_ref:
  "(case b64_encode_loop data 0 0 out buflen of
      None \<Rightarrow> None
    | Some (bits, char_count, out) \<Rightarrow> b64_encode_tail bits char_count out buflen) =
   (if length out + length (b64_ref data) \<le> buflen \<or> data = []
    then Some (out @ b64_ref data) else None)"
proof (induction data arbitrary: out rule: b64_ref.induct)
  case 1
  show ?case by (simp add: b64_encode_tail_def)
next
  case (2 a)
  show ?case
    by (auto simp: b64_encode_tail_def b64_quad_def Let_def)
next
  case (3 a b)
  show ?case
    by (auto simp: b64_encode_tail_def b64_quad_def Let_def algebra_simps)
next
  case (4 a b c r)
  show ?case
    by (auto simp only: b64_encode_group "4.IH" b64_ref.simps length_append length_b64_quad
        append_assoc option.case split: if_splits) (auto simp: length_b64_ref)
qed

subsection \<open>Decoding\<close>

text \<open>The accumulator never leaves 24 bits: the invariant of the loop.\<close>

definition b64_bits_ok :: "nat \<Rightarrow> nat \<Rightarrow> bool" where
  "b64_bits_ok bits char_count \<longleftrightarrow>
     char_count < 4 \<and> bits mod 64 = 0 \<and> bits < 64 ^ (char_count + 1) \<and> (char_count = 0 \<longrightarrow> bits = 0)"

lemma b64_bits_step:
  assumes "b64_bits_ok bits k" and "d < 64"
  shows "bits + d < 64 ^ (k + 1)" and "bits + d < 2 ^ 24"
    and "k \<noteq> 3 \<Longrightarrow> b64_bits_ok ((bits + d) * 2 ^ 6) (k + 1)"
proof -
  obtain q where q: "bits = 64 * q"
    using assms(1) by (auto simp: b64_bits_ok_def mod_eq_0_iff_dvd)
  have "q < 64 ^ k"
    using assms(1) q by (simp add: b64_bits_ok_def)
  then have "64 * q + 64 \<le> 64 * 64 ^ k" by simp
  then show lt: "bits + d < 64 ^ (k + 1)" using assms(2) q by simp
  have "(64::nat) ^ (k + 1) \<le> 64 ^ 4"
    by (rule power_increasing) (use assms(1) in \<open>auto simp: b64_bits_ok_def\<close>)
  with lt show "bits + d < 2 ^ 24" by simp
  show "k \<noteq> 3 \<Longrightarrow> b64_bits_ok ((bits + d) * 2 ^ 6) (k + 1)"
    using lt assms(1) by (auto simp: b64_bits_ok_def)
qed

lemma b64_decode_loop_bits:
  assumes "b64_bits_ok bits k" and "b64_decode_loop s bits k out buflen = Inr (bits', k', out')"
  shows "b64_bits_ok bits' k'"
  using assms
proof (induction s bits k out buflen rule: b64_decode_loop.induct)
  case (2 c cs bits k out buflen)
  have nx: "k \<noteq> 3 \<Longrightarrow> b64_bits_ok (shl (bits + decoder ! ord c) 6) (k + 1)"
    using b64_bits_step(3) [OF "2.prems"(1), of "decoder ! ord c"] by simp
  show ?case
    using 2 nx by (auto simp: Let_def b64_bits_ok_def [of 0 0] split: if_splits)
qed simp

lemma b64_decode_loop_skip:
  "b64_decode_loop (filter (\<lambda>c. is_b64char c \<or> c = CHR ''='') s) bits k out buflen =
   b64_decode_loop s bits k out buflen"
  by (induction s bits k out buflen rule: b64_decode_loop.induct) (auto simp: Let_def)

lemma b64_decode_group:
  assumes "i < 64" "j < 64" "k < 64" "l < 64" "length out + 3 \<le> buflen"
  shows "b64_decode_loop (alphabet ! i # alphabet ! j # alphabet ! k # alphabet ! l # cs) 0 0 out buflen =
    (let n = ((i * 64 + j) * 64 + k) * 64 + l in
     b64_decode_loop cs 0 0
       (out @ [char_of (shr n 16), char_of (shr n 8 mod 256), char_of (n mod 256)]) buflen)"
  using assms by (simp add: Let_def)

lemma b64_sextets:
  fixes n :: nat
  assumes "n < 2 ^ 24"
  shows "((n div 2 ^ 18 * 64 + n div 2 ^ 12 mod 64) * 64 + n div 2 ^ 6 mod 64) * 64 + n mod 64 = n"
    and "n div 2 ^ 18 < 64"
proof -
  have "n = n div 64 * 64 + n mod 64" by simp
  moreover have "n div 64 = n div 64 div 64 * 64 + n div 64 mod 64" by simp
  moreover have "n div 64 div 64 = n div 64 div 64 div 64 * 64 + n div 64 div 64 mod 64" by simp
  ultimately show "((n div 2 ^ 18 * 64 + n div 2 ^ 12 mod 64) * 64 + n div 2 ^ 6 mod 64) * 64 + n mod 64 = n"
    by (simp add: div_mult2_eq [symmetric])
  show "n div 2 ^ 18 < 64" using assms by simp
qed

lemma div_256: "(y::nat) < 256 \<Longrightarrow> (x * 256 + y) div 256 = x"
  by simp

lemma b64_bytes:
  fixes a b c :: byte
  defines "n \<equiv> ord a * 2 ^ 16 + ord b * 2 ^ 8 + ord c"
  shows "n < 2 ^ 24" and "char_of (shr n 16) = a" and "char_of (shr n 8 mod 256) = b"
    and "char_of (n mod 256) = c"
proof -
  have ab: "ord a < 256" "ord b < 256" "ord c < 256" by simp_all
  then have "ord a * 65536 + ord b * 256 + ord c < 16777216" by linarith
  then show "n < 2 ^ 24" unfolding n_def by simp
  have n: "n = (ord a * 2 ^ 8 + ord b) * 256 + ord c" unfolding n_def by simp
  have "n div 256 = ord a * 2 ^ 8 + ord b" unfolding n by (rule div_256) simp
  then have 8: "n div 2 ^ 8 = ord a * 2 ^ 8 + ord b" by simp
  have "n div 2 ^ 16 = n div 2 ^ 8 div 2 ^ 8" by (simp add: div_mult2_eq [symmetric])
  also have "\<dots> = ord a" unfolding 8 using ab by simp
  finally show "char_of (shr n 16) = a" by simp
  show "char_of (shr n 8 mod 256) = b" unfolding 8 using ab by simp
  show "char_of (n mod 256) = c" unfolding n_def by (simp add: mod_add_eq [symmetric])
qed

lemma b64_decode_quad:
  assumes "length out + 3 \<le> buflen"
  shows "b64_decode_loop (b64_quad (ord a * 2 ^ 16 + ord b * 2 ^ 8 + ord c) @ cs) 0 0 out buflen =
    b64_decode_loop cs 0 0 (out @ [a, b, c]) buflen"
proof -
  let ?n = "ord a * 2 ^ 16 + ord b * 2 ^ 8 + ord c"
  note b64_bytes(1) [of a b c]
  note g = b64_decode_group [OF b64_sextets(2) [OF this] _ _ _ assms,
      of "?n div 2 ^ 12 mod 64" "?n div 2 ^ 6 mod 64" "?n mod 64" cs]
  from g show ?thesis
    unfolding b64_quad_def append_Cons append_Nil b64_sextets(1) [OF b64_bytes(1)] Let_def
      b64_bytes(2-4) by simp
qed

lemma b64_decode_ref:
  assumes "length out + 3 * ((length data + 2) div 3) \<le> buflen"
  shows "(case b64_decode_loop (b64_ref data) 0 0 out buflen of
      Inl e \<Rightarrow> Inl e
    | Inr (bits, k, out') \<Rightarrow> b64_decode_tail bits k out' buflen) = Inr (out @ data)"
  using assms
proof (induction data arbitrary: out rule: b64_ref.induct)
  case 1
  show ?case by (simp add: b64_decode_tail_def)
next
  case (2 a)
  have n: "ord a * 2 ^ 16 < 2 ^ 24" using b64_bytes(1) [of a NUL NUL] by simp
  let ?n = "ord a * 2 ^ 16"
  have "16 * ord a mod 64 = 16 * (ord a mod 4)"
    using mult_mod_right [of 16 "ord a" 4] by simp
  then have q: "4096 * (ord a div 4) + 16 * ord a mod 64 * 64 = ord a * 1024"
    using div_mult_mod_eq [of "ord a" 4] by linarith
  show ?case
    using 2 b64_sextets(2) [OF n]
    by (simp add: b64_quad_def Let_def b64_decode_tail_def q)
next
  case (3 a b)
  let ?n = "ord a * 2 ^ 16 + ord b * 2 ^ 8"
  have n: "?n < 2 ^ 24" using b64_bytes(1) [of a b NUL] by simp
  have "?n mod 64 = 0" by simp
  then have q: "((?n div 2 ^ 18 * 64 + ?n div 2 ^ 12 mod 64) * 64 + ?n div 2 ^ 6 mod 64) * 64 = ?n"
    using b64_sextets(1) [OF n] by simp
  show ?case
    using 3 b64_sextets(2) [OF n] q b64_bytes(2,3) [of a b NUL]
    by (simp add: b64_quad_def Let_def b64_decode_tail_def)
next
  case (4 a b c r)
  have len: "(length (a # b # c # r) + 2) div 3 = Suc ((length r + 2) div 3)" by simp
  have "length out + 3 \<le> buflen" and "length (out @ [a, b, c]) + 3 * ((length r + 2) div 3) \<le> buflen"
    using "4.prems" unfolding len by simp_all
  then show ?case
    using "4.IH" [of "out @ [a, b, c]"] by (simp only: b64_ref.simps b64_decode_quad append_assoc append_Cons append_Nil)
qed

subsection \<open>Length of the result\<close>

definition b64_count :: "string \<Rightarrow> nat" where
  "b64_count s = length (filter is_b64char (takeWhile (\<lambda>c. c \<noteq> CHR ''='') s))"

lemma div4_simps:
  fixes n :: nat
  shows "(7 + n) div 4 = Suc ((n + 3) div 4)" and "(4 + n) div 4 = Suc (n div 4)"
    and "Suc (Suc (4 * n)) div 4 = n" and "Suc (Suc (4 * n)) mod 4 = 2"
    and "(6 + 12 * n) div 4 = Suc (3 * n)"
  by presburger+

lemma b64_room: "m + 3 * ((k + Suc n + 3) div 4) \<le> b \<Longrightarrow> m + 3 \<le> (b::nat)"
proof -
  assume "m + 3 * ((k + Suc n + 3) div 4) \<le> b"
  moreover have "(4 + (k + n)) div 4 = Suc ((k + n) div 4)" by simp
  ultimately show ?thesis by (simp add: add.commute)
qed

lemma b64_decode_loop_length:
  assumes "k < 4" and "length out + 3 * ((k + b64_count s + 3) div 4) \<le> buflen"
  shows "\<exists>bits' out'. b64_decode_loop s bits k out buflen = Inr (bits', (k + b64_count s) mod 4, out')
    \<and> length out' = length out + 3 * ((k + b64_count s) div 4)"
  using assms
proof (induction s bits k out buflen rule: b64_decode_loop.induct)
  case (2 c cs bits k out buflen)
  show ?case
  proof (cases "c = CHR ''='' \<or> \<not> is_b64char c")
    case True
    then show ?thesis using 2 by (auto simp: b64_count_def)
  next
    case False
    then have cnt: "b64_count (c # cs) = Suc (b64_count cs)" by (simp add: b64_count_def)
    have room: "length out + 3 \<le> buflen"
      using "2.prems"(2) unfolding cnt by (rule b64_room)
    show ?thesis
    proof (cases "k = 3")
      case True
      have "3 + b64_count (c # cs) = 4 + b64_count cs" unfolding cnt by simp
      with True False room 2 show ?thesis by (simp add: Let_def not_less div4_simps Suc3_eq_add_3 add.assoc)
    next
      case neq: False
      with False room 2 cnt show ?thesis by (simp add: Let_def not_less)
    qed
  qed
qed (simp add: b64_count_def)

lemma b64_decode_loop_fits:
  assumes "b64_decode_loop s bits k out buflen = Inr (bits', k', out')" and "length out \<le> buflen"
  shows "length out' \<le> buflen"
  using assms
  by (induction s bits k out buflen rule: b64_decode_loop.induct)
    (auto simp: Let_def split: if_splits)

subsection \<open>Properties\<close>

text \<open>
  C16: encoding succeeds exactly when the buffer holds four characters for every started group of
  three input bytes, and then it writes the reference encoding.
\<close>

theorem dkim_base64_encode_ref:
  "dkim_base64_encode data buflen =
     (if 4 * ((length data + 2) div 3) \<le> buflen then Some (b64_ref data) else None)"
  unfolding dkim_base64_encode_def using b64_encode_loop_ref [where out = "[]"]
  by (auto simp: length_b64_ref)

text \<open>C15: what was encoded is decoded to the same bytes, in a buffer as long as the encoding.\<close>

theorem dkim_base64_roundtrip:
  assumes "dkim_base64_encode data buflen = Some enc"
  shows "dkim_base64_decode enc (length enc) = Inr data"
proof -
  have enc: "enc = b64_ref data"
    using assms b64_encode_loop_ref [where out = "[]"]
    by (auto simp: dkim_base64_encode_def split: if_splits)
  show ?thesis
    using b64_decode_ref [where out = "[]" and data = data and buflen = "length enc"] unfolding enc dkim_base64_decode_def
    by (simp add: length_b64_ref)
qed

theorem dkim_base64_roundtrip_witness:
  "dkim_base64_decode ''RmlzaA=='' 8 = Inr ''Fish''"
proof -
  have "dkim_base64_encode ''Fish'' 8 = Some ''RmlzaA==''"
    by (simp add: dkim_base64_encode_def b64_encode_tail_def alphabet_def Let_def)
  from dkim_base64_roundtrip [OF this] show ?thesis by (simp add: eval_nat_numeral)
qed

text \<open>
  C17: with room for a full group per started group of four characters, decoding is total in the
  number of alphabet characters before the first padding sign: it reports corruption exactly when
  that number is 1 modulo 4, and otherwise yields three bytes for every four characters, rounded
  down.
\<close>

theorem dkim_base64_decode_length:
  assumes "3 * ((b64_count s + 3) div 4) \<le> buflen"
  shows "case dkim_base64_decode s buflen of
      Inl e \<Rightarrow> e = B64_Corrupt \<and> b64_count s mod 4 = 1
    | Inr out \<Rightarrow> b64_count s mod 4 \<noteq> 1 \<and> length out = b64_count s * 3 div 4 \<and> length out \<le> buflen"
proof -
  let ?n = "b64_count s"
  obtain bits' out' where
    l: "b64_decode_loop s 0 0 [] buflen = Inr (bits', ?n mod 4, out')" "length out' = 3 * (?n div 4)"
    using b64_decode_loop_length [of 0 "[]" s buflen 0] assms by auto
  obtain q where q: "?n = 4 * q + ?n mod 4" "?n div 4 = q"
    using mult_div_mod_eq [of 4 ?n] by metis
  have fin: "dkim_base64_decode s buflen = b64_decode_tail bits' (?n mod 4) out' buflen"
    using l(1) by (simp add: dkim_base64_decode_def)
  consider (0) "?n = 4 * q" | (1) "?n = 4 * q + 1" | (2) "?n = 4 * q + 2" | (3) "?n = 4 * q + 3"
    using q(1) mod_less_divisor [of 4 ?n] by linarith
  then show ?thesis
    by cases (use assms l(2) in \<open>auto simp: fin b64_decode_tail_def div4_simps\<close>)
qed

theorem dkim_base64_decode_length_witness:
  "case dkim_base64_decode ''Rmlz aA=='' 6 of
      Inl e \<Rightarrow> e = B64_Corrupt \<and> b64_count ''Rmlz aA=='' mod 4 = 1
    | Inr out \<Rightarrow> b64_count ''Rmlz aA=='' mod 4 \<noteq> 1
        \<and> length out = b64_count ''Rmlz aA=='' * 3 div 4 \<and> length out \<le> 6"
  by (rule dkim_base64_decode_length) (simp add: b64_count_def is_b64char_def cctype)

end
