(* ===== verification/Dkim_Tables.thy ===== *)
theory Dkim_Tables
  imports Dkim_Prelude
begin

text \<open>
  The numeric constants of \<open>dkim.h\<close>, \<open>dkim-internal.h\<close> and \<open>dkim-canon.h\<close> under their own names, and
  the name tables of \<open>dkim-tables.c\<close> with their two lookup functions. The build has SHA-256
  (\<open>SHA256_DIGEST_LENGTH\<close> is defined).

  A \<open>struct nametable\<close> array is the list of its entries before the terminator \<open>{ NULL, -1 }\<close>: the
  loops of the lookups stop there, which is the empty list here.

  The locale \<open>nametable\<close> is the contract every table keeps towards the parsers and the error
  reporting: names are distinct up to case, codes are distinct. It is interpreted on each of the
  fifteen tables; a strict table also never uses -1, the code that means "no such name".
\<close>

named_theorems tables \<open>definitions of the name tables\<close>

subsection \<open>Constants\<close>

abbreviation (input) DKIM_HDRMARGIN :: "nat" where "DKIM_HDRMARGIN \<equiv> 75"
abbreviation (input) DKIM_MAXHEADER :: "nat" where "DKIM_MAXHEADER \<equiv> 4096"
abbreviation (input) DKIM_MAXHOSTNAMELEN :: "nat" where "DKIM_MAXHOSTNAMELEN \<equiv> 256"
abbreviation (input) DKIM_STAT_OK :: "int" where "DKIM_STAT_OK \<equiv> 0"
abbreviation (input) DKIM_STAT_BADSIG :: "int" where "DKIM_STAT_BADSIG \<equiv> 1"
abbreviation (input) DKIM_STAT_NOSIG :: "int" where "DKIM_STAT_NOSIG \<equiv> 2"
abbreviation (input) DKIM_STAT_NOKEY :: "int" where "DKIM_STAT_NOKEY \<equiv> 3"
abbreviation (input) DKIM_STAT_CANTVRFY :: "int" where "DKIM_STAT_CANTVRFY \<equiv> 4"
abbreviation (input) DKIM_STAT_SYNTAX :: "int" where "DKIM_STAT_SYNTAX \<equiv> 5"
abbreviation (input) DKIM_STAT_NORESOURCE :: "int" where "DKIM_STAT_NORESOURCE \<equiv> 6"
abbreviation (input) DKIM_STAT_INTERNAL :: "int" where "DKIM_STAT_INTERNAL \<equiv> 7"
abbreviation (input) DKIM_STAT_REVOKED :: "int" where "DKIM_STAT_REVOKED \<equiv> 8"
abbreviation (input) DKIM_STAT_INVALID :: "int" where "DKIM_STAT_INVALID \<equiv> 9"
abbreviation (input) DKIM_STAT_NOTIMPLEMENT :: "int" where "DKIM_STAT_NOTIMPLEMENT \<equiv> 10"
abbreviation (input) DKIM_STAT_KEYFAIL :: "int" where "DKIM_STAT_KEYFAIL \<equiv> 11"
abbreviation (input) DKIM_STAT_CBREJECT :: "int" where "DKIM_STAT_CBREJECT \<equiv> 12"
abbreviation (input) DKIM_STAT_CBINVALID :: "int" where "DKIM_STAT_CBINVALID \<equiv> 13"
abbreviation (input) DKIM_STAT_CBTRYAGAIN :: "int" where "DKIM_STAT_CBTRYAGAIN \<equiv> 14"
abbreviation (input) DKIM_STAT_CBERROR :: "int" where "DKIM_STAT_CBERROR \<equiv> 15"
abbreviation (input) DKIM_STAT_MULTIDNSREPLY :: "int" where "DKIM_STAT_MULTIDNSREPLY \<equiv> 16"
abbreviation (input) DKIM_CBSTAT_CONTINUE :: "int" where "DKIM_CBSTAT_CONTINUE \<equiv> 0"
abbreviation (input) DKIM_CBSTAT_REJECT :: "int" where "DKIM_CBSTAT_REJECT \<equiv> 1"
abbreviation (input) DKIM_CBSTAT_TRYAGAIN :: "int" where "DKIM_CBSTAT_TRYAGAIN \<equiv> 2"
abbreviation (input) DKIM_CBSTAT_NOTFOUND :: "int" where "DKIM_CBSTAT_NOTFOUND \<equiv> 3"
abbreviation (input) DKIM_CBSTAT_ERROR :: "int" where "DKIM_CBSTAT_ERROR \<equiv> 4"
abbreviation (input) DKIM_SIGERROR_UNKNOWN :: "int" where "DKIM_SIGERROR_UNKNOWN \<equiv> - 1"
abbreviation (input) DKIM_SIGERROR_OK :: "int" where "DKIM_SIGERROR_OK \<equiv> 0"
abbreviation (input) DKIM_SIGERROR_VERSION :: "int" where "DKIM_SIGERROR_VERSION \<equiv> 1"
abbreviation (input) DKIM_SIGERROR_DOMAIN :: "int" where "DKIM_SIGERROR_DOMAIN \<equiv> 2"
abbreviation (input) DKIM_SIGERROR_EXPIRED :: "int" where "DKIM_SIGERROR_EXPIRED \<equiv> 3"
abbreviation (input) DKIM_SIGERROR_FUTURE :: "int" where "DKIM_SIGERROR_FUTURE \<equiv> 4"
abbreviation (input) DKIM_SIGERROR_TIMESTAMPS :: "int" where "DKIM_SIGERROR_TIMESTAMPS \<equiv> 5"
abbreviation (input) DKIM_SIGERROR_MISSING_C :: "int" where "DKIM_SIGERROR_MISSING_C \<equiv> 6"
abbreviation (input) DKIM_SIGERROR_INVALID_HC :: "int" where "DKIM_SIGERROR_INVALID_HC \<equiv> 7"
abbreviation (input) DKIM_SIGERROR_INVALID_BC :: "int" where "DKIM_SIGERROR_INVALID_BC \<equiv> 8"
abbreviation (input) DKIM_SIGERROR_MISSING_A :: "int" where "DKIM_SIGERROR_MISSING_A \<equiv> 9"
abbreviation (input) DKIM_SIGERROR_INVALID_A :: "int" where "DKIM_SIGERROR_INVALID_A \<equiv> 10"
abbreviation (input) DKIM_SIGERROR_MISSING_H :: "int" where "DKIM_SIGERROR_MISSING_H \<equiv> 11"
abbreviation (input) DKIM_SIGERROR_INVALID_L :: "int" where "DKIM_SIGERROR_INVALID_L \<equiv> 12"
abbreviation (input) DKIM_SIGERROR_INVALID_Q :: "int" where "DKIM_SIGERROR_INVALID_Q \<equiv> 13"
abbreviation (input) DKIM_SIGERROR_INVALID_QO :: "int" where "DKIM_SIGERROR_INVALID_QO \<equiv> 14"
abbreviation (input) DKIM_SIGERROR_MISSING_D :: "int" where "DKIM_SIGERROR_MISSING_D \<equiv> 15"
abbreviation (input) DKIM_SIGERROR_EMPTY_D :: "int" where "DKIM_SIGERROR_EMPTY_D \<equiv> 16"
abbreviation (input) DKIM_SIGERROR_MISSING_S :: "int" where "DKIM_SIGERROR_MISSING_S \<equiv> 17"
abbreviation (input) DKIM_SIGERROR_EMPTY_S :: "int" where "DKIM_SIGERROR_EMPTY_S \<equiv> 18"
abbreviation (input) DKIM_SIGERROR_MISSING_B :: "int" where "DKIM_SIGERROR_MISSING_B \<equiv> 19"
abbreviation (input) DKIM_SIGERROR_EMPTY_B :: "int" where "DKIM_SIGERROR_EMPTY_B \<equiv> 20"
abbreviation (input) DKIM_SIGERROR_CORRUPT_B :: "int" where "DKIM_SIGERROR_CORRUPT_B \<equiv> 21"
abbreviation (input) DKIM_SIGERROR_NOKEY :: "int" where "DKIM_SIGERROR_NOKEY \<equiv> 22"
abbreviation (input) DKIM_SIGERROR_DNSSYNTAX :: "int" where "DKIM_SIGERROR_DNSSYNTAX \<equiv> 23"
abbreviation (input) DKIM_SIGERROR_KEYFAIL :: "int" where "DKIM_SIGERROR_KEYFAIL \<equiv> 24"
abbreviation (input) DKIM_SIGERROR_MISSING_BH :: "int" where "DKIM_SIGERROR_MISSING_BH \<equiv> 25"
abbreviation (input) DKIM_SIGERROR_EMPTY_BH :: "int" where "DKIM_SIGERROR_EMPTY_BH \<equiv> 26"
abbreviation (input) DKIM_SIGERROR_CORRUPT_BH :: "int" where "DKIM_SIGERROR_CORRUPT_BH \<equiv> 27"
abbreviation (input) DKIM_SIGERROR_BADSIG :: "int" where "DKIM_SIGERROR_BADSIG \<equiv> 28"
abbreviation (input) DKIM_SIGERROR_SUBDOMAIN :: "int" where "DKIM_SIGERROR_SUBDOMAIN \<equiv> 29"
abbreviation (input) DKIM_SIGERROR_MULTIREPLY :: "int" where "DKIM_SIGERROR_MULTIREPLY \<equiv> 30"
abbreviation (input) DKIM_SIGERROR_EMPTY_H :: "int" where "DKIM_SIGERROR_EMPTY_H \<equiv> 31"
abbreviation (input) DKIM_SIGERROR_INVALID_H :: "int" where "DKIM_SIGERROR_INVALID_H \<equiv> 32"
abbreviation (input) DKIM_SIGERROR_TOOLARGE_L :: "int" where "DKIM_SIGERROR_TOOLARGE_L \<equiv> 33"
abbreviation (input) DKIM_SIGERROR_MBSFAILED :: "int" where "DKIM_SIGERROR_MBSFAILED \<equiv> 34"
abbreviation (input) DKIM_SIGERROR_KEYVERSION :: "int" where "DKIM_SIGERROR_KEYVERSION \<equiv> 35"
abbreviation (input) DKIM_SIGERROR_KEYUNKNOWNHASH :: "int" where "DKIM_SIGERROR_KEYUNKNOWNHASH \<equiv> 36"
abbreviation (input) DKIM_SIGERROR_KEYHASHMISMATCH :: "int" where "DKIM_SIGERROR_KEYHASHMISMATCH \<equiv> 37"
abbreviation (input) DKIM_SIGERROR_NOTEMAILKEY :: "int" where "DKIM_SIGERROR_NOTEMAILKEY \<equiv> 38"
abbreviation (input) DKIM_SIGERROR_GRANULARITY :: "int" where "DKIM_SIGERROR_GRANULARITY \<equiv> 39"
abbreviation (input) DKIM_SIGERROR_KEYTYPEMISSING :: "int" where "DKIM_SIGERROR_KEYTYPEMISSING \<equiv> 40"
abbreviation (input) DKIM_SIGERROR_KEYTYPEUNKNOWN :: "int" where "DKIM_SIGERROR_KEYTYPEUNKNOWN \<equiv> 41"
abbreviation (input) DKIM_SIGERROR_KEYREVOKED :: "int" where "DKIM_SIGERROR_KEYREVOKED \<equiv> 42"
abbreviation (input) DKIM_SIGERROR_KEYDECODE :: "int" where "DKIM_SIGERROR_KEYDECODE \<equiv> 43"
abbreviation (input) DKIM_CANON_UNKNOWN :: "int" where "DKIM_CANON_UNKNOWN \<equiv> - 1"
abbreviation (input) DKIM_CANON_SIMPLE :: "int" where "DKIM_CANON_SIMPLE \<equiv> 0"
abbreviation (input) DKIM_CANON_RELAXED :: "int" where "DKIM_CANON_RELAXED \<equiv> 1"
abbreviation (input) DKIM_SIGN_UNKNOWN :: "int" where "DKIM_SIGN_UNKNOWN \<equiv> - 1"
abbreviation (input) DKIM_SIGN_RSASHA1 :: "int" where "DKIM_SIGN_RSASHA1 \<equiv> 0"
abbreviation (input) DKIM_SIGN_RSASHA256 :: "int" where "DKIM_SIGN_RSASHA256 \<equiv> 1"
abbreviation (input) DKIM_QUERY_UNKNOWN :: "int" where "DKIM_QUERY_UNKNOWN \<equiv> - 1"
abbreviation (input) DKIM_QUERY_DNS :: "int" where "DKIM_QUERY_DNS \<equiv> 0"
abbreviation (input) DKIM_PARAM_UNKNOWN :: "int" where "DKIM_PARAM_UNKNOWN \<equiv> - 1"
abbreviation (input) DKIM_PARAM_SIGNATURE :: "int" where "DKIM_PARAM_SIGNATURE \<equiv> 0"
abbreviation (input) DKIM_PARAM_SIGNALG :: "int" where "DKIM_PARAM_SIGNALG \<equiv> 1"
abbreviation (input) DKIM_PARAM_DOMAIN :: "int" where "DKIM_PARAM_DOMAIN \<equiv> 2"
abbreviation (input) DKIM_PARAM_CANONALG :: "int" where "DKIM_PARAM_CANONALG \<equiv> 3"
abbreviation (input) DKIM_PARAM_QUERYMETHOD :: "int" where "DKIM_PARAM_QUERYMETHOD \<equiv> 4"
abbreviation (input) DKIM_PARAM_SELECTOR :: "int" where "DKIM_PARAM_SELECTOR \<equiv> 5"
abbreviation (input) DKIM_PARAM_HDRLIST :: "int" where "DKIM_PARAM_HDRLIST \<equiv> 6"
abbreviation (input) DKIM_PARAM_VERSION :: "int" where "DKIM_PARAM_VERSION \<equiv> 7"
abbreviation (input) DKIM_PARAM_IDENTITY :: "int" where "DKIM_PARAM_IDENTITY \<equiv> 8"
abbreviation (input) DKIM_PARAM_TIMESTAMP :: "int" where "DKIM_PARAM_TIMESTAMP \<equiv> 9"
abbreviation (input) DKIM_PARAM_EXPIRATION :: "int" where "DKIM_PARAM_EXPIRATION \<equiv> 10"
abbreviation (input) DKIM_PARAM_COPIEDHDRS :: "int" where "DKIM_PARAM_COPIEDHDRS \<equiv> 11"
abbreviation (input) DKIM_PARAM_BODYHASH :: "int" where "DKIM_PARAM_BODYHASH \<equiv> 12"
abbreviation (input) DKIM_PARAM_BODYLENGTH :: "int" where "DKIM_PARAM_BODYLENGTH \<equiv> 13"
abbreviation (input) DKIM_POLICY_NONE :: "int" where "DKIM_POLICY_NONE \<equiv> - 1"
abbreviation (input) DKIM_POLICY_UNKNOWN :: "int" where "DKIM_POLICY_UNKNOWN \<equiv> 0"
abbreviation (input) DKIM_POLICY_ALL :: "int" where "DKIM_POLICY_ALL \<equiv> 1"
abbreviation (input) DKIM_POLICY_DISCARDABLE :: "int" where "DKIM_POLICY_DISCARDABLE \<equiv> 2"
abbreviation (input) DKIM_PRESULT_NONE :: "int" where "DKIM_PRESULT_NONE \<equiv> - 1"
abbreviation (input) DKIM_PRESULT_NXDOMAIN :: "int" where "DKIM_PRESULT_NXDOMAIN \<equiv> 0"
abbreviation (input) DKIM_PRESULT_AUTHOR :: "int" where "DKIM_PRESULT_AUTHOR \<equiv> 1"
abbreviation (input) DKIM_MODE_UNKNOWN :: "int" where "DKIM_MODE_UNKNOWN \<equiv> - 1"
abbreviation (input) DKIM_MODE_SIGN :: "int" where "DKIM_MODE_SIGN \<equiv> 0"
abbreviation (input) DKIM_MODE_VERIFY :: "int" where "DKIM_MODE_VERIFY \<equiv> 1"
abbreviation (input) DKIM_OP_GETOPT :: "int" where "DKIM_OP_GETOPT \<equiv> 0"
abbreviation (input) DKIM_OP_SETOPT :: "int" where "DKIM_OP_SETOPT \<equiv> 1"
abbreviation (input) DKIM_OPTS_FLAGS :: "int" where "DKIM_OPTS_FLAGS \<equiv> 0"
abbreviation (input) DKIM_OPTS_TMPDIR :: "int" where "DKIM_OPTS_TMPDIR \<equiv> 1"
abbreviation (input) DKIM_OPTS_TIMEOUT :: "int" where "DKIM_OPTS_TIMEOUT \<equiv> 2"
abbreviation (input) DKIM_OPTS_SENDERHDRS :: "int" where "DKIM_OPTS_SENDERHDRS \<equiv> 3"
abbreviation (input) DKIM_OPTS_SIGNHDRS :: "int" where "DKIM_OPTS_SIGNHDRS \<equiv> 4"
abbreviation (input) DKIM_OPTS_VERSION :: "int" where "DKIM_OPTS_VERSION \<equiv> 5"
abbreviation (input) DKIM_OPTS_QUERYMETHOD :: "int" where "DKIM_OPTS_QUERYMETHOD \<equiv> 6"
abbreviation (input) DKIM_OPTS_QUERYINFO :: "int" where "DKIM_OPTS_QUERYINFO \<equiv> 7"
abbreviation (input) DKIM_OPTS_FIXEDTIME :: "int" where "DKIM_OPTS_FIXEDTIME \<equiv> 8"
abbreviation (input) DKIM_OPTS_SKIPHDRS :: "int" where "DKIM_OPTS_SKIPHDRS \<equiv> 9"
abbreviation (input) DKIM_OPTS_ALWAYSHDRS :: "int" where "DKIM_OPTS_ALWAYSHDRS \<equiv> 10"
abbreviation (input) DKIM_OPTS_SIGNATURETTL :: "int" where "DKIM_OPTS_SIGNATURETTL \<equiv> 11"
abbreviation (input) DKIM_OPTS_CLOCKDRIFT :: "int" where "DKIM_OPTS_CLOCKDRIFT \<equiv> 12"
abbreviation (input) DKIM_OPTS_MUSTBESIGNED :: "int" where "DKIM_OPTS_MUSTBESIGNED \<equiv> 13"
abbreviation (input) DKIM_LIBFLAGS_NONE :: "'a::zero" where "DKIM_LIBFLAGS_NONE \<equiv> 0"
abbreviation (input) DKIM_LIBFLAGS_TMPFILES :: "'a::numeral" where "DKIM_LIBFLAGS_TMPFILES \<equiv> 1"
abbreviation (input) DKIM_LIBFLAGS_KEEPFILES :: "'a::numeral" where "DKIM_LIBFLAGS_KEEPFILES \<equiv> 2"
abbreviation (input) DKIM_LIBFLAGS_SIGNLEN :: "'a::numeral" where "DKIM_LIBFLAGS_SIGNLEN \<equiv> 4"
abbreviation (input) DKIM_LIBFLAGS_CACHE :: "'a::numeral" where "DKIM_LIBFLAGS_CACHE \<equiv> 8"
abbreviation (input) DKIM_LIBFLAGS_ZTAGS :: "'a::numeral" where "DKIM_LIBFLAGS_ZTAGS \<equiv> 16"
abbreviation (input) DKIM_LIBFLAGS_DELAYSIGPROC :: "'a::numeral" where "DKIM_LIBFLAGS_DELAYSIGPROC \<equiv> 32"
abbreviation (input) DKIM_LIBFLAGS_EOHCHECK :: "'a::numeral" where "DKIM_LIBFLAGS_EOHCHECK \<equiv> 64"
abbreviation (input) DKIM_LIBFLAGS_ACCEPTV05 :: "'a::numeral" where "DKIM_LIBFLAGS_ACCEPTV05 \<equiv> 128"
abbreviation (input) DKIM_LIBFLAGS_FIXCRLF :: "'a::numeral" where "DKIM_LIBFLAGS_FIXCRLF \<equiv> 256"
abbreviation (input) DKIM_LIBFLAGS_ACCEPTDK :: "'a::numeral" where "DKIM_LIBFLAGS_ACCEPTDK \<equiv> 512"
abbreviation (input) DKIM_DNSSEC_UNKNOWN :: "int" where "DKIM_DNSSEC_UNKNOWN \<equiv> - 1"
abbreviation (input) DKIM_DNSSEC_BOGUS :: "int" where "DKIM_DNSSEC_BOGUS \<equiv> 0"
abbreviation (input) DKIM_DNSSEC_INSECURE :: "int" where "DKIM_DNSSEC_INSECURE \<equiv> 1"
abbreviation (input) DKIM_DNSSEC_SECURE :: "int" where "DKIM_DNSSEC_SECURE \<equiv> 2"
abbreviation (input) DKIM_SIGFLAG_IGNORE :: "'a::numeral" where "DKIM_SIGFLAG_IGNORE \<equiv> 1"
abbreviation (input) DKIM_SIGFLAG_PROCESSED :: "'a::numeral" where "DKIM_SIGFLAG_PROCESSED \<equiv> 2"
abbreviation (input) DKIM_SIGFLAG_PASSED :: "'a::numeral" where "DKIM_SIGFLAG_PASSED \<equiv> 4"
abbreviation (input) DKIM_SIGFLAG_TESTKEY :: "'a::numeral" where "DKIM_SIGFLAG_TESTKEY \<equiv> 8"
abbreviation (input) DKIM_SIGFLAG_NOSUBDOMAIN :: "'a::numeral" where "DKIM_SIGFLAG_NOSUBDOMAIN \<equiv> 16"
abbreviation (input) DKIM_SIGBH_UNTESTED :: "int" where "DKIM_SIGBH_UNTESTED \<equiv> - 1"
abbreviation (input) DKIM_SIGBH_MATCH :: "int" where "DKIM_SIGBH_MATCH \<equiv> 0"
abbreviation (input) DKIM_SIGBH_MISMATCH :: "int" where "DKIM_SIGBH_MISMATCH \<equiv> 1"
abbreviation (input) BUFRSZ :: "nat" where "BUFRSZ \<equiv> 1024"
abbreviation (input) MAXADDRESS :: "nat" where "MAXADDRESS \<equiv> 256"
abbreviation (input) MAXBUFRSZ :: "nat" where "MAXBUFRSZ \<equiv> 65536"
abbreviation (input) MAXHEADERS :: "nat" where "MAXHEADERS \<equiv> 32768"
abbreviation (input) MAXTAGNAME :: "nat" where "MAXTAGNAME \<equiv> 8"
abbreviation (input) DKIM_KEY_VERSION :: "int" where "DKIM_KEY_VERSION \<equiv> 0"
abbreviation (input) DKIM_KEY_GRANULARITY :: "int" where "DKIM_KEY_GRANULARITY \<equiv> 1"
abbreviation (input) DKIM_KEY_ALGORITHM :: "int" where "DKIM_KEY_ALGORITHM \<equiv> 2"
abbreviation (input) DKIM_KEY_NOTES :: "int" where "DKIM_KEY_NOTES \<equiv> 3"
abbreviation (input) DKIM_KEY_DATA :: "int" where "DKIM_KEY_DATA \<equiv> 4"
abbreviation (input) DKIM_KEY_SERVICE :: "int" where "DKIM_KEY_SERVICE \<equiv> 5"
abbreviation (input) DKIM_KEY_FLAGS :: "int" where "DKIM_KEY_FLAGS \<equiv> 6"
abbreviation (input) DKIM_PPARAM_POLICY :: "int" where "DKIM_PPARAM_POLICY \<equiv> 0"
abbreviation (input) DKIM_PPARAM_FLAGS :: "int" where "DKIM_PPARAM_FLAGS \<equiv> 1"
abbreviation (input) DKIM_PPARAM_REPORTADDR :: "int" where "DKIM_PPARAM_REPORTADDR \<equiv> 2"
abbreviation (input) DKIM_PFLAG_TEST :: "'a::numeral" where "DKIM_PFLAG_TEST \<equiv> 1"
abbreviation (input) DKIM_PFLAG_NOSUBDOMAIN :: "'a::numeral" where "DKIM_PFLAG_NOSUBDOMAIN \<equiv> 2"
abbreviation (input) DKIM_PFLAG_DEFAULT :: "'a::zero" where "DKIM_PFLAG_DEFAULT \<equiv> 0"
abbreviation (input) DKIM_SETTYPE_ANY :: "int" where "DKIM_SETTYPE_ANY \<equiv> - 1"
abbreviation (input) DKIM_SETTYPE_SIGNATURE :: "int" where "DKIM_SETTYPE_SIGNATURE \<equiv> 0"
abbreviation (input) DKIM_SETTYPE_POLICY :: "int" where "DKIM_SETTYPE_POLICY \<equiv> 1"
abbreviation (input) DKIM_SETTYPE_KEY :: "int" where "DKIM_SETTYPE_KEY \<equiv> 2"
abbreviation (input) DKIM_HASHTYPE_UNKNOWN :: "int" where "DKIM_HASHTYPE_UNKNOWN \<equiv> - 1"
abbreviation (input) DKIM_HASHTYPE_SHA1 :: "int" where "DKIM_HASHTYPE_SHA1 \<equiv> 0"
abbreviation (input) DKIM_HASHTYPE_SHA256 :: "int" where "DKIM_HASHTYPE_SHA256 \<equiv> 1"
abbreviation (input) DKIM_KEYTYPE_UNKNOWN :: "int" where "DKIM_KEYTYPE_UNKNOWN \<equiv> - 1"
abbreviation (input) DKIM_KEYTYPE_RSA :: "int" where "DKIM_KEYTYPE_RSA \<equiv> 0"

abbreviation (input) DKIM_HASHBUFSIZE :: "nat" where "DKIM_HASHBUFSIZE \<equiv> 4096"

abbreviation (input) DKIM_SIGNHEADER :: string where "DKIM_SIGNHEADER \<equiv> ''DKIM-Signature''"
abbreviation (input) DKIM_DNSKEYNAME :: string where "DKIM_DNSKEYNAME \<equiv> ''_domainkey''"
abbreviation (input) DKIM_DNSPOLICYNAME :: string where "DKIM_DNSPOLICYNAME \<equiv> ''_adsp''"
abbreviation (input) DKIM_VERSION_KEY :: string where "DKIM_VERSION_KEY \<equiv> ''DKIM1''"
abbreviation (input) DKIM_VERSION_SIG :: string where "DKIM_VERSION_SIG \<equiv> ''1''"
abbreviation (input) DKIM_VERSION_SIGOLD :: string where "DKIM_VERSION_SIGOLD \<equiv> ''0.5''"

subsection \<open>The tables\<close>

type_synonym nametable = "(string \<times> int) list"

definition prv_keyparams :: nametable where
  [tables]: "prv_keyparams = [
     (''a'', DKIM_KEY_ALGORITHM),
     (''g'', DKIM_KEY_GRANULARITY),
     (''n'', DKIM_KEY_NOTES),
     (''p'', DKIM_KEY_DATA),
     (''s'', DKIM_KEY_SERVICE),
     (''t'', DKIM_KEY_FLAGS),
     (''v'', DKIM_KEY_VERSION)]"

definition prv_policyflags :: nametable where
  [tables]: "prv_policyflags = [
     (''y'', DKIM_PFLAG_TEST),
     (''s'', DKIM_PFLAG_NOSUBDOMAIN)]"

definition prv_keyflags :: nametable where
  [tables]: "prv_keyflags = [
     (''y'', DKIM_SIGFLAG_TESTKEY),
     (''s'', DKIM_SIGFLAG_NOSUBDOMAIN)]"

definition prv_policyparams :: nametable where
  [tables]: "prv_policyparams = [
     (''dkim'', DKIM_PPARAM_POLICY),
     (''r'', DKIM_PPARAM_REPORTADDR),
     (''t'', DKIM_PPARAM_FLAGS)]"

definition prv_policies :: nametable where
  [tables]: "prv_policies = [
     (''unknown'', DKIM_POLICY_UNKNOWN),
     (''all'', DKIM_POLICY_ALL),
     (''discardable'', DKIM_POLICY_DISCARDABLE)]"

definition prv_policyresults :: nametable where
  [tables]: "prv_policyresults = [
     (''none'', DKIM_PRESULT_NONE),
     (''author domain policy found'', DKIM_PRESULT_AUTHOR),
     (''domain does not exist'', DKIM_PRESULT_NXDOMAIN)]"

definition prv_sigparams :: nametable where
  [tables]: "prv_sigparams = [
     (''a'', DKIM_PARAM_SIGNALG),
     (''b'', DKIM_PARAM_SIGNATURE),
     (''bh'', DKIM_PARAM_BODYHASH),
     (''c'', DKIM_PARAM_CANONALG),
     (''d'', DKIM_PARAM_DOMAIN),
     (''h'', DKIM_PARAM_HDRLIST),
     (''i'', DKIM_PARAM_IDENTITY),
     (''l'', DKIM_PARAM_BODYLENGTH),
     (''q'', DKIM_PARAM_QUERYMETHOD),
     (''s'', DKIM_PARAM_SELECTOR),
     (''t'', DKIM_PARAM_TIMESTAMP),
     (''v'', DKIM_PARAM_VERSION),
     (''x'', DKIM_PARAM_EXPIRATION),
     (''z'', DKIM_PARAM_COPIEDHDRS)]"

definition prv_algorithms :: nametable where
  [tables]: "prv_algorithms = [
     (''rsa-sha1'', DKIM_SIGN_RSASHA1),
     (''rsa-sha256'', DKIM_SIGN_RSASHA256)]"

definition prv_canonicalizations :: nametable where
  [tables]: "prv_canonicalizations = [
     (''simple'', DKIM_CANON_SIMPLE),
     (''relaxed'', DKIM_CANON_RELAXED)]"

definition prv_hashes :: nametable where
  [tables]: "prv_hashes = [
     (''sha1'', DKIM_HASHTYPE_SHA1),
     (''sha256'', DKIM_HASHTYPE_SHA256)]"

definition prv_keytypes :: nametable where
  [tables]: "prv_keytypes = [
     (''rsa'', DKIM_KEYTYPE_RSA)]"

definition prv_querytypes :: nametable where
  [tables]: "prv_querytypes = [
     (''dns'', DKIM_QUERY_DNS)]"

definition prv_results :: nametable where
  [tables]: "prv_results = [
     (''Success'', DKIM_STAT_OK),
     (''Bad signature'', DKIM_STAT_BADSIG),
     (''No signature'', DKIM_STAT_NOSIG),
     (''No key'', DKIM_STAT_NOKEY),
     (''Unable to verify'', DKIM_STAT_CANTVRFY),
     (''Syntax error'', DKIM_STAT_SYNTAX),
     (''Resource unavailable'', DKIM_STAT_NORESOURCE),
     (''Internal error'', DKIM_STAT_INTERNAL),
     (''Revoked key'', DKIM_STAT_REVOKED),
     (''Invalid parameter'', DKIM_STAT_INVALID),
     (''Not implemented'', DKIM_STAT_NOTIMPLEMENT),
     (''Key retrieval failed'', DKIM_STAT_KEYFAIL),
     (''Reject requested'', DKIM_STAT_CBREJECT),
     (''Invalid result'', DKIM_STAT_CBINVALID),
     (''Try again later'', DKIM_STAT_CBTRYAGAIN),
     (''Multiple DNS replies'', DKIM_STAT_MULTIDNSREPLY)]"

definition prv_settypes :: nametable where
  [tables]: "prv_settypes = [
     (''key'', DKIM_SETTYPE_KEY),
     (''policy'', DKIM_SETTYPE_POLICY),
     (''signature'', DKIM_SETTYPE_SIGNATURE)]"

definition prv_sigerrors :: nametable where
  [tables]: "prv_sigerrors = [
     (''no signature error'', DKIM_SIGERROR_OK),
     (''unsupported signature version'', DKIM_SIGERROR_VERSION),
     (''invalid domain coverage'', DKIM_SIGERROR_DOMAIN),
     (''signature expired'', DKIM_SIGERROR_EXPIRED),
     (''signature timestamp in the future'', DKIM_SIGERROR_FUTURE),
     (''signature timestamp order error'', DKIM_SIGERROR_TIMESTAMPS),
     (''canonicalization missing'', DKIM_SIGERROR_MISSING_C),
     (''invalid header canonicalization'', DKIM_SIGERROR_INVALID_HC),
     (''invalid body canonicalization'', DKIM_SIGERROR_INVALID_BC),
     (''signature algorithm missing'', DKIM_SIGERROR_MISSING_A),
     (''signature algorithm invalid'', DKIM_SIGERROR_INVALID_A),
     (''header list missing'', DKIM_SIGERROR_MISSING_H),
     (''body length value invalid'', DKIM_SIGERROR_INVALID_L),
     (''query method invalid'', DKIM_SIGERROR_INVALID_Q),
     (''query option invalid'', DKIM_SIGERROR_INVALID_QO),
     (''domain tag missing'', DKIM_SIGERROR_MISSING_D),
     (''domain tag empty'', DKIM_SIGERROR_EMPTY_D),
     (''selector tag missing'', DKIM_SIGERROR_MISSING_S),
     (''selector tag empty'', DKIM_SIGERROR_EMPTY_S),
     (''signature data missing'', DKIM_SIGERROR_MISSING_B),
     (''signature data empty'', DKIM_SIGERROR_EMPTY_B),
     (''signature data corrupt'', DKIM_SIGERROR_CORRUPT_B),
     (''key not found in DNS'', DKIM_SIGERROR_NOKEY),
     (''key DNS reply corrupt'', DKIM_SIGERROR_DNSSYNTAX),
     (''key DNS query failed'', DKIM_SIGERROR_KEYFAIL),
     (''body hash missing'', DKIM_SIGERROR_MISSING_BH),
     (''body hash empty'', DKIM_SIGERROR_EMPTY_BH),
     (''body hash corrupt'', DKIM_SIGERROR_CORRUPT_BH),
     (''signature verification failed'', DKIM_SIGERROR_BADSIG),
     (''unauthorized subdomain'', DKIM_SIGERROR_SUBDOMAIN),
     (''multiple keys found'', DKIM_SIGERROR_MULTIREPLY),
     (''header list tag empty'', DKIM_SIGERROR_EMPTY_H),
     (''header list missing required entries'', DKIM_SIGERROR_INVALID_H),
     (''length tag value exceeds body size'', DKIM_SIGERROR_TOOLARGE_L),
     (''unprotected header field'', DKIM_SIGERROR_MBSFAILED),
     (''unknown key version'', DKIM_SIGERROR_KEYVERSION),
     (''unknown key hash'', DKIM_SIGERROR_KEYUNKNOWNHASH),
     (''signature-key hash mismatch'', DKIM_SIGERROR_KEYHASHMISMATCH),
     (''not an e-mail key'', DKIM_SIGERROR_NOTEMAILKEY),
     (''key granularity mismatch'', DKIM_SIGERROR_GRANULARITY),
     (''key type missing'', DKIM_SIGERROR_KEYTYPEMISSING),
     (''unknown key type'', DKIM_SIGERROR_KEYTYPEUNKNOWN),
     (''key revoked'', DKIM_SIGERROR_KEYREVOKED),
     (''unable to apply public key'', DKIM_SIGERROR_KEYDECODE)]"

subsection \<open>The lookups\<close>

fun dkim_code_to_name :: "nametable \<Rightarrow> int \<Rightarrow> string option" where
  "dkim_code_to_name [] code = None"
| "dkim_code_to_name ((nm, c) # tbl) code = (if c = code then Some nm else dkim_code_to_name tbl code)"

fun dkim_name_to_code :: "nametable \<Rightarrow> string \<Rightarrow> int" where
  "dkim_name_to_code [] name = -1"
| "dkim_name_to_code ((nm, c) # tbl) name = (if strcaseeq nm name then c else dkim_name_to_code tbl name)"

lemma code_to_name_SomeD: "dkim_code_to_name tbl code = Some nm \<Longrightarrow> (nm, code) \<in> set tbl"
  by (induction tbl) (auto split: if_splits)

lemma code_to_name_None: "dkim_code_to_name tbl code = None \<longleftrightarrow> code \<notin> snd ` set tbl"
  by (induction tbl) force+

lemma name_to_code_in:
  "dkim_name_to_code tbl name = code \<Longrightarrow> code \<noteq> -1 \<Longrightarrow> \<exists>nm. (nm, code) \<in> set tbl \<and> strcaseeq nm name"
  by (induction tbl) (auto split: if_splits)

lemma name_to_code_absent:
  "\<forall>(nm, c)\<in>set tbl. \<not> strcaseeq nm name \<Longrightarrow> dkim_name_to_code tbl name = -1"
  by (induction tbl) auto

lemma name_to_code_case: "strcaseeq n m \<Longrightarrow> dkim_name_to_code tbl n = dkim_name_to_code tbl m"
  by (induction tbl) (auto simp: strcaseeq_def)

subsection \<open>The contract of a table\<close>

locale nametable =
  fixes tbl :: nametable
  assumes names_distinct: "distinct (map (map tolower \<circ> fst) tbl)"
    and codes_distinct: "distinct (map snd tbl)"
begin

lemma name_to_code_entry: "(nm, c) \<in> set tbl \<Longrightarrow> dkim_name_to_code tbl nm = c"
  using names_distinct
  by (induction tbl) (force simp: strcaseeq_def split: if_splits)+

lemma code_to_name_entry: "(nm, c) \<in> set tbl \<Longrightarrow> dkim_code_to_name tbl c = Some nm"
  using codes_distinct by (induction tbl) (force split: if_splits)+

lemma code_name_code: "dkim_code_to_name tbl c = Some nm \<Longrightarrow> dkim_name_to_code tbl nm = c"
  by (blast intro: name_to_code_entry dest: code_to_name_SomeD)

end

locale strict_nametable = nametable +
  assumes codes_valid: "-1 \<notin> snd ` set tbl"
begin

lemma name_code_name:
  assumes "dkim_name_to_code tbl name = c" "c \<noteq> -1"
  shows "\<exists>nm. dkim_code_to_name tbl c = Some nm \<and> strcaseeq nm name"
  using name_to_code_in [OF assms] code_to_name_entry by blast

lemma unknown_iff: "dkim_name_to_code tbl name = -1 \<longleftrightarrow> (\<forall>(nm, c)\<in>set tbl. \<not> strcaseeq nm name)"
proof
  assume unk: "dkim_name_to_code tbl name = -1"
  show "\<forall>(nm, c)\<in>set tbl. \<not> strcaseeq nm name"
  proof (clarify)
    fix nm c
    assume "(nm, c) \<in> set tbl" "strcaseeq nm name"
    then have "dkim_name_to_code tbl name = c"
      using name_to_code_case name_to_code_entry by metis
    with unk \<open>(nm, c) \<in> set tbl\<close> codes_valid show False by force
  qed
qed (rule name_to_code_absent)

end

interpretation keyparams: strict_nametable prv_keyparams
  by unfold_locales (simp_all add: tables tolower_def isupper_def of_char_of char_of_nat_eq)

interpretation policyflags: strict_nametable prv_policyflags
  by unfold_locales (simp_all add: tables tolower_def isupper_def of_char_of char_of_nat_eq)

interpretation keyflags: strict_nametable prv_keyflags
  by unfold_locales (simp_all add: tables tolower_def isupper_def of_char_of char_of_nat_eq)

interpretation policyparams: strict_nametable prv_policyparams
  by unfold_locales (simp_all add: tables tolower_def isupper_def of_char_of char_of_nat_eq)

interpretation policies: strict_nametable prv_policies
  by unfold_locales (simp_all add: tables tolower_def isupper_def of_char_of char_of_nat_eq)

interpretation policyresults: nametable prv_policyresults
  by unfold_locales (simp_all add: tables tolower_def isupper_def of_char_of char_of_nat_eq)

interpretation sigparams: strict_nametable prv_sigparams
  by unfold_locales (simp_all add: tables tolower_def isupper_def of_char_of char_of_nat_eq)

interpretation algorithms: strict_nametable prv_algorithms
  by unfold_locales (simp_all add: tables tolower_def isupper_def of_char_of char_of_nat_eq)

interpretation canonicalizations: strict_nametable prv_canonicalizations
  by unfold_locales (simp_all add: tables tolower_def isupper_def of_char_of char_of_nat_eq)

interpretation hashes: strict_nametable prv_hashes
  by unfold_locales (simp_all add: tables tolower_def isupper_def of_char_of char_of_nat_eq)

interpretation keytypes: strict_nametable prv_keytypes
  by unfold_locales (simp_all add: tables tolower_def isupper_def of_char_of char_of_nat_eq)

interpretation querytypes: strict_nametable prv_querytypes
  by unfold_locales (simp_all add: tables tolower_def isupper_def of_char_of char_of_nat_eq)

interpretation results: strict_nametable prv_results
  by unfold_locales (simp_all add: tables tolower_def isupper_def of_char_of char_of_nat_eq)

interpretation settypes: strict_nametable prv_settypes
  by unfold_locales (simp_all add: tables tolower_def isupper_def of_char_of char_of_nat_eq)

interpretation sigerrors: strict_nametable prv_sigerrors
  by unfold_locales (simp_all add: tables tolower_def isupper_def of_char_of char_of_nat_eq)

definition all_tables :: "nametable list" where
  "all_tables = [prv_keyparams, prv_policyflags, prv_keyflags, prv_policyparams, prv_policies,
     prv_policyresults, prv_sigparams, prv_algorithms, prv_canonicalizations, prv_hashes,
     prv_keytypes, prv_querytypes, prv_results, prv_settypes, prv_sigerrors]"

lemmas table_entry =
  keyparams.code_to_name_entry policyflags.code_to_name_entry keyflags.code_to_name_entry
  policyparams.code_to_name_entry policies.code_to_name_entry policyresults.code_to_name_entry
  sigparams.code_to_name_entry algorithms.code_to_name_entry canonicalizations.code_to_name_entry
  hashes.code_to_name_entry keytypes.code_to_name_entry querytypes.code_to_name_entry
  results.code_to_name_entry settypes.code_to_name_entry sigerrors.code_to_name_entry
  keyparams.name_to_code_entry policyflags.name_to_code_entry keyflags.name_to_code_entry
  policyparams.name_to_code_entry policies.name_to_code_entry policyresults.name_to_code_entry
  sigparams.name_to_code_entry algorithms.name_to_code_entry canonicalizations.name_to_code_entry
  hashes.name_to_code_entry keytypes.name_to_code_entry querytypes.name_to_code_entry
  results.name_to_code_entry settypes.name_to_code_entry sigerrors.name_to_code_entry

text \<open>
  C23: in each of the fifteen tables, looking up the code of an entry gives its name and looking up
  its name, in any mixture of cases, gives its code.
\<close>
theorem tables_roundtrip:
  assumes "tbl \<in> set all_tables" "(nm, c) \<in> set tbl" "strcaseeq nm name"
  shows "dkim_code_to_name tbl c = Some nm \<and> dkim_name_to_code tbl name = c"
proof -
  have "dkim_code_to_name tbl c = Some nm \<and> dkim_name_to_code tbl nm = c"
    using assms(1,2) unfolding all_tables_def by (auto intro: table_entry)
  then show ?thesis
    using name_to_code_case [OF assms(3)] by auto
qed

lemma tables_roundtrip_witness:
  "dkim_code_to_name prv_sigparams DKIM_PARAM_BODYHASH = Some ''bh'' \<and>
   dkim_name_to_code prv_sigparams ''BH'' = DKIM_PARAM_BODYHASH"
proof (rule tables_roundtrip)
  show "prv_sigparams \<in> set all_tables" by (simp add: all_tables_def)
  show "(''bh'', DKIM_PARAM_BODYHASH) \<in> set prv_sigparams" by (simp add: prv_sigparams_def)
  show "strcaseeq ''bh'' ''BH''" by code_simp
qed

text \<open>
  The signature error codes that have a text are exactly 0 to 43 (every \<open>DKIM_SIGERROR_*\<close>
  except UNKNOWN), and the result codes that have a text are exactly 0 to 16 without 15: the code
  \<open>DKIM_STAT_CBERROR\<close> of \<open>dkim.h\<close> has no entry, so \<open>dkim_getresultstr\<close> returns NULL for it.
\<close>
theorem code_texts:
  "(dkim_code_to_name prv_sigerrors c \<noteq> None \<longleftrightarrow> DKIM_SIGERROR_OK \<le> c \<and> c \<le> DKIM_SIGERROR_KEYDECODE) \<and>
   (dkim_code_to_name prv_results c \<noteq> None \<longleftrightarrow>
     DKIM_STAT_OK \<le> c \<and> c \<le> DKIM_STAT_MULTIDNSREPLY \<and> c \<noteq> DKIM_STAT_CBERROR)"
proof (rule conjI)
  show "dkim_code_to_name prv_sigerrors c \<noteq> None \<longleftrightarrow> DKIM_SIGERROR_OK \<le> c \<and> c \<le> DKIM_SIGERROR_KEYDECODE"
    unfolding code_to_name_None prv_sigerrors_def by (simp, presburger)
  show "dkim_code_to_name prv_results c \<noteq> None \<longleftrightarrow>
     DKIM_STAT_OK \<le> c \<and> c \<le> DKIM_STAT_MULTIDNSREPLY \<and> c \<noteq> DKIM_STAT_CBERROR"
    unfolding code_to_name_None prv_results_def by (simp, presburger)
qed

end
