(* ===== verification/Dkim_Qp.thy ===== *)
theory Dkim_Qp
  imports Dkim_Prelude
begin

text \<open>
  The hexadecimal digit \<open>dkim_hexchar\<close> and the quoted-printable decoder \<open>dkim_qp_decode\<close> of
  \<open>util.c\<close>.

  The decoder runs over the C string \<open>inp\<close> with the pointers \<open>p\<close>, \<open>start\<close> and \<open>stop\<close> as indices and
  the output written so far as \<open>out\<close>, so that \<open>q - out\<close> is its length and \<open>q <= end\<close> is
  \<open>length out \<le> outlen\<close>. Reading the byte at \<open>length inp\<close> gives the terminator; a read beyond it is
  outside the string, and the run then ends in \<open>QP_Overread\<close>. The writes are not checked against
  the buffer, so \<open>out\<close> may come out longer than \<open>outlen\<close>.
\<close>

subsection \<open>Hexadecimal digits\<close>

text \<open>\<open>None\<close> is the failing assertion.\<close>

definition dkim_hexchar :: "byte \<Rightarrow> nat option" where
  "dkim_hexchar c =
    (if ord (CHR ''0'') \<le> ord c \<and> ord c \<le> ord (CHR ''9'') then Some (ord c - ord (CHR ''0''))
     else if ord (CHR ''A'') \<le> ord c \<and> ord c \<le> ord (CHR ''F'') then Some (10 + ord c - ord (CHR ''A''))
     else if ord (CHR ''a'') \<le> ord c \<and> ord c \<le> ord (CHR ''f'') then Some (10 + ord c - ord (CHR ''a''))
     else None)"

lemma dkim_hexchar_defined: "dkim_hexchar c \<noteq> None \<longleftrightarrow> isxdigit c"
  by (auto simp: dkim_hexchar_def isxdigit_def isdigit_def)

lemma dkim_hexchar_bound: "dkim_hexchar c = Some v \<Longrightarrow> v < 16"
  by (auto simp: dkim_hexchar_def split: if_splits)

text \<open>\<open>strchr(hexdigits, c) - hexdigits\<close>: the terminator of \<open>hexdigits\<close> is found at offset 16.\<close>

definition hexdigits :: string where
  "hexdigits = ''0123456789ABCDEF''"

definition hex_offset :: "byte \<Rightarrow> nat option" where
  "hex_offset c =
    (if c = NUL then Some 16
     else if c \<in> set hexdigits then Some (length (takeWhile (\<lambda>x. x \<noteq> c) hexdigits))
     else None)"

definition hex_of :: "nat \<Rightarrow> byte" where
  "hex_of n = hexdigits ! n"

lemma hexdigits_length [simp]: "length hexdigits = 16"
  by (simp add: hexdigits_def)

lemma takeWhile_neq_nth:
  "distinct xs \<Longrightarrow> n < length xs \<Longrightarrow> length (takeWhile (\<lambda>x. x \<noteq> xs ! n) xs) = n"
proof (induction xs arbitrary: n)
  case (Cons x xs)
  then show ?case by (cases n) auto
qed simp

lemma hex_of_props: "n < 16 \<Longrightarrow> hex_of n \<in> set hexdigits \<and> hex_of n \<noteq> NUL"
proof -
  assume "n < 16"
  then have "hex_of n \<in> set hexdigits" by (simp add: hex_of_def)
  moreover have "NUL \<notin> set hexdigits" by (simp add: hexdigits_def)
  ultimately show ?thesis by metis
qed

lemma hex_offset_hex_of [simp]: "n < 16 \<Longrightarrow> hex_offset (hex_of n) = Some n"
proof -
  assume n: "n < 16"
  have "distinct hexdigits" by (simp add: hexdigits_def)
  then have "length (takeWhile (\<lambda>x. x \<noteq> hex_of n) hexdigits) = n"
    using n takeWhile_neq_nth [of hexdigits n] by (simp add: hex_of_def)
  then show ?thesis using hex_of_props [OF n] unfolding hex_offset_def by simp
qed

lemma hex_of_in: "n < 16 \<Longrightarrow> hex_of n \<in> set hexdigits"
  by (simp add: hex_of_def)

lemma hex_offset_le: "hex_offset c = Some n \<Longrightarrow> n \<le> 16"
proof -
  have "length (takeWhile (\<lambda>x. x \<noteq> c) hexdigits) \<le> 16"
    using length_takeWhile_le [of "\<lambda>x. x \<noteq> c" hexdigits] by simp
  then show "hex_offset c = Some n \<Longrightarrow> n \<le> 16" by (auto simp: hex_offset_def split: if_splits)
qed

subsection \<open>The decoder\<close>

datatype qp_result =
    QP_Bytes string
  | QP_Error string
  | QP_Overread string

definition rdc :: "string \<Rightarrow> nat \<Rightarrow> byte" where
  "rdc inp i = (if i < length inp then inp ! i else NUL)"

text \<open>The copying loops: each byte is written while \<open>q <= end\<close>.\<close>

fun qp_put :: "nat \<Rightarrow> string \<Rightarrow> string \<Rightarrow> string" where
  "qp_put outlen out [] = out"
| "qp_put outlen out (x # xs) = qp_put outlen (if length out \<le> outlen then out @ [x] else out) xs"

definition slice :: "string \<Rightarrow> nat \<Rightarrow> nat \<Rightarrow> string" where
  "slice inp i j = take (j - i) (drop i inp)"

definition qp_flush :: "string \<Rightarrow> nat \<Rightarrow> nat option \<Rightarrow> nat \<Rightarrow> string \<Rightarrow> string" where
  "qp_flush inp outlen start stop out =
    (case start of None \<Rightarrow> out | Some st \<Rightarrow> qp_put outlen out (slice inp st stop))"

text \<open>The variables of the loop, and its body: \<open>None\<close> is \<open>return -1\<close>.\<close>

record qp_state =
  qp_p :: nat
  qp_start :: "nat option"
  qp_stop :: "nat option"
  qp_next2 :: byte
  qp_out :: string

definition qp_body :: "string \<Rightarrow> nat \<Rightarrow> qp_state \<Rightarrow> qp_state option" where
  "qp_body inp outlen s =
    (let p = qp_p s; c = inp ! p in
     if c = CHR ''='' then
       (let next1 = rdc inp (p + 1);
            next2 = (if next1 \<noteq> NUL then rdc inp (p + 2) else qp_next2 s) in
        if next1 = LF \<or> (next1 = CR \<and> next2 = LF) then
          Some \<lparr>qp_p = p + 1 + (if next2 = LF then 1 else 0) + 1, qp_start = None, qp_stop = None,
             qp_next2 = next2, qp_out = qp_flush inp outlen (qp_start s) (p + 1) (qp_out s)\<rparr>
        else case hex_offset next1 of
          None \<Rightarrow> None
        | Some hi \<Rightarrow> (case hex_offset next2 of
            None \<Rightarrow> None
          | Some lo \<Rightarrow>
             Some \<lparr>qp_p = p + 2 + 1, qp_start = None, qp_stop = None, qp_next2 = next2,
               qp_out = qp_flush inp outlen (qp_start s) p (qp_out s) @ [char_of ((hi * 16 + lo) mod 256)]\<rparr>))
     else if c = SPACE \<or> c = TAB then
       Some (s\<lparr>qp_p := p + 1, qp_start := (if qp_start s = None then Some p else qp_start s)\<rparr>)
     else if c = CR then
       Some (s\<lparr>qp_p := p + 1\<rparr>)
     else if c = LF then
       (let stop = (case qp_stop s of None \<Rightarrow> p | Some x \<Rightarrow> x);
            out = qp_flush inp outlen (qp_start s) (stop + 1) (qp_out s);
            out = (if p > 0 \<and> inp ! (p - 1) \<noteq> CR then qp_put outlen out [LF]
                   else qp_put outlen out [CR, LF]) in
        Some (s\<lparr>qp_p := p + 1, qp_start := None, qp_stop := None, qp_out := out\<rparr>))
     else
       Some (s\<lparr>qp_p := p + 1, qp_start := (if qp_start s = None then Some p else qp_start s),
               qp_stop := Some p\<rparr>))"

lemma qp_body_progress: "qp_body inp outlen s = Some s' \<Longrightarrow> qp_p s < qp_p s'"
  unfolding qp_body_def Let_def by (simp split: if_split_asm option.split_asm) auto

function qp_loop :: "string \<Rightarrow> nat \<Rightarrow> qp_state \<Rightarrow> qp_result" where
  "qp_loop inp outlen s =
    (if qp_p s > length inp then QP_Overread (qp_out s)
     else if qp_p s = length inp \<or> \<not> length (qp_out s) \<le> outlen then
       QP_Bytes (qp_flush inp outlen (qp_start s) (qp_p s) (qp_out s))
     else case qp_body inp outlen s of
       None \<Rightarrow> QP_Error (qp_out s)
     | Some s' \<Rightarrow> qp_loop inp outlen s')"
  by pat_completeness auto
termination
  by (relation "measure (\<lambda>(inp, _, s). length inp + 1 - qp_p s)") (auto dest: qp_body_progress)

declare qp_loop.simps [simp del]

definition qp_init :: qp_state where
  "qp_init = \<lparr>qp_p = 0, qp_start = None, qp_stop = None, qp_next2 = NUL, qp_out = []\<rparr>"

definition dkim_qp_decode :: "string \<Rightarrow> nat \<Rightarrow> qp_result" where
  "dkim_qp_decode inp outlen = qp_loop inp outlen qp_init"

subsection \<open>Bounds on the writes\<close>

lemma qp_put_take: "qp_put outlen out xs = out @ take (outlen + 1 - length out) xs"
  by (induction xs arbitrary: out) (auto simp: take_Cons' Suc_diff_le)

lemma qp_put_le: "length out \<le> outlen + 1 \<Longrightarrow> length (qp_put outlen out xs) \<le> outlen + 1"
  by (simp add: qp_put_take)

lemma qp_flush_le: "length out \<le> outlen + 1 \<Longrightarrow> length (qp_flush inp outlen st sp out) \<le> outlen + 1"
  using qp_put_le by (auto simp: qp_flush_def split: option.split)

lemma qp_flush_None [simp]: "qp_flush inp outlen None sp out = out"
  by (simp add: qp_flush_def)

lemma qp_flush_past: "\<not> length out \<le> outlen \<Longrightarrow> qp_flush inp outlen st sp out = out"
  by (simp add: qp_flush_def qp_put_take split: option.split)

lemma qp_body_out:
  assumes "qp_body inp outlen s = Some s'" "P (qp_out s)"
    "\<And>sp. P (qp_flush inp outlen (qp_start s) sp (qp_out s))"
    "\<And>sp c. P (qp_flush inp outlen (qp_start s) sp (qp_out s) @ [c])"
    "\<And>sp xs. P (qp_put outlen (qp_flush inp outlen (qp_start s) sp (qp_out s)) xs)"
  shows "P (qp_out s')"
  using assms(1) unfolding qp_body_def Let_def
  by (simp split: if_split_asm option.split_asm del: qp_put.simps qp_flush_None;
      hypsubst; simp add: assms(2-) del: qp_put.simps qp_flush_None)

lemma qp_body_le:
  assumes "qp_body inp outlen s = Some s'" "length (qp_out s) \<le> outlen + 1"
  shows "length (qp_out s') \<le> outlen + 2"
proof -
  have le: "length (qp_flush inp outlen (qp_start s) sp (qp_out s)) \<le> outlen + 1" for sp
    using assms(2) by (rule qp_flush_le)
  have "length (qp_put outlen (qp_flush inp outlen (qp_start s) sp (qp_out s)) xs) \<le> outlen + 1" for sp xs
    using le by (rule qp_put_le)
  with le show ?thesis
    by (intro qp_body_out [OF assms(1), where P = "\<lambda>w. length w \<le> outlen + 2"])
      (use assms(2) in \<open>simp_all add: le_SucI del: qp_put.simps\<close>)
qed

fun qp_written :: "qp_result \<Rightarrow> string" where
  "qp_written (QP_Bytes out) = out"
| "qp_written (QP_Error out) = out"
| "qp_written (QP_Overread out) = out"

lemma qp_loop_le:
  "length (qp_out s) \<le> outlen + 2 \<Longrightarrow> length (qp_written (qp_loop inp outlen s)) \<le> outlen + 2"
proof (induction inp outlen s rule: qp_loop.induct)
  case (1 inp outlen s)
  show ?case
  proof (cases "length (qp_out s) \<le> outlen")
    case True
    then show ?thesis
      using "1.IH" "1.prems" qp_flush_le [of "qp_out s" outlen inp "qp_start s" "qp_p s"] qp_body_le [of inp outlen s]
      by (subst qp_loop.simps) (auto split: option.split)
  next
    case False
    then show ?thesis
      using "1.prems" by (subst qp_loop.simps) (simp add: qp_flush_past)
  qed
qed

lemma qp_body_p:
  assumes "qp_body inp outlen s = Some s'"
  shows "qp_p s' \<le> (if inp ! qp_p s = CHR ''='' then qp_p s + 3 else qp_p s + 1)"
  using assms unfolding qp_body_def Let_def
  by (simp split: if_split_asm option.split_asm del: qp_put.simps qp_flush_None; hypsubst; simp del: qp_put.simps)

lemma qp_body_in:
  assumes "qp_body inp outlen s = Some s'" "qp_p s < length inp"
    "inp ! qp_p s = CHR ''='' \<longrightarrow> qp_p s + 2 < length inp"
  shows "qp_p s' \<le> length inp"
  using qp_body_p [OF assms(1)] assms(2,3) by (cases "inp ! qp_p s = CHR ''=''") simp_all

lemma qp_loop_in:
  "qp_p s \<le> length inp \<Longrightarrow> \<forall>i<length inp. inp ! i = CHR ''='' \<longrightarrow> i + 2 < length inp \<Longrightarrow>
   qp_loop inp outlen s \<noteq> QP_Overread out"
proof (induction inp outlen s rule: qp_loop.induct)
  case (1 inp outlen s)
  show ?case
  proof (cases "qp_p s = length inp \<or> \<not> length (qp_out s) \<le> outlen")
    case True
    then show ?thesis using "1.prems"(1) by (subst qp_loop.simps) simp
  next
    case False
    show ?thesis
    proof (cases "qp_body inp outlen s")
      case None
      then show ?thesis using "1.prems"(1) False by (subst qp_loop.simps) simp
    next
      case (Some s')
      have "qp_p s < length inp" using False "1.prems"(1) by simp
      with Some "1.prems"(2) have "qp_p s' \<le> length inp" by (intro qp_body_in) auto
      with "1.IH" [OF _ _ Some] "1.prems" False have "qp_loop inp outlen s' \<noteq> QP_Overread out" by simp
      then show ?thesis using Some "1.prems"(1) False by (subst qp_loop.simps) simp
    qed
  qed
qed

text \<open>
  \<open>dkim_qp_decode\<close> writes at most two bytes past the \<open>outlen\<close> bytes it is given, whatever
  the input: its tests \<open>q <= end\<close> let one byte through, and the decoded byte is stored without a test.
\<close>
lemma dkim_qp_decode_writes: "length (qp_written (dkim_qp_decode inp outlen)) \<le> outlen + 2"
  using qp_loop_le [of qp_init outlen inp] by (simp add: dkim_qp_decode_def qp_init_def)

lemma dkim_qp_decode_overflows: "dkim_qp_decode ''ab=41'' 1 = QP_Bytes ''abA''"
  by code_simp

text \<open>
  The decoder stays inside its input when each \<open>=\<close> is followed by at least two bytes.
\<close>
theorem dkim_qp_decode_in_bounds:
  assumes "\<forall>i<length inp. inp ! i = CHR ''='' \<longrightarrow> i + 2 < length inp"
  shows "dkim_qp_decode inp outlen \<noteq> QP_Overread out"
  using qp_loop_in [OF _ assms, of qp_init] by (simp add: dkim_qp_decode_def qp_init_def)

lemma dkim_qp_decode_in_bounds_witness:
  "\<forall>out. dkim_qp_decode ''a=20b'' 8 \<noteq> QP_Overread out"
  by (rule allI, rule dkim_qp_decode_in_bounds) (simp add: less_Suc_eq all_simps numeral_eq_Suc)

text \<open>
  A \<open>=\<close> that ends the input is found in \<open>hexdigits\<close> at the terminator, so the scan goes on three
  bytes later, beyond the string.
\<close>

lemma dkim_qp_decode_overread: "dkim_qp_decode ''='' 256 = QP_Overread [char_of (16 :: nat)]"
  by code_simp

subsection \<open>Round trip\<close>

text \<open>The encoding of RFC 4871: printable bytes but \<open>=\<close> stand for themselves.\<close>

definition qp_safe :: "byte \<Rightarrow> bool" where
  "qp_safe c \<longleftrightarrow> 33 \<le> ord c \<and> ord c \<le> 126 \<and> c \<noteq> CHR ''=''"

definition qp_enc :: "byte \<Rightarrow> string" where
  "qp_enc c = (if qp_safe c then [c] else [CHR ''='', hex_of (ord c div 16), hex_of (ord c mod 16)])"

definition qp_encode :: "string \<Rightarrow> string" where
  "qp_encode s = concat (map qp_enc s)"

definition qp_pending :: "string \<Rightarrow> qp_state \<Rightarrow> string" where
  "qp_pending inp s = (case qp_start s of None \<Rightarrow> [] | Some st \<Rightarrow> slice inp st (qp_p s))"

definition qp_inv :: "string \<Rightarrow> qp_state \<Rightarrow> string \<Rightarrow> bool" where
  "qp_inv inp s d \<longleftrightarrow> qp_out s @ qp_pending inp s = d \<and> (\<forall>st. qp_start s = Some st \<longrightarrow> st \<le> qp_p s)"

lemma slice_Suc: "i \<le> j \<Longrightarrow> j < length inp \<Longrightarrow> slice inp i (Suc j) = slice inp i j @ [inp ! j]"
  by (simp add: slice_def Suc_diff_le take_Suc_conv_app_nth)

lemma slice_same [simp]: "slice inp i i = []"
  by (simp add: slice_def)

lemma qp_flush_fits:
  "qp_inv inp s d \<Longrightarrow> length d \<le> outlen + 1 \<Longrightarrow> qp_flush inp outlen (qp_start s) (qp_p s) (qp_out s) = d"
  by (auto simp: qp_inv_def qp_pending_def qp_flush_def qp_put_take split: option.splits)

lemma qp_safe_props: "qp_safe c \<Longrightarrow> c \<noteq> CHR ''='' \<and> c \<noteq> SPACE \<and> c \<noteq> TAB \<and> c \<noteq> CR \<and> c \<noteq> LF"
  by (auto simp: qp_safe_def)

lemma qp_body_safe:
  assumes "inp ! qp_p s = c" "qp_safe c" "qp_p s < length inp" "qp_inv inp s d"
  shows "\<exists>s'. qp_body inp outlen s = Some s' \<and> qp_p s' = qp_p s + 1 \<and> qp_inv inp s' (d @ [c]) \<and> qp_out s' = qp_out s"
  using assms qp_safe_props [OF assms(2)] unfolding qp_body_def Let_def
  by (auto simp: qp_inv_def qp_pending_def slice_Suc split: option.splits)

lemma qp_body_escaped:
  assumes "inp ! qp_p s = CHR ''=''" "rdc inp (qp_p s + 1) = hex_of (ord c div 16)"
    "rdc inp (qp_p s + 2) = hex_of (ord c mod 16)" "qp_inv inp s d" "length d \<le> outlen"
  shows "\<exists>s'. qp_body inp outlen s = Some s' \<and> qp_p s' = qp_p s + 3 \<and> qp_inv inp s' (d @ [c]) \<and>
    qp_out s' = d @ [c]"
proof -
  have "ord c < 256" by simp
  then have lt: "ord c div 16 < 16" "ord c mod 16 < 16" by linarith+
  have "LF \<notin> set hexdigits" "CR \<notin> set hexdigits" by (simp_all add: hexdigits_def)
  then have "hex_of (ord c div 16) \<noteq> LF" "hex_of (ord c div 16) \<noteq> CR" "hex_of (ord c div 16) \<noteq> NUL"
    using hex_of_props [OF lt(1)] by metis+
  then show ?thesis
    using assms lt qp_flush_fits [OF assms(4), of outlen]
    by (simp add: qp_body_def Let_def qp_inv_def qp_pending_def)
qed

lemma qp_loop_step:
  assumes "qp_body inp outlen s = Some s'" "qp_p s < length inp" "length (qp_out s) \<le> outlen"
  shows "qp_loop inp outlen s = qp_loop inp outlen s'"
  using assms by (subst qp_loop.simps) simp

lemma qp_inv_out_le: "qp_inv inp s d \<Longrightarrow> length (qp_out s) \<le> length d"
  by (auto simp: qp_inv_def)

lemma qp_loop_encoded:
  assumes "inp = pre @ qp_encode cs" "qp_p s = length pre" "qp_inv inp s d" "length d + length cs \<le> outlen"
  shows "qp_loop inp outlen s = QP_Bytes (d @ cs)"
  using assms
proof (induction cs arbitrary: pre s d)
  case Nil
  then show ?case
    using qp_flush_fits [of inp s d outlen] by (subst qp_loop.simps) (simp add: qp_encode_def)
next
  case (Cons c cs)
  have out: "length (qp_out s) \<le> outlen" using qp_inv_out_le [OF Cons.prems(3)] Cons.prems(4) by simp
  show ?case
  proof (cases "qp_safe c")
    case True
    then have inp: "inp = (pre @ [c]) @ qp_encode cs" "inp = pre @ c # qp_encode cs"
      using Cons.prems(1) by (simp_all add: qp_encode_def qp_enc_def)
    then have at: "inp ! qp_p s = c" "qp_p s < length inp" using Cons.prems(2) by simp_all
    obtain s' where s': "qp_body inp outlen s = Some s'" "qp_p s' = qp_p s + 1" "qp_inv inp s' (d @ [c])"
      using qp_body_safe [OF at(1) True at(2) Cons.prems(3)] by blast
    have "qp_loop inp outlen s' = QP_Bytes ((d @ [c]) @ cs)"
      using Cons.IH [OF inp(1) _ s'(3)] Cons.prems(2,4) s'(2) by simp
    then show ?thesis using qp_loop_step [OF s'(1) at(2) out] by simp
  next
    case False
    then have inp: "inp = (pre @ qp_enc c) @ qp_encode cs"
      "inp = pre @ CHR ''='' # hex_of (ord c div 16) # hex_of (ord c mod 16) # qp_encode cs"
      using Cons.prems(1) by (simp_all add: qp_encode_def qp_enc_def)
    then have at: "inp ! qp_p s = CHR ''=''" "qp_p s < length inp"
      "rdc inp (qp_p s + 1) = hex_of (ord c div 16)" "rdc inp (qp_p s + 2) = hex_of (ord c mod 16)"
      using Cons.prems(2) by (simp_all add: rdc_def nth_append)
    obtain s' where s': "qp_body inp outlen s = Some s'" "qp_p s' = qp_p s + 3" "qp_inv inp s' (d @ [c])"
      using qp_body_escaped [OF at(1,3,4) Cons.prems(3), of outlen] Cons.prems(4) by auto
    have "length (qp_enc c) = 3" using False by (simp add: qp_enc_def)
    then have "qp_loop inp outlen s' = QP_Bytes ((d @ [c]) @ cs)"
      using Cons.IH [OF inp(1) _ s'(3)] Cons.prems(2,4) s'(2) by simp
    then show ?thesis using qp_loop_step [OF s'(1) at(2) out] by simp
  qed
qed

text \<open>
  C22: decoding the quoted-printable encoding of a byte string gives the string back, when it fits
  in the \<open>outlen\<close> bytes of the buffer.
\<close>
theorem dkim_qp_roundtrip:
  assumes "length s \<le> outlen"
  shows "dkim_qp_decode (qp_encode s) outlen = QP_Bytes s"
  using qp_loop_encoded [of "qp_encode s" "[]" s qp_init "[]" outlen] assms
  by (simp add: dkim_qp_decode_def qp_init_def qp_inv_def qp_pending_def)

lemma dkim_qp_roundtrip_witness: "dkim_qp_decode (qp_encode ''a = b'') 5 = QP_Bytes ''a = b''"
  by (rule dkim_qp_roundtrip) simp

text \<open>
  A soft line break is dropped only when no text precedes it: the copy of the pending text runs to
  \<open>stop\<close>, the \<open>=\<close> itself.
\<close>

lemma qp_soft_break_keeps_equals:
  "dkim_qp_decode (''ab='' @ CRLF @ ''c'') 100 = QP_Bytes ''ab=c'' \<and>
   dkim_qp_decode (''=41='' @ CRLF @ ''c'') 100 = QP_Bytes ''Ac''"
  by code_simp

end
