(* ===== verification/Dkim_Dstring.thy ===== *)
theory Dkim_Dstring
  imports Dkim_Tables
begin

text \<open>
  The dynamic string of \<open>dkim-util.c\<close> (\<open>struct dkim_dstring\<close>): a buffer \<open>ds_buf\<close> of \<open>ds_alloc\<close>
  bytes that holds \<open>ds_len\<close> bytes and a NUL, with the limit \<open>ds_max\<close> (0 for none).

  The buffer is the list of its bytes, its contents the first \<open>ds_len\<close> of them. A store past its
  end makes the list longer than \<open>ds_alloc\<close>, so the invariant \<open>ds_wf\<close> includes that no store was out
  of bounds. The bytes that \<open>dkim_malloc\<close> returns are zero here; whether it succeeds for a given
  size is the parameter \<open>malloc_ok\<close>. Sizes are naturals: the code's \<open>ds_alloc * 2\<close> stays in an
  \<open>int\<close> while the string is below one gigabyte.

  The locale \<open>byte_buffer\<close> is what the code that builds headers uses: an append that either adds
  the bytes or leaves the buffer as it was. It is interpreted on \<open>dkim_dstring_cat\<close> and
  \<open>dkim_dstring_catn\<close>.
\<close>

record dstring =
  ds_alloc :: nat
  ds_max :: nat
  ds_len :: nat
  ds_buf :: string

abbreviation (input) INT_MAX :: nat where "INT_MAX \<equiv> 2147483647"

definition poke :: "string \<Rightarrow> nat \<Rightarrow> string \<Rightarrow> string" where
  "poke buf off src = take off buf @ src @ drop (off + length src) buf"

lemma poke_length: "off + length src \<le> length buf \<Longrightarrow> length (poke buf off src) = length buf"
  by (simp add: poke_def)

lemma poke_overflow: "off \<le> length buf \<Longrightarrow> off + length src > length buf \<Longrightarrow>
    length (poke buf off src) = off + length src"
  by (simp add: poke_def)

lemma poke_take: "off \<le> length buf \<Longrightarrow> take (off + length src) (poke buf off src) = take off buf @ src"
  by (simp add: poke_def)

lemma poke_nth: "off + length src \<le> length buf \<Longrightarrow> i < length src \<Longrightarrow> poke buf off src ! (off + i) = src ! i"
  by (simp add: poke_def nth_append)

definition dkim_strdup :: "(nat \<Rightarrow> bool) \<Rightarrow> string \<Rightarrow> nat \<Rightarrow> string option" where
  "dkim_strdup malloc_ok str len =
    (let n = (if len = 0 then length (cstr str) else len) in
     if malloc_ok (n + 1) then Some (take n str @ [NUL]) else None)"

subsection \<open>Resizing\<close>

text \<open>The doubling loop; \<open>None\<close> is \<open>return FALSE\<close>. Thirty-two rounds are enough for any \<open>int\<close>.\<close>

fun resize_loop :: "nat \<Rightarrow> nat \<Rightarrow> nat \<Rightarrow> nat \<Rightarrow> nat option" where
  "resize_loop 0 mx len newsz = None"
| "resize_loop (Suc fuel) mx len newsz =
    (if newsz \<ge> len then Some newsz
     else if mx > 0 \<and> newsz > mx then (if len \<le> mx then Some len else None)
     else if newsz > INT_MAX div 2 then None
     else resize_loop fuel mx len (newsz * 2))"

definition dkim_dstring_resize :: "(nat \<Rightarrow> bool) \<Rightarrow> dstring \<Rightarrow> nat \<Rightarrow> bool \<times> dstring" where
  "dkim_dstring_resize malloc_ok dstr len =
    (if ds_alloc dstr \<ge> len then (True, dstr)
     else case resize_loop 32 (ds_max dstr) len (ds_alloc dstr * 2) of
       None \<Rightarrow> (False, dstr)
     | Some newsz \<Rightarrow>
         if \<not> malloc_ok newsz then (False, dstr)
         else (True, dstr\<lparr>ds_alloc := newsz,
                 ds_buf := poke (replicate newsz NUL) 0 (take (ds_alloc dstr) (ds_buf dstr))\<rparr>))"

lemma resize_loop_fuel:
  "INT_MAX div 2 < newsz * 2 ^ fuel \<Longrightarrow>
   resize_loop (Suc fuel + k) mx len newsz = resize_loop (Suc fuel) mx len newsz"
proof (induction fuel arbitrary: newsz)
  case (Suc fuel)
  have "INT_MAX div 2 < (newsz * 2) * 2 ^ fuel" using Suc.prems by (simp add: mult.assoc)
  then show ?case
    using Suc.IH [of "newsz * 2"]
    by (simp only: add_Suc resize_loop.simps(2) [of "Suc (fuel + k)"] resize_loop.simps(2) [of "Suc fuel"])
qed simp

lemma resize_loop_enough:
  assumes "0 < newsz" "32 \<le> fuel"
  shows "resize_loop fuel mx len newsz = resize_loop 32 mx len newsz"
proof -
  have "INT_MAX div 2 < newsz * 2 ^ 31" using assms(1) by simp
  then have "resize_loop (Suc 31 + (fuel - 32)) mx len newsz = resize_loop (Suc 31) mx len newsz"
    by (rule resize_loop_fuel)
  then show ?thesis using assms(2) by simp
qed

lemma resize_loop_ge: "resize_loop fuel mx len newsz = Some n \<Longrightarrow> len \<le> n"
  by (induction fuel arbitrary: newsz) (auto split: if_splits)

lemma resize_loop_succeeds:
  "INT_MAX div 2 < newsz * 2 ^ fuel \<Longrightarrow> len \<le> 2 ^ 30 \<Longrightarrow> mx = 0 \<or> len \<le> mx \<Longrightarrow>
   \<exists>n. resize_loop (Suc fuel) mx len newsz = Some n"
proof (induction fuel arbitrary: newsz)
  case (Suc fuel)
  have "INT_MAX div 2 < (newsz * 2) * 2 ^ fuel" using Suc.prems by (simp add: mult.assoc)
  then show ?case using Suc.IH [of "newsz * 2"] Suc.prems(2,3) by (auto simp del: mult_Suc)
qed auto

subsection \<open>The operations\<close>

definition dkim_dstring_new :: "(nat \<Rightarrow> bool) \<Rightarrow> int \<Rightarrow> int \<Rightarrow> dstring option" where
  "dkim_dstring_new malloc_ok len maxlen =
    (if (maxlen > 0 \<and> len > maxlen) \<or> len < 0 then None
     else let len = (if nat len < BUFRSZ then BUFRSZ else nat len) in
       if \<not> malloc_ok len then None
       else Some \<lparr>ds_alloc = len, ds_max = nat maxlen, ds_len = 0, ds_buf = replicate len NUL\<rparr>)"

definition dkim_dstring_copy :: "(nat \<Rightarrow> bool) \<Rightarrow> dstring \<Rightarrow> string \<Rightarrow> bool \<times> dstring" where
  "dkim_dstring_copy malloc_ok dstr str =
    (let len = length str in
     if ds_max dstr > 0 \<and> len \<ge> ds_max dstr then (False, dstr)
     else
       (case (if ds_alloc dstr \<le> len then dkim_dstring_resize malloc_ok dstr (len + 1) else (True, dstr)) of
          (False, dstr) \<Rightarrow> (False, dstr)
        | (True, dstr) \<Rightarrow> (True, dstr\<lparr>ds_buf := poke (ds_buf dstr) 0 (str @ [NUL]), ds_len := len\<rparr>)))"

definition dkim_dstring_cat :: "(nat \<Rightarrow> bool) \<Rightarrow> dstring \<Rightarrow> string \<Rightarrow> bool \<times> dstring" where
  "dkim_dstring_cat malloc_ok dstr str =
    (let len = length str; needed = ds_len dstr + len in
     if ds_max dstr > 0 \<and> needed \<ge> ds_max dstr then (False, dstr)
     else
       (case (if ds_alloc dstr \<le> needed then dkim_dstring_resize malloc_ok dstr (needed + 1) else (True, dstr)) of
          (False, dstr) \<Rightarrow> (False, dstr)
        | (True, dstr) \<Rightarrow>
            (True, dstr\<lparr>ds_buf := poke (ds_buf dstr) (ds_len dstr) (str @ [NUL]),
                        ds_len := ds_len dstr + len\<rparr>)))"

definition dkim_dstring_cat1 :: "(nat \<Rightarrow> bool) \<Rightarrow> dstring \<Rightarrow> byte \<Rightarrow> bool \<times> dstring" where
  "dkim_dstring_cat1 malloc_ok dstr c =
    (let len = ds_len dstr + 1 in
     if ds_max dstr > 0 \<and> len \<ge> ds_max dstr then (False, dstr)
     else
       (case (if ds_alloc dstr \<le> len then dkim_dstring_resize malloc_ok dstr (len + 1) else (True, dstr)) of
          (False, dstr) \<Rightarrow> (False, dstr)
        | (True, dstr) \<Rightarrow>
            (let buf = poke (ds_buf dstr) (ds_len dstr) [c]; len = ds_len dstr + 1 in
             (True, dstr\<lparr>ds_buf := poke buf len [NUL], ds_len := len\<rparr>))))"

definition dkim_dstring_catn :: "(nat \<Rightarrow> bool) \<Rightarrow> dstring \<Rightarrow> string \<Rightarrow> nat \<Rightarrow> bool \<times> dstring" where
  "dkim_dstring_catn malloc_ok dstr str nbytes =
    (let needed = ds_len dstr + nbytes in
     if ds_max dstr > 0 \<and> needed \<ge> ds_max dstr then (False, dstr)
     else
       (case (if ds_alloc dstr \<le> needed then dkim_dstring_resize malloc_ok dstr (needed + 1) else (True, dstr)) of
          (False, dstr) \<Rightarrow> (False, dstr)
        | (True, dstr) \<Rightarrow>
            (let buf = poke (ds_buf dstr) (ds_len dstr) (take nbytes str); len = ds_len dstr + nbytes in
             (True, dstr\<lparr>ds_buf := poke buf len [NUL], ds_len := len\<rparr>))))"

definition dkim_dstring_get :: "dstring \<Rightarrow> string" where
  "dkim_dstring_get dstr = cstr (ds_buf dstr)"

definition dkim_dstring_len :: "dstring \<Rightarrow> nat" where
  "dkim_dstring_len dstr = ds_len dstr"

definition dkim_dstring_blank :: "dstring \<Rightarrow> dstring" where
  "dkim_dstring_blank dstr = dstr\<lparr>ds_len := 0, ds_buf := poke (ds_buf dstr) 0 [NUL]\<rparr>"

text \<open>
  \<open>vsnprintf(buf + off, size, ...)\<close> stores at most \<open>size - 1\<close> bytes of the formatted text and a NUL
  and returns the length of the whole text; \<open>dkim_dstring_printf\<close> is given that text. \<open>None\<close> is the
  return value -1.
\<close>

definition vsnprintf :: "string \<Rightarrow> nat \<Rightarrow> nat \<Rightarrow> string \<Rightarrow> string" where
  "vsnprintf buf off sz text = (if sz = 0 then buf else poke buf off (take (sz - 1) text @ [NUL]))"

definition dkim_dstring_printf :: "(nat \<Rightarrow> bool) \<Rightarrow> dstring \<Rightarrow> string \<Rightarrow> nat option \<times> dstring" where
  "dkim_dstring_printf malloc_ok dstr text =
    (let dstr = dstr\<lparr>ds_buf := vsnprintf (ds_buf dstr) (ds_len dstr) (ds_alloc dstr) text\<rparr>;
         len = length text in
     if len > ds_len dstr then
       (case dkim_dstring_resize malloc_ok dstr (len + 1) of
          (False, dstr) \<Rightarrow> (None, dstr)
        | (True, dstr) \<Rightarrow>
            (Some (ds_len dstr + len),
             dstr\<lparr>ds_buf := vsnprintf (ds_buf dstr) (ds_len dstr) (ds_alloc dstr) text,
                  ds_len := ds_len dstr + len\<rparr>))
     else (Some (ds_len dstr + len), dstr\<lparr>ds_len := ds_len dstr + len\<rparr>))"

subsection \<open>The invariant and the contents\<close>

definition ds_wf :: "dstring \<Rightarrow> bool" where
  "ds_wf d \<longleftrightarrow> length (ds_buf d) = ds_alloc d \<and> ds_len d < ds_alloc d \<and>
     ds_buf d ! ds_len d = NUL \<and> (ds_max d > 0 \<longrightarrow> ds_len d < ds_max d)"

definition ds_content :: "dstring \<Rightarrow> string" where
  "ds_content d = take (ds_len d) (ds_buf d)"

lemma ds_content_length: "ds_wf d \<Longrightarrow> length (ds_content d) = ds_len d"
  by (simp add: ds_wf_def ds_content_def)

lemma ds_content_get: "ds_wf d \<Longrightarrow> is_cstring (ds_content d) \<Longrightarrow> dkim_dstring_get d = ds_content d"
proof -
  assume wf: "ds_wf d" and cs: "is_cstring (ds_content d)"
  then have "ds_buf d = ds_content d @ NUL # drop (Suc (ds_len d)) (ds_buf d)"
    unfolding ds_wf_def ds_content_def by (metis id_take_nth_drop)
  then show ?thesis unfolding dkim_dstring_get_def by (metis cstr_append_NUL cs)
qed

lemma new_wf:
  "dkim_dstring_new mk len mx = Some d \<Longrightarrow>
   ds_wf d \<and> ds_content d = [] \<and> ds_max d = nat mx \<and> nat len \<le> ds_alloc d"
  by (auto simp: dkim_dstring_new_def Let_def ds_wf_def ds_content_def split: if_splits)

lemma resize_True:
  assumes "dkim_dstring_resize mk d len = (True, d')" "length (ds_buf d) = ds_alloc d"
  shows "len \<le> ds_alloc d' \<and> length (ds_buf d') = ds_alloc d' \<and> ds_len d' = ds_len d \<and>
    ds_max d' = ds_max d \<and> ds_alloc d \<le> ds_alloc d' \<and> take (ds_alloc d) (ds_buf d') = ds_buf d"
  using assms resize_loop_ge [of 32 "ds_max d" len "ds_alloc d * 2"]
  by (auto simp: dkim_dstring_resize_def poke_def split: if_splits option.splits)

lemma resize_False: "dkim_dstring_resize mk d len = (False, d') \<Longrightarrow> d' = d"
  by (auto simp: dkim_dstring_resize_def split: if_splits option.splits)

lemma resize_succeeds:
  assumes "\<And>n. mk n" "len \<le> 2 ^ 30" "0 < ds_alloc d" "ds_max d = 0 \<or> len \<le> ds_max d"
  shows "fst (dkim_dstring_resize mk d len)"
proof -
  have "INT_MAX div 2 < (ds_alloc d * 2) * 2 ^ 31" using assms(3) by simp
  from resize_loop_succeeds [OF this assms(2,4)]
  show ?thesis using assms(1) by (auto simp: dkim_dstring_resize_def split: option.split)
qed

text \<open>What every append shares: room is made for \<open>needed\<close> bytes and the NUL, or nothing changes.\<close>

definition ds_room :: "(nat \<Rightarrow> bool) \<Rightarrow> dstring \<Rightarrow> nat \<Rightarrow> bool \<times> dstring" where
  "ds_room mk d needed =
    (if ds_alloc d \<le> needed then dkim_dstring_resize mk d (needed + 1) else (True, d))"

lemma room_True:
  assumes "ds_room mk d needed = (True, d')" "ds_wf d"
  shows "needed < ds_alloc d' \<and> length (ds_buf d') = ds_alloc d' \<and> ds_len d' = ds_len d \<and>
    ds_max d' = ds_max d \<and> take (ds_len d) (ds_buf d') = ds_content d"
proof (cases "ds_alloc d \<le> needed")
  case True
  then have r: "dkim_dstring_resize mk d (needed + 1) = (True, d')" using assms(1) by (simp add: ds_room_def)
  have len: "length (ds_buf d) = ds_alloc d" "ds_len d < ds_alloc d" using assms(2) by (auto simp: ds_wf_def)
  note * = resize_True [OF r len(1)]
  then have "take (ds_len d) (ds_buf d') = ds_content d"
    using len(2) unfolding ds_content_def by (metis min.strict_order_iff take_take)
  with * show ?thesis by simp
next
  case False
  then show ?thesis using assms by (auto simp: ds_room_def ds_wf_def ds_content_def)
qed

lemma room_False: "ds_room mk d needed = (False, d') \<Longrightarrow> d' = d"
  by (auto simp: ds_room_def dest: resize_False split: if_splits)

lemma append_at_end:
  assumes "length buf = al" "n + length s < al"
  shows "length (poke (poke buf n s) (n + length s) [NUL]) = al \<and>
    poke (poke buf n s) (n + length s) [NUL] ! (n + length s) = NUL \<and>
    take (n + length s) (poke (poke buf n s) (n + length s) [NUL]) = take n buf @ s"
  using assms by (simp add: poke_def nth_append)

lemma poke_two: "off + length s < length buf \<Longrightarrow>
    poke buf off (s @ [NUL]) = poke (poke buf off s) (off + length s) [NUL]"
  by (simp add: poke_def drop_Cons' add.commute)

lemma append_step:
  assumes room: "ds_room mk d (ds_len d + length s) = (True, d')" and wf: "ds_wf d"
    and mx: "\<not> (ds_max d > 0 \<and> ds_len d + length s \<ge> ds_max d)"
    and e: "e = d'\<lparr>ds_buf := poke (poke (ds_buf d') (ds_len d) s) (ds_len d + length s) [NUL],
                  ds_len := ds_len d + length s\<rparr>"
  shows "ds_wf e \<and> ds_content e = ds_content d @ s \<and> ds_max e = ds_max d"
  using room_True [OF room wf] mx append_at_end [of "ds_buf d'" "ds_alloc d'" "ds_len d" s]
  by (auto simp: e ds_wf_def ds_content_def)

lemma catn_eq:
  "length s \<ge> n \<Longrightarrow> dkim_dstring_catn mk d s n =
    (if ds_max d > 0 \<and> ds_len d + n \<ge> ds_max d then (False, d)
     else case ds_room mk d (ds_len d + n) of
        (False, d) \<Rightarrow> (False, d)
      | (True, d) \<Rightarrow> (True, d\<lparr>ds_buf := poke (poke (ds_buf d) (ds_len d) (take n s)) (ds_len d + n) [NUL],
                             ds_len := ds_len d + n\<rparr>))"
  by (auto simp: dkim_dstring_catn_def ds_room_def Let_def split: prod.splits bool.splits)

lemma catn_True:
  assumes "dkim_dstring_catn mk d s n = (True, e)" "ds_wf d" "n \<le> length s"
  shows "ds_wf e \<and> ds_content e = ds_content d @ take n s \<and> ds_max e = ds_max d"
proof -
  obtain d' where r: "ds_room mk d (ds_len d + n) = (True, d')"
    and mx: "\<not> (ds_max d > 0 \<and> ds_len d + n \<ge> ds_max d)"
    and e: "e = d'\<lparr>ds_buf := poke (poke (ds_buf d') (ds_len d') (take n s)) (ds_len d' + n) [NUL],
                  ds_len := ds_len d' + n\<rparr>"
    using assms(1) catn_eq [OF assms(3), of mk d] by (auto split: if_splits prod.splits bool.splits)
  then show ?thesis
    using append_step [of mk d "take n s" d' e] room_True [OF r assms(2)] assms(2,3) by simp
qed

lemma catn_False:
  "dkim_dstring_catn mk d s n = (False, e) \<Longrightarrow> e = d"
  by (auto simp: dkim_dstring_catn_def Let_def dest: resize_False split: if_splits prod.splits bool.splits)

lemma cat_eq_catn:
  assumes "ds_wf d"
  shows "dkim_dstring_cat mk d s = dkim_dstring_catn mk d s (length s)"
proof -
  have "poke (ds_buf d') (ds_len d') (s @ [NUL]) = poke (poke (ds_buf d') (ds_len d') s) (ds_len d' + length s) [NUL]"
    if "ds_room mk d (ds_len d + length s) = (True, d')" for d'
    using room_True [OF that assms] by (intro poke_two) simp
  then show ?thesis
    unfolding dkim_dstring_cat_def dkim_dstring_catn_def Let_def ds_room_def
    by (auto split: prod.splits bool.splits)
qed

lemma cat1_eq_catn: "dkim_dstring_cat1 mk d c = dkim_dstring_catn mk d [c] 1"
  unfolding dkim_dstring_cat1_def dkim_dstring_catn_def Let_def
  by (auto split: prod.splits bool.splits)

lemma copy_True:
  assumes "dkim_dstring_copy mk d s = (True, e)" "ds_wf d"
  shows "ds_wf e \<and> ds_content e = s"
proof -
  obtain d' where r: "ds_room mk d (length s) = (True, d')"
    and mx: "\<not> (ds_max d > 0 \<and> length s \<ge> ds_max d)"
    and e: "e = d'\<lparr>ds_buf := poke (ds_buf d') 0 (s @ [NUL]), ds_len := length s\<rparr>"
    using assms(1) unfolding dkim_dstring_copy_def Let_def ds_room_def
    by (auto split: if_splits prod.splits bool.splits)
  have room: "length s < ds_alloc d'" "length (ds_buf d') = ds_alloc d'" "ds_max d' = ds_max d"
    using room_True [OF r assms(2)] by auto
  with mx append_at_end [OF room(2), of 0 s] show ?thesis
    unfolding e ds_wf_def ds_content_def by (auto simp: poke_two)
qed

lemma blank_wf: "ds_wf d \<Longrightarrow> ds_wf (dkim_dstring_blank d) \<and> ds_content (dkim_dstring_blank d) = []"
  by (auto simp: ds_wf_def ds_content_def dkim_dstring_blank_def poke_length poke_def)

lemma catn_succeeds:
  assumes "\<And>n. mk n" "ds_wf d" "ds_max d = 0 \<or> ds_len d + n < ds_max d" "ds_len d + n < 2 ^ 30"
  shows "fst (dkim_dstring_catn mk d s n)"
  using assms resize_succeeds [of mk "ds_len d + n + 1" d]
  by (auto simp: dkim_dstring_catn_def Let_def ds_wf_def split: prod.splits bool.splits)

subsection \<open>The append contract\<close>

fun append_all :: "('b \<Rightarrow> string \<Rightarrow> bool \<times> 'b) \<Rightarrow> 'b \<Rightarrow> string list \<Rightarrow> bool \<times> 'b" where
  "append_all app b [] = (True, b)"
| "append_all app b (s # ss) =
    (let (ok, b) = app b s; (oks, b) = append_all app b ss in (ok \<and> oks, b))"

locale byte_buffer =
  fixes wf :: "'b \<Rightarrow> bool" and content :: "'b \<Rightarrow> string" and app :: "'b \<Rightarrow> string \<Rightarrow> bool \<times> 'b"
  assumes app_True: "wf b \<Longrightarrow> app b s = (True, b') \<Longrightarrow> wf b' \<and> content b' = content b @ s"
    and app_False: "wf b \<Longrightarrow> app b s = (False, b') \<Longrightarrow> b' = b"
begin

lemma app_wf: "wf b \<Longrightarrow> wf (snd (app b s))"
  using app_True app_False by (cases "app b s"; cases "fst (app b s)") fastforce+

lemma app_content: "wf b \<Longrightarrow> content (snd (app b s)) = content b @ (if fst (app b s) then s else [])"
  using app_True app_False by (cases "app b s"; cases "fst (app b s)") fastforce+

lemma append_all_wf: "wf b \<Longrightarrow> wf (snd (append_all app b ss))"
  by (induction ss arbitrary: b) (auto simp: Let_def case_prod_beta app_wf)

lemma append_all_content:
  "wf b \<Longrightarrow> fst (append_all app b ss) \<Longrightarrow> content (snd (append_all app b ss)) = content b @ concat ss"
  by (induction ss arbitrary: b) (auto simp: Let_def case_prod_beta app_wf app_content)

text \<open>Calls whose result is ignored: what is lost is whole pieces.\<close>

lemma append_all_pieces:
  "wf b \<Longrightarrow> \<exists>bs. length bs = length ss \<and>
     content (snd (append_all app b ss)) = content b @ concat (map (\<lambda>p. if fst p then snd p else []) (zip bs ss))"
proof (induction ss arbitrary: b)
  case (Cons s ss)
  obtain bs where "length bs = length ss"
    "content (snd (append_all app (snd (app b s)) ss)) =
      content (snd (app b s)) @ concat (map (\<lambda>p. if fst p then snd p else []) (zip bs ss))"
    using Cons.IH [OF app_wf [OF Cons.prems]] by blast
  then show ?case
    by (intro exI [of _ "fst (app b s) # bs"])
      (auto simp: Let_def case_prod_beta app_content [OF Cons.prems])
qed simp

end

interpretation dcatn: byte_buffer ds_wf ds_content "\<lambda>d s. dkim_dstring_catn mk d s (length s)" for mk
  by unfold_locales (auto dest: catn_True catn_False)

interpretation dcat: byte_buffer ds_wf ds_content "dkim_dstring_cat mk" for mk
  by unfold_locales (auto simp: cat_eq_catn dest: catn_True catn_False)

subsection \<open>Properties\<close>


definition ds0 :: dstring where
  "ds0 = \<lparr>ds_alloc = 1024, ds_max = 0, ds_len = 0, ds_buf = replicate 1024 NUL\<rparr>"

lemma ds0_wf: "ds_wf ds0"
  by (simp add: ds0_def ds_wf_def)


text \<open>The operations as a transition system.\<close>

inductive ds_step :: "(nat \<Rightarrow> bool) \<Rightarrow> dstring \<Rightarrow> dstring \<Rightarrow> bool" for mk where
  copy: "dkim_dstring_copy mk d s = (r, d') \<Longrightarrow> ds_step mk d d'"
| cat: "dkim_dstring_cat mk d s = (r, d') \<Longrightarrow> ds_step mk d d'"
| cat1: "dkim_dstring_cat1 mk d c = (r, d') \<Longrightarrow> ds_step mk d d'"
| catn: "n \<le> length s \<Longrightarrow> dkim_dstring_catn mk d s n = (r, d') \<Longrightarrow> ds_step mk d d'"
| blank: "ds_step mk d (dkim_dstring_blank d)"

inductive_cases ds_stepE: "ds_step mk d d'"

lemma copy_False: "dkim_dstring_copy mk d s = (False, e) \<Longrightarrow> e = d"
  by (auto simp: dkim_dstring_copy_def Let_def dest: resize_False split: if_splits prod.splits bool.splits)

lemma ds_step_wf: "ds_step mk d d' \<Longrightarrow> ds_wf d \<Longrightarrow> ds_wf d'"
proof (erule ds_stepE)
  fix s r assume "ds_wf d" "dkim_dstring_copy mk d s = (r, d')"
  then show "ds_wf d'" by (cases r) (auto dest: copy_True copy_False)
next
  fix s r assume "ds_wf d" "dkim_dstring_cat mk d s = (r, d')"
  then show "ds_wf d'" using dcat.app_wf [of d mk s] by simp
next
  fix c r assume "ds_wf d" "dkim_dstring_cat1 mk d c = (r, d')"
  then show "ds_wf d'" using dcatn.app_wf [of d mk "[c]"] by (simp add: cat1_eq_catn)
next
  fix n r and s :: string assume "ds_wf d" "n \<le> length s" "dkim_dstring_catn mk d s n = (r, d')"
  then show "ds_wf d'" by (cases r) (auto dest: catn_True catn_False)
qed (auto dest: blank_wf)



text \<open>
  \<open>dkim_dstring_printf\<close> appends the formatted text while it fits behind the contents, but it
  tells \<open>vsnprintf\<close> the size of the whole buffer: as soon as a non-empty contents and the text do not
  fit together, the call stores past the end of the allocation.
\<close>
lemma dkim_dstring_printf_bounds:
  assumes "ds_wf d" "0 < ds_len d"
  shows "if ds_len d + length t < ds_alloc d
    then fst (dkim_dstring_printf mk d t) = Some (ds_len d + length t) \<and>
      ds_content (snd (dkim_dstring_printf mk d t)) = ds_content d @ t \<and>
      length (ds_buf (snd (dkim_dstring_printf mk d t))) = ds_alloc d
    else length (vsnprintf (ds_buf d) (ds_len d) (ds_alloc d) t) > ds_alloc d"
proof (cases "ds_len d + length t < ds_alloc d")
  case True
  then have t: "take (ds_alloc d - 1) t = t" by simp
  have len: "length (ds_buf d) = ds_alloc d" using assms(1) by (simp add: ds_wf_def)
  let ?b = "poke (ds_buf d) (ds_len d) (t @ [NUL])"
  have b: "length ?b = ds_alloc d" "take (ds_len d + length t) ?b = ds_content d @ t"
    using True len by (simp_all add: poke_def ds_content_def)
  have "take (ds_len d) ?b = take (ds_len d) (ds_buf d)" using True len by (simp add: poke_def)
  then have again: "poke ?b (ds_len d) (t @ [NUL]) = ?b"
    using True len by (simp add: poke_def)
  have "dkim_dstring_resize mk (d\<lparr>ds_buf := ?b\<rparr>) (length t + 1) = (True, d\<lparr>ds_buf := ?b\<rparr>)"
    using True by (simp add: dkim_dstring_resize_def)
  then show ?thesis
    using True t b again assms(1)
    by (auto simp: dkim_dstring_printf_def Let_def vsnprintf_def ds_content_def)
next
  case False
  then show ?thesis
    using assms by (auto simp: vsnprintf_def ds_wf_def poke_def)
qed

lemma dkim_dstring_printf_bounds_witness:
  "let d = ds0\<lparr>ds_len := 900, ds_buf := replicate 900 (CHR ''a'') @ replicate 124 NUL\<rparr> in
   ds_wf d \<and> length (vsnprintf (ds_buf d) (ds_len d) (ds_alloc d) (replicate 200 (CHR ''b''))) > ds_alloc d"
  using dkim_dstring_printf_bounds
    [of "ds0\<lparr>ds_len := 900, ds_buf := replicate 900 (CHR ''a'') @ replicate 124 NUL\<rparr>"
        "replicate 200 (CHR ''b'')" "\<lambda>_. True"]
  by (simp add: ds_wf_def ds0_def Let_def nth_append)

end
