(* ===== verification/Dkim_Util.thy ===== *)
theory Dkim_Util
  imports Dkim_Prelude
begin

text \<open>
  The string and number helpers of \<open>util.c\<close>: collapsing white space, the header list written for a
  regular expression, lowering a field name, the decimal parsers \<open>dkim_strtoul\<close> and
  \<open>dkim_strtoull\<close> on 64-bit words, the check of a DNS reply, and the two timing helpers.

  The functions that write into a buffer are modelled by the buffer's C string and its capacity.
  The resolver's \<open>dn_expand\<close> and \<open>dn_skipname\<close>, the clock and \<open>select\<close> are parameters.
\<close>

subsection \<open>White space\<close>

text \<open>\<open>dkim_collapse\<close> copies the kept byte to \<open>*r\<close>; the written prefix is the accumulator.\<close>

fun collapse_loop :: "string \<Rightarrow> string \<Rightarrow> string" where
  "collapse_loop r [] = r"
| "collapse_loop r (c # q) = (if \<not> isspace c then collapse_loop (r @ [c]) q else collapse_loop r q)"

definition dkim_collapse :: "string \<Rightarrow> string" where
  "dkim_collapse str = collapse_loop [] str"

lemma collapse_loop_filter: "collapse_loop r s = r @ filter (\<lambda>c. \<not> isspace c) s"
  by (induction s arbitrary: r) auto

lemma dkim_collapse_filter: "dkim_collapse s = filter (\<lambda>c. \<not> isspace c) s"
  by (simp add: dkim_collapse_def collapse_loop_filter)

lemma dkim_collapse_append [simp]: "dkim_collapse (s @ t) = dkim_collapse s @ dkim_collapse t"
  by (simp add: dkim_collapse_filter)

lemma dkim_collapse_id: "\<forall>c\<in>set s. \<not> isspace c \<Longrightarrow> dkim_collapse s = s"
  by (simp add: dkim_collapse_filter filter_id_conv)

lemma dkim_collapse_idem [simp]: "dkim_collapse (dkim_collapse s) = dkim_collapse s"
  by (simp add: dkim_collapse_filter)

lemma dkim_collapse_length: "length (dkim_collapse s) \<le> length s"
  by (simp add: dkim_collapse_filter)

lemma set_dkim_collapse: "set (dkim_collapse s) = {c \<in> set s. \<not> isspace c}"
  by (auto simp: dkim_collapse_filter)

subsection \<open>Header lists\<close>

text \<open>
  The inner loop of \<open>dkim_hdrlist\<close>: \<open>*\<close> becomes \<open>.*\<close> and \<open>.\<close> becomes a backslash and a dot; the
  write position is the end of the text already in \<open>buf\<close>, whose remaining bytes are zero.
\<close>

fun hdrlist_chars :: "nat \<Rightarrow> string \<Rightarrow> string \<Rightarrow> bool \<times> string" where
  "hdrlist_chars buflen buf [] = (True, buf)"
| "hdrlist_chars buflen buf (c # p) =
    (if length buf \<ge> buflen - 1 then (False, buf)
     else if c = CHR ''*'' then
       (if length buf + 1 \<ge> buflen - 1 then (False, buf @ ''.'')
        else hdrlist_chars buflen (buf @ ''.*'') p)
     else if c = CHR ''.'' then
       (if length buf + 1 \<ge> buflen - 1 then (False, buf @ [CHR 0x5C])
        else hdrlist_chars buflen (buf @ [CHR 0x5C, CHR ''.'']) p)
     else hdrlist_chars buflen (buf @ [c]) p)"

fun dkim_hdrlist :: "string \<Rightarrow> nat \<Rightarrow> string list \<Rightarrow> bool \<Rightarrow> bool \<times> string" where
  "dkim_hdrlist buf buflen [] fst_call = (True, buf)"
| "dkim_hdrlist buf buflen (h # hs) fst_call =
    (let buf1 = (if fst_call then buf else take (buflen - 1) (buf @ ''|'')) in
     if \<not> fst_call \<and> length buf + 1 \<ge> buflen then (False, buf1)
     else case hdrlist_chars buflen buf1 h of
            (False, buf2) \<Rightarrow> (False, buf2)
          | (True, buf2) \<Rightarrow> dkim_hdrlist buf2 buflen hs False)"

fun glob_regex :: "string \<Rightarrow> string" where
  "glob_regex [] = []"
| "glob_regex (c # p) =
    (if c = CHR ''*'' then ''.*'' else if c = CHR ''.'' then [CHR 0x5C, CHR ''.''] else [c]) @ glob_regex p"

fun hdrlist_ref :: "string list \<Rightarrow> bool \<Rightarrow> string" where
  "hdrlist_ref [] fst_call = []"
| "hdrlist_ref (h # hs) fst_call = (if fst_call then [] else ''|'') @ glob_regex h @ hdrlist_ref hs False"

lemma hdrlist_chars_spec:
  "length buf < buflen \<Longrightarrow>
   (if length (buf @ glob_regex p) < buflen then hdrlist_chars buflen buf p = (True, buf @ glob_regex p)
    else fst (hdrlist_chars buflen buf p) = False)"
proof (induction buflen buf p rule: hdrlist_chars.induct)
  case (2 buflen buf c p)
  show ?case using 2 by (auto split: if_splits)
qed auto

lemma all_parts:
  "buf @ hdrlist_ref (h # hs) b = ((if b then buf else buf @ ''|'') @ glob_regex h) @ hdrlist_ref hs False"
  by simp

text \<open>
  \<open>dkim_hdrlist\<close> answers TRUE exactly when the alternation of the translated names fits in the
  buffer with its terminator, and then the buffer holds exactly that alternation.
\<close>
theorem dkim_hdrlist_spec:
  assumes "length buf < buflen"
  shows "if length (buf @ hdrlist_ref hs b) < buflen
         then dkim_hdrlist buf buflen hs b = (True, buf @ hdrlist_ref hs b)
         else fst (dkim_hdrlist buf buflen hs b) = False"
  using assms
proof (induction hs arbitrary: buf b)
  case (Cons h hs)
  define buf1 where "buf1 = (if b then buf else buf @ ''|'')"
  show ?case
  proof (cases "length buf1 < buflen")
    case True
    then have step: "dkim_hdrlist buf buflen (h # hs) b =
      (case hdrlist_chars buflen buf1 h of (False, buf2) \<Rightarrow> (False, buf2)
        | (True, buf2) \<Rightarrow> dkim_hdrlist buf2 buflen hs False)"
      using Cons.prems by (auto simp: buf1_def Let_def)
    note all = all_parts [of buf h hs b, folded buf1_def]
    note chars = hdrlist_chars_spec [OF True, of h]
    show ?thesis
    proof (cases "length (buf1 @ glob_regex h) < buflen")
      case fits: True
      with chars step have "dkim_hdrlist buf buflen (h # hs) b = dkim_hdrlist (buf1 @ glob_regex h) buflen hs False"
        by simp
      then show ?thesis using Cons.IH [OF fits, of False] all by (metis)
    next
      case False
      then have "fst (dkim_hdrlist buf buflen (h # hs) b) = False"
        using chars step by (auto split: prod.splits bool.splits)
      moreover have "\<not> length (buf @ hdrlist_ref (h # hs) b) < buflen"
        unfolding all using False by simp
      ultimately show ?thesis by (simp del: dkim_hdrlist.simps)
    qed
  next
    case False
    then have "\<not> length (buf @ hdrlist_ref (h # hs) b) < buflen"
      unfolding all_parts [of buf h hs b] by (simp add: buf1_def)
    moreover have "fst (dkim_hdrlist buf buflen (h # hs) b) = False"
      using False Cons.prems by (auto simp: buf1_def Let_def split: if_splits)
    ultimately show ?thesis by (simp del: dkim_hdrlist.simps)
  qed
qed simp

lemma dkim_hdrlist_spec_witness:
  "dkim_hdrlist [] 16 [''From'', ''x-*''] True = (True, ''From|x-.*'') \<and>
   fst (dkim_hdrlist [] 8 [''From'', ''x-*''] True) = False"
  using dkim_hdrlist_spec [of "[]" 16 "[''From'', ''x-*'']" True]
    dkim_hdrlist_spec [of "[]" 8 "[''From'', ''x-*'']" True] by simp

subsection \<open>Lowering a field name\<close>

fun dkim_lowerhdr :: "string \<Rightarrow> string" where
  "dkim_lowerhdr [] = []"
| "dkim_lowerhdr (c # p) =
    (if c = CHR '':'' then c # p
     else (if isascii c \<and> isupper c then tolower c else c) # dkim_lowerhdr p)"

lemma isupper_ascii: "isupper c \<Longrightarrow> isascii c"
  by (simp add: cctype)

lemma tolower_not_upper: "\<not> isupper c \<Longrightarrow> tolower c = c"
  by (simp add: tolower_def)

lemma tolower_not_ascii: "\<not> isascii c \<Longrightarrow> tolower c = c"
  by (auto simp: tolower_def dest: isupper_ascii)

lemma dkim_lowerhdr_before:
  "dkim_lowerhdr s = map tolower (before s CHR '':'') @ drop (length (before s CHR '':'')) s"
  by (induction s) (auto simp: before_def tolower_not_ascii tolower_not_upper)

lemma dkim_lowerhdr_length [simp]: "length (dkim_lowerhdr s) = length s"
  by (induction s) auto

subsection \<open>Decimal numbers\<close>

datatype errno = EINVAL | ERANGE

text \<open>
  The digit loop that \<open>dkim_strtoul\<close> and \<open>dkim_strtoull\<close> share: the value, whether it overflowed,
  and the pointer \<open>cur\<close> where the digits end. After an overflow the digits are only skipped.
\<close>

fun strto_digits :: "64 word \<Rightarrow> 64 word \<Rightarrow> string \<Rightarrow> 64 word \<Rightarrow> bool \<Rightarrow> 64 word \<times> bool \<times> string" where
  "strto_digits cutoff cutlim [] value erange = (value, erange, [])"
| "strto_digits cutoff cutlim (ch # cur) value erange =
    (if \<not> (ord (CHR ''0'') \<le> ord ch \<and> ord ch \<le> ord (CHR ''9'')) then (value, erange, ch # cur)
     else if erange then strto_digits cutoff cutlim cur value erange
     else let c = word_of_nat (ord ch - 48) in
       if value > cutoff \<or> (value = cutoff \<and> c > cutlim)
       then strto_digits cutoff cutlim cur value True
       else strto_digits cutoff cutlim cur (value * 10 + c) erange)"

text \<open>
  The result is the value, \<open>*endptr\<close> and the value stored in \<open>errno\<close>, if any. Only base 10 is
  modelled: every call passes it, and the other bases go to the C library.
\<close>

definition dkim_strtoul :: "string \<Rightarrow> 64 word \<times> string \<times> errno option" where
  "dkim_strtoul str =
    (let cutlim = (- 1) mod 10; cutoff = (- 1) div 10;
         subj = dropWhile isspace str;
         (start, subj) = (case subj of
             c # r \<Rightarrow> if c = CHR ''-'' \<or> c = CHR ''+'' then (c, r) else (CHR ''+'', subj)
           | [] \<Rightarrow> (CHR ''+'', subj));
         (value, erange, cur) = strto_digits cutoff cutlim subj 0 False in
     if cur = subj then (0, str, Some EINVAL)
     else if erange then (- 1, cur, Some ERANGE)
     else if start = CHR ''-'' then (- value, cur, None)
     else (value, cur, None))"

definition dkim_strtoull :: "string \<Rightarrow> 64 word \<times> string \<times> errno option" where
  "dkim_strtoull str =
    (let cutlim = (- 1) mod 10; cutoff = (- 1) div 10;
         subj = dropWhile isspace str;
         (start, subj) = (case subj of
             c # r \<Rightarrow> if c = CHR ''-'' \<or> c = CHR ''+'' then (c, r) else (CHR ''+'', subj)
           | [] \<Rightarrow> (CHR ''+'', subj));
         (value, erange, cur) = strto_digits cutoff cutlim subj 0 False in
     if cur = subj then (0, str, Some EINVAL)
     else if erange then (- 1, cur, Some ERANGE)
     else if start = CHR ''-'' then (- value, cur, None)
     else (value, cur, None))"

lemma dkim_strtoull_eq: "dkim_strtoull = dkim_strtoul"
  by (simp add: fun_eq_iff dkim_strtoull_def dkim_strtoul_def)

fun dec_val :: "string \<Rightarrow> nat \<Rightarrow> nat" where
  "dec_val [] v = v"
| "dec_val (c # s) v = dec_val s (v * 10 + (ord c - 48))"

lemma dec_val_mono: "v \<le> dec_val s v"
  by (induction s v rule: dec_val.induct) auto

lemma strto_digits_erange:
  "\<forall>c\<in>set ds. isdigit c \<Longrightarrow> rest = [] \<or> \<not> isdigit (hd rest) \<Longrightarrow>
   strto_digits a b (ds @ rest) v True = (v, True, rest)"
proof (induction ds)
  case Nil
  then show ?case by (cases rest) (auto simp: isdigit_def)
qed (auto simp: isdigit_def)

abbreviation (input) max64 :: nat where "max64 \<equiv> 18446744073709551615"

lemma max64_word: "(- 1 :: 64 word) = word_of_nat max64"
  by simp

lemma cutoff64: "(- 1 :: 64 word) div 10 = word_of_nat (max64 div 10)"
  by (simp add: word_eq_iff_unsigned unat_div)

lemma cutlim64: "(- 1 :: 64 word) mod 10 = word_of_nat 5"
  by (simp add: word_eq_iff_unsigned unat_mod)

lemma cutoff_iff:
  assumes "v \<le> max64" "d < 10"
  shows "(word_of_nat v :: 64 word) > word_of_nat (max64 div 10) \<or>
     ((word_of_nat v :: 64 word) = word_of_nat (max64 div 10) \<and> (word_of_nat d :: 64 word) > word_of_nat 5)
     \<longleftrightarrow> v * 10 + d > max64"
proof -
  have "unat (word_of_nat v :: 64 word) = v" "unat (word_of_nat d :: 64 word) = d"
    using assms by (simp_all add: unat_of_nat)
  then have "((word_of_nat v :: 64 word) > word_of_nat (max64 div 10)) = (v > max64 div 10)"
    "((word_of_nat v :: 64 word) = word_of_nat (max64 div 10)) = (v = max64 div 10)"
    "((word_of_nat d :: 64 word) > word_of_nat 5) = (d > 5)"
    by (simp_all add: word_less_nat_alt word_unat_eq_iff)
  then show ?thesis using assms by auto
qed

lemma strto_digits_spec:
  assumes "\<forall>c\<in>set ds. isdigit c" "rest = [] \<or> \<not> isdigit (hd rest)" "v \<le> max64"
  shows "\<exists>w. strto_digits ((- 1) div 10) ((- 1) mod 10) (ds @ rest) (word_of_nat v) False
      = (w, dec_val ds v > max64, rest) \<and> (dec_val ds v \<le> max64 \<longrightarrow> w = word_of_nat (dec_val ds v))"
  using assms
proof (induction ds arbitrary: v)
  case Nil
  then show ?case by (cases rest) (auto simp: isdigit_def)
next
  case (Cons c ds)
  define d where "d = ord c - 48"
  have c: "48 \<le> ord c" "ord c \<le> 57" using Cons.prems(1) by (auto simp: isdigit_def)
  then have d: "d < 10" by (simp add: d_def)
  note iff = cutoff_iff [OF Cons.prems(3) d]
  show ?case
  proof (cases "v * 10 + d > max64")
    case True
    then have "dec_val (c # ds) v > max64"
      using dec_val_mono [of "v * 10 + d" ds] by (simp add: d_def)
    moreover have "strto_digits ((- 1) div 10) ((- 1) mod 10) ((c # ds) @ rest) (word_of_nat v) False
        = strto_digits ((- 1) div 10) ((- 1) mod 10) (ds @ rest) (word_of_nat v) True"
      using True iff c unfolding cutoff64 cutlim64 by (simp add: d_def)
    ultimately show ?thesis
      using strto_digits_erange [of ds rest] Cons.prems by simp
  next
    case False
    then have "strto_digits ((- 1) div 10) ((- 1) mod 10) ((c # ds) @ rest) (word_of_nat v) False
        = strto_digits ((- 1) div 10) ((- 1) mod 10) (ds @ rest) (word_of_nat (v * 10 + d)) False"
      using iff c unfolding cutoff64 cutlim64 by (auto simp: d_def Let_def add_diff_eq)
    then show ?thesis
      using Cons.IH [of "v * 10 + d"] Cons.prems False by (simp add: d_def)
  qed
qed

text \<open>
  C21: on optional white space, decimal digits and a rest that does not start with a digit,
  \<open>dkim_strtoul\<close> returns the number and the pointer to the rest; a number above \<open>2^64 - 1\<close> gives
  \<open>ULONG_MAX\<close> with ERANGE. (\<open>dkim_strtoull\<close> is the same function at the same width.)
\<close>
theorem dkim_strtoul_spec:
  assumes "\<forall>c\<in>set ws. isspace c" "\<forall>c\<in>set ds. isdigit c" "ds \<noteq> []"
    "rest = [] \<or> \<not> isdigit (hd rest)"
  shows "dkim_strtoul (ws @ ds @ rest) =
    (if dec_val ds 0 < 2 ^ 64 then (word_of_nat (dec_val ds 0), rest, None) else (- 1, rest, Some ERANGE))"
proof -
  obtain c ds' where ds: "ds = c # ds'" using assms(3) by (cases ds) auto
  then have c: "isdigit c" using assms(2) by simp
  then have "\<not> isspace c" "c \<noteq> CHR ''-''" "c \<noteq> CHR ''+''" by (auto simp: cctype)
  then have skip: "dropWhile isspace (ws @ ds @ rest) = ds @ rest"
    using assms(1) ds by (simp add: dropWhile_append2)
  obtain w where w: "strto_digits ((- 1) div 10) ((- 1) mod 10) (ds @ rest) 0 False = (w, dec_val ds 0 > max64, rest)"
      "dec_val ds 0 \<le> max64 \<Longrightarrow> w = word_of_nat (dec_val ds 0)"
    using strto_digits_spec [OF assms(2,4), of 0] by auto
  have "rest \<noteq> ds @ rest" using assms(3) by simp
  moreover have "dec_val ds 0 < 2 ^ 64 \<longleftrightarrow> dec_val ds 0 \<le> max64" by auto
  ultimately show ?thesis
    using w \<open>c \<noteq> CHR ''-''\<close> \<open>c \<noteq> CHR ''+''\<close>
    unfolding dkim_strtoul_def skip by (simp add: ds Let_def)
qed

lemma dkim_strtoul_spec_witness:
  "dkim_strtoul '' 4096;'' = (4096, '';'', None) \<and>
   dkim_strtoul ''18446744073709551616'' = (- 1, [], Some ERANGE)"
  using dkim_strtoul_spec [of "'' ''" "''4096''" "'';''"]
    dkim_strtoul_spec [of "[]" "''18446744073709551616''" "[]"]
  by (simp add: cctype)

subsection \<open>DNS replies\<close>

text \<open>
  A reply is the array \<open>ansbuf\<close> and the count \<open>anslen\<close>; a pointer into it is an index. Bytes 2 and 3
  of the header hold the TC bit and the response code, 4 to 7 the two counts. A byte beyond the
  array reads as 0 here; the resolver functions are parameters that give the bytes consumed.
\<close>

definition rd8 :: "string \<Rightarrow> nat \<Rightarrow> nat" where
  "rd8 buf i = (if i < length buf then ord (buf ! i) else 0)"

definition rd16 :: "string \<Rightarrow> nat \<Rightarrow> nat" where
  "rd16 buf i = rd8 buf i * 256 + rd8 buf (i + 1)"

abbreviation (input) NXDOMAIN :: nat where "NXDOMAIN \<equiv> 3"
abbreviation (input) T_CNAME :: nat where "T_CNAME \<equiv> 5"
abbreviation (input) T_TXT :: nat where "T_TXT \<equiv> 16"
abbreviation (input) C_IN :: nat where "C_IN \<equiv> 1"
abbreviation (input) HFIXEDSZ :: nat where "HFIXEDSZ \<equiv> 12"

type_synonym dn_scan = "string \<Rightarrow> nat \<Rightarrow> nat \<Rightarrow> nat option"

text \<open>The question loop: the early return 2, or \<open>cp\<close> with the last type and class read.\<close>

fun dns_questions :: "dn_scan \<Rightarrow> string \<Rightarrow> nat \<Rightarrow> nat \<Rightarrow> nat \<Rightarrow> nat \<Rightarrow> nat \<Rightarrow> int + nat \<times> nat \<times> nat" where
  "dns_questions dn_skipname buf eom 0 cp typ cls = Inr (cp, typ, cls)"
| "dns_questions dn_skipname buf eom (Suc qdcount) cp typ cls =
    (case dn_skipname buf eom cp of
       None \<Rightarrow> Inl 2
     | Some n \<Rightarrow>
         let cp = cp + n in
         if cp + 2 + 2 > eom then Inl 2
         else dns_questions dn_skipname buf eom qdcount (cp + 4) (rd16 buf cp) (rd16 buf (cp + 2)))"

text \<open>
  The answer loop: an early return, or where it stopped, with whether \<open>ancount\<close> went below 0. A
  CNAME answer is skipped by expanding the name at the pointer after its TTL.
\<close>

fun dns_answers :: "dn_scan \<Rightarrow> string \<Rightarrow> nat \<Rightarrow> nat \<Rightarrow> nat \<Rightarrow> bool \<Rightarrow> nat \<Rightarrow> int + nat \<times> bool" where
  "dns_answers dn_expand buf eom xtype 0 trunc cp = Inr (cp, True)"
| "dns_answers dn_expand buf eom xtype (Suc ancount) trunc cp =
    (if \<not> cp < eom then Inr (cp, False)
     else case dn_expand buf eom cp of
       None \<Rightarrow> Inl 2
     | Some n \<Rightarrow>
         let cp = cp + n in
         if cp + 2 + 2 + 4 > eom then Inl 2
         else let typ = rd16 buf cp; cp = cp + 8 in
           if typ = T_CNAME then
             (case dn_expand buf eom cp of
                None \<Rightarrow> Inl 2
              | Some n \<Rightarrow> dns_answers dn_expand buf eom xtype ancount trunc (cp + n))
           else if typ \<noteq> xtype then Inl (if trunc then 1 else 0)
           else Inr (cp, False))"

definition dkim_check_dns_reply ::
    "dn_scan \<Rightarrow> dn_scan \<Rightarrow> string \<Rightarrow> nat \<Rightarrow> nat \<Rightarrow> nat \<Rightarrow> int" where
  "dkim_check_dns_reply dn_skipname dn_expand ansbuf anslen xclass xtype =
    (let eom = anslen in
     case dns_questions dn_skipname ansbuf eom (rd16 ansbuf 4) HFIXEDSZ 65535 65535 of
       Inl r \<Rightarrow> r
     | Inr (cp, typ, cls) \<Rightarrow>
         if typ \<noteq> xtype \<or> cls \<noteq> xclass then 0
         else if rd8 ansbuf 3 mod 16 = NXDOMAIN then 0
         else let trunc = (rd8 ansbuf 2 div 2 mod 2 = 1); ancount = rd16 ansbuf 6 in
           if ancount = 0 then (if trunc then 2 else 0)
           else case dns_answers dn_expand ansbuf eom xtype ancount trunc cp of
             Inl r \<Rightarrow> r
           | Inr (cp, below) \<Rightarrow>
               if below then (if trunc then 1 else 0)
               else if cp + 2 > eom then 2
               else if cp + 2 + rd16 ansbuf cp > eom then 2
               else if trunc then 1 else 0)"

lemma dns_questions_result: "dns_questions sk buf eom qd cp t c = Inl r \<Longrightarrow> r = 2"
  by (induction qd arbitrary: cp t c) (auto simp: Let_def split: option.splits if_splits)

lemma dns_answers_result:
  "dns_answers ex buf eom xt n trunc cp = Inl r \<Longrightarrow> r = 2 \<or> r = (if trunc then 1 else 0)"
  by (induction n arbitrary: cp) (auto simp: Let_def split: option.splits if_splits)

text \<open>
  \<open>dkim_check_dns_reply\<close> answers 0, 1 or 2 for every reply and resolver (never the documented
  -1), and 1, truncated but usable, only for a reply with the TC bit set.
\<close>
theorem dkim_check_dns_reply_range:
  "dkim_check_dns_reply sk ex buf n xc xt \<in> {0, 2} \<union> (if rd8 buf 2 div 2 mod 2 = 1 then {1} else {})"
  unfolding dkim_check_dns_reply_def Let_def
  by (auto split: sum.splits prod.splits if_splits dest: dns_questions_result dns_answers_result)

subsection \<open>Timing\<close>

record timespec =
  tv_sec :: int
  tv_nsec :: int

record timeval =
  now_sec :: int
  now_usec :: int

definition dkim_timespec_past :: "timeval \<Rightarrow> timespec \<Rightarrow> bool" where
  "dkim_timespec_past now ts \<longleftrightarrow>
    now_sec now > tv_sec ts \<or> (now_sec now = tv_sec ts \<and> now_usec now * 1000 > tv_nsec ts)"

text \<open>The time \<open>dkim_wait_fd\<close> passes to \<open>select\<close>, whose answer is the function's.\<close>

definition wait_left :: "timeval \<Rightarrow> timespec \<Rightarrow> timeval" where
  "wait_left now until =
    (if tv_sec until < now_sec now \<or>
        (tv_sec until = now_sec now \<and> tv_nsec until < now_usec now * 1000)
     then \<lparr>now_sec = 0, now_usec = 0\<rparr>
     else let left = \<lparr>now_sec = tv_sec until - now_sec now,
                      now_usec = tv_nsec until div 1000 - now_usec now\<rparr> in
       if tv_nsec until div 1000 < now_usec now
       then left\<lparr>now_usec := now_usec left + 1000000, now_sec := now_sec left - 1\<rparr>
       else left)"

definition dkim_wait_fd :: "(timeval \<Rightarrow> int) \<Rightarrow> timeval \<Rightarrow> timespec \<Rightarrow> int" where
  "dkim_wait_fd select now until = select (wait_left now until)"

text \<open>
  The wait is never negative and normalised, and it is exactly the microseconds left until the
  deadline, or 0 once \<open>dkim_timespec_past\<close> says that the deadline has passed.
\<close>
theorem wait_left_spec:
  assumes "0 \<le> now_usec now" "now_usec now < 1000000" "0 \<le> tv_nsec ts" "tv_nsec ts < 1000000000"
  shows "0 \<le> now_sec (wait_left now ts) \<and> 0 \<le> now_usec (wait_left now ts) \<and>
    now_usec (wait_left now ts) < 1000000 \<and>
    now_sec (wait_left now ts) * 1000000 + now_usec (wait_left now ts) =
      (if dkim_timespec_past now ts then 0
       else (tv_sec ts - now_sec now) * 1000000 + (tv_nsec ts div 1000 - now_usec now))"
proof -
  have "0 \<le> tv_nsec ts div 1000" "tv_nsec ts div 1000 < 1000000" using assms by auto
  moreover have "tv_nsec ts < now_usec now * 1000 \<longleftrightarrow> tv_nsec ts div 1000 < now_usec now" by linarith
  ultimately show ?thesis
    using assms by (auto simp: wait_left_def dkim_timespec_past_def Let_def)
qed

lemma wait_left_spec_witness:
  "wait_left \<lparr>now_sec = 10, now_usec = 900000\<rparr> \<lparr>tv_sec = 12, tv_nsec = 100000000\<rparr> =
     \<lparr>now_sec = 1, now_usec = 200000\<rparr> \<and>
   now_sec (wait_left \<lparr>now_sec = 10, now_usec = 900000\<rparr> \<lparr>tv_sec = 12, tv_nsec = 100000000\<rparr>) \<ge> 0"
  using wait_left_spec [of "\<lparr>now_sec = 10, now_usec = 900000\<rparr>" "\<lparr>tv_sec = 12, tv_nsec = 100000000\<rparr>"]
  by (simp add: wait_left_def Let_def)

end
