(* ===== verification/Dkim_Types.thy ===== *)
theory Dkim_Types
  imports Dkim_Dstring Dkim_Util
begin

text \<open>
  The records of \<open>dkim-types.h\<close>. A linked list of the code is a list here, and a pointer to an
  element of it is the element's index: the headers \<open>dkim_hhead\<close>, the tag sets \<open>dkim_sethead\<close>, the
  signatures \<open>dkim_siglist\<close> and the canonicalizations \<open>dkim_canonhead\<close> only grow at their ends, so
  an index keeps its meaning. A NULL pointer is \<open>None\<close>.

  A hash context (\<open>SHA_CTX\<close>) is the list of the bytes fed to it, the digest a parameter. Fields that
  the modelled code never reads (descriptors, temporary files, error text) have no counterpart.
\<close>

text \<open>\<open>struct dkim_header\<close>; \<open>hdr_signed\<close> is the one bit of \<open>hdr_flags\<close>, the colon an offset.\<close>

record header =
  hdr_signed :: bool
  hdr_textlen :: nat
  hdr_namelen :: nat
  hdr_text :: string
  hdr_colon :: "nat option"

text \<open>\<open>struct dkim_set\<close> with its list of \<open>struct dkim_plist\<close>; \<open>set_udata\<close> is the header it came from.\<close>

record dkim_set =
  set_bad :: bool
  set_type :: int
  set_udata :: "nat option"
  set_plist :: "(string \<times> string) list"

text \<open>
  \<open>struct dkim_canon\<close>; \<open>canon_hashbuf\<close> is the first \<open>canon_hashbuflen\<close> bytes of the buffer and
  \<open>canon_hash\<close> the bytes fed to the hash.
\<close>

record canon =
  canon_done :: bool
  canon_hdr :: bool
  canon_blankline :: bool
  canon_lastchar :: byte
  canon_hashtype :: int
  canon_blanks :: nat
  canon_hashbuf :: string
  canon_hashbufsize :: nat
  canon_remain :: int
  canon_wrote :: nat
  canon_length :: int
  canon_canon :: int
  canon_hdrlist :: "string option"
  canon_hash :: string
  canon_sigheader :: "nat option"

text \<open>\<open>struct dkim_siginfo\<close>; the canonicalizations and tag sets are indices.\<close>

record siginfo =
  sig_flags :: "32 word"
  sig_error :: int
  sig_bh :: int
  sig_version :: "32 word"
  sig_hashtype :: int
  sig_keytype :: int
  sig_keybits :: nat
  sig_siglen :: nat
  sig_keylen :: nat
  sig_b64keylen :: nat
  sig_query :: int
  sig_signalg :: int
  sig_hdrcanonalg :: int
  sig_bodycanonalg :: int
  sig_timestamp :: "64 word"
  sig_domain :: "string option"
  sig_selector :: "string option"
  sig_sig :: "string option"
  sig_key :: "string option"
  sig_b64key :: "string option"
  sig_hdrcanon :: "nat option"
  sig_bodycanon :: "nat option"
  sig_taglist :: "nat option"
  sig_keytaglist :: "nat option"

text \<open>The element as \<open>memset\<close> leaves it.\<close>

definition siginfo0 :: siginfo where
  "siginfo0 = \<lparr>sig_flags = 0, sig_error = 0, sig_bh = 0, sig_version = 0, sig_hashtype = 0,
    sig_keytype = 0, sig_keybits = 0, sig_siglen = 0, sig_keylen = 0, sig_b64keylen = 0, sig_query = 0,
    sig_signalg = 0, sig_hdrcanonalg = 0, sig_bodycanonalg = 0, sig_timestamp = 0, sig_domain = None,
    sig_selector = None, sig_sig = None, sig_key = None, sig_b64key = None, sig_hdrcanon = None,
    sig_bodycanon = None, sig_taglist = None, sig_keytaglist = None\<rparr>"

text \<open>\<open>struct dkim_lib\<close>: the settings the verification and signing code reads.\<close>

record dkim_lib =
  dkiml_signre :: bool
  dkiml_skipre :: bool
  dkiml_flags :: "32 word"
  dkiml_fixedtime :: int
  dkiml_sigttl :: "64 word"
  dkiml_clockdrift :: "64 word"
  dkiml_querymethod :: int
  dkiml_senderhdrs :: "string list"
  dkiml_alwayshdrs :: "string list option"
  dkiml_mbs :: "string list option"

text \<open>\<open>struct dkim\<close>; \<open>dkim_hdrlist_buf\<close> is its field \<open>dkim_hdrlist\<close>.\<close>

record dkim =
  dkim_partial :: bool
  dkim_bodydone :: bool
  dkim_subdomain :: bool
  dkim_skipbody :: bool
  dkim_mode :: int
  dkim_state :: int
  dkim_chunkstate :: int
  dkim_chunksm :: int
  dkim_presult :: int
  dkim_sigcount :: nat
  dkim_margin :: nat
  dkim_timestamp :: int
  dkim_querymethod :: int
  dkim_hdrcanonalg :: int
  dkim_bodycanonalg :: int
  dkim_signalg :: int
  dkim_bodylen :: nat
  dkim_signlen :: int
  dkim_domain :: "string option"
  dkim_user :: "string option"
  dkim_selector :: "string option"
  dkim_key :: "string option"
  dkim_b64sig :: "string option"
  dkim_sender :: "string option"
  dkim_signer :: "string option"
  dkim_hdrlist_buf :: "string option"
  dkim_zdecode :: "string option"
  dkim_signature :: "nat option"
  dkim_siglist :: "siginfo list"
  dkim_sets :: "dkim_set list"
  dkim_hdrs :: "header list"
  dkim_senderhdr :: "nat option"
  dkim_canons :: "canon list"
  dkim_hdrbuf :: "dstring option"
  dkim_canonbuf :: "dstring option"
  dkim_libhandle :: dkim_lib

text \<open>A handle with every field zero, as \<open>memset\<close> leaves it in \<open>dkim_new\<close>.\<close>

definition dkim_zero :: "dkim_lib \<Rightarrow> dkim" where
  "dkim_zero lib = \<lparr>dkim_partial = False, dkim_bodydone = False, dkim_subdomain = False,
    dkim_skipbody = False, dkim_mode = 0, dkim_state = 0, dkim_chunkstate = 0, dkim_chunksm = 0,
    dkim_presult = 0, dkim_sigcount = 0, dkim_margin = 0, dkim_timestamp = 0, dkim_querymethod = 0,
    dkim_hdrcanonalg = 0, dkim_bodycanonalg = 0, dkim_signalg = 0, dkim_bodylen = 0,
    dkim_signlen = 0, dkim_domain = None, dkim_user = None, dkim_selector = None, dkim_key = None,
    dkim_b64sig = None, dkim_sender = None, dkim_signer = None, dkim_hdrlist_buf = None, dkim_zdecode = None,
    dkim_signature = None, dkim_siglist = [], dkim_sets = [], dkim_hdrs = [], dkim_senderhdr = None,
    dkim_canons = [], dkim_hdrbuf = None, dkim_canonbuf = None, dkim_libhandle = lib\<rparr>"

text \<open>
  What the code takes from outside: whether an allocation of a given size succeeds, the two regular
  expressions of the library handle on a field name, the clock, the two digests, and the RSA
  operations of OpenSSL (key decoding, signature check, signing) on opaque byte strings.
\<close>

record env =
  env_malloc :: "nat \<Rightarrow> bool"
  env_hdrre :: "string \<Rightarrow> bool"
  env_skiphdrre :: "string \<Rightarrow> bool"
  env_time :: int
  env_sha1 :: "string \<Rightarrow> string"
  env_sha256 :: "string \<Rightarrow> string"

text \<open>The request size of one C struct; only whether it succeeds matters.\<close>

abbreviation (input) sizeof_struct :: nat where "sizeof_struct \<equiv> 1"

text \<open>A library handle and an environment for concrete runs.\<close>

definition lib0 :: dkim_lib where
  "lib0 = \<lparr>dkiml_signre = False, dkiml_skipre = False, dkiml_flags = 0, dkiml_fixedtime = 0,
    dkiml_sigttl = 0, dkiml_clockdrift = 300, dkiml_querymethod = 0, dkiml_senderhdrs = [''from''],
    dkiml_alwayshdrs = None, dkiml_mbs = None\<rparr>"

definition env0 :: env where
  "env0 = \<lparr>env_malloc = (\<lambda>n. True), env_hdrre = (\<lambda>s. True), env_skiphdrre = (\<lambda>s. False),
    env_time = 1000000, env_sha1 = (\<lambda>s. s), env_sha256 = (\<lambda>s. s)\<rparr>"

abbreviation lib_flag :: "dkim \<Rightarrow> 32 word \<Rightarrow> bool" where
  "lib_flag d f \<equiv> and (dkiml_flags (dkim_libhandle d)) f \<noteq> 0"

end
