(* ===== verification/Dkim_Tagset.thy ===== *)
theory Dkim_Tagset
  imports Dkim_Types Dkim_Tables
begin

text \<open>
  Tag sets of \<open>dkim.c\<close>: the parser \<open>dkim_process_set\<close> of "tag=value; tag=value" strings, the list
  it fills (\<open>dkim_add_plist\<close>), the lookup \<open>dkim_param_get\<close> and the two iterators over the sets of a
  handle.

  The parser's pointers \<open>param\<close> and \<open>value\<close> into its copy of the string are the bytes from where they
  point up to the scan position, where the code later stores a NUL. The decimal conversion is the
  library's own \<open>dkim_strtoull\<close>, which the build may replace by the C library's. The data shows that a
  list parses back to its tags, what a set that was accepted contains, and that the syntax check
  agrees with the parse.
\<close>

subsection \<open>Sets and parameters\<close>

fun set_search :: "nat \<Rightarrow> dkim_set list \<Rightarrow> int \<Rightarrow> nat option" where
  "set_search i [] type = None"
| "set_search i (st # sts) type =
    (if type = DKIM_SETTYPE_ANY \<or> set_type st = type then Some i else set_search (Suc i) sts type)"

definition dkim_set_first :: "dkim \<Rightarrow> int \<Rightarrow> nat option" where
  "dkim_set_first d type = set_search 0 (dkim_sets d) type"

definition dkim_set_next :: "dkim \<Rightarrow> nat \<Rightarrow> int \<Rightarrow> nat option" where
  "dkim_set_next d cur type = set_search (Suc cur) (drop (Suc cur) (dkim_sets d)) type"

definition dkim_param_get :: "dkim_set \<Rightarrow> string \<Rightarrow> string option" where
  "dkim_param_get st param = map_of (set_plist st) param"

text \<open>The entry that \<open>dkim_add_plist\<close> finds keeps its own spelling of the name.\<close>

fun plist_assign :: "string \<Rightarrow> string \<Rightarrow> (string \<times> string) list \<Rightarrow> (string \<times> string) list" where
  "plist_assign param value [] = []"
| "plist_assign param value ((p, v) # pl) =
    (if strcaseeq p param then (p, value) # pl else (p, v) # plist_assign param value pl)"

definition dkim_add_plist :: "env \<Rightarrow> dkim_set \<Rightarrow> string \<Rightarrow> string \<Rightarrow> bool \<Rightarrow> int \<times> dkim_set" where
  "dkim_add_plist e st param value force =
    (if list_ex (\<lambda>pv. strcaseeq (fst pv) param) (set_plist st)
     then (0, if force then st\<lparr>set_plist := plist_assign param value (set_plist st)\<rparr> else st)
     else if \<not> env_malloc e sizeof_struct then (- 1, st)
     else (0, st\<lparr>set_plist := (param, value) # set_plist st\<rparr>))"

subsection \<open>The parser\<close>

text \<open>\<open>ts_state\<close>: 0 before a parameter, 1 in it, 2 before a value, 3 in it.\<close>

record tag_scan =
  ts_state :: nat
  ts_spaced :: bool
  ts_param :: string
  ts_value :: "string option"
  ts_set :: dkim_set

type_synonym scan_result = "int \<times> dkim_set + tag_scan"

definition scan_store :: "env \<Rightarrow> tag_scan \<Rightarrow> string \<Rightarrow> scan_result" where
  "scan_store e ts value =
    (case dkim_add_plist e (ts_set ts) (dkim_collapse (ts_param ts)) value True of (status, st) \<Rightarrow>
       if status = - 1 then Inl (DKIM_STAT_INTERNAL, st)
       else Inr (ts\<lparr>ts_set := st, ts_param := [], ts_value := None, ts_state := 0\<rparr>))"

definition scan_byte :: "env \<Rightarrow> tag_scan \<Rightarrow> byte \<Rightarrow> scan_result" where
  "scan_byte e ts p =
    (if \<not> isascii p \<or> (\<not> isprint p \<and> \<not> isspace p) then Inl (DKIM_STAT_SYNTAX, ts_set ts)
     else if ts_state ts = 0 then
       (if isspace p then Inr ts
        else if isalnum p then Inr (ts\<lparr>ts_param := [p], ts_state := 1\<rparr>)
        else Inl (DKIM_STAT_SYNTAX, ts_set ts))
     else if ts_state ts = 1 then
       (if isspace p then Inr (ts\<lparr>ts_spaced := True, ts_param := ts_param ts @ [p]\<rparr>)
        else if p = CHR ''='' then Inr (ts\<lparr>ts_state := 2, ts_spaced := False\<rparr>)
        else if p = CHR '';'' \<or> ts_spaced ts then Inl (DKIM_STAT_SYNTAX, ts_set ts)
        else Inr (ts\<lparr>ts_param := ts_param ts @ [p]\<rparr>))
     else if ts_state ts = 2 then
       (if isspace p then Inr ts
        else if p = CHR '';'' then scan_store e ts []
        else Inr (ts\<lparr>ts_value := Some [p], ts_state := 3\<rparr>))
     else
       (if p = CHR '';'' then scan_store e ts (dkim_collapse (the (ts_value ts)))
        else Inr (ts\<lparr>ts_value := Some (the (ts_value ts) @ [p])\<rparr>)))"

fun scan_set :: "env \<Rightarrow> tag_scan \<Rightarrow> string \<Rightarrow> scan_result" where
  "scan_set e ts [] = Inr ts"
| "scan_set e ts (p # s) =
    (case scan_byte e ts p of Inl r \<Rightarrow> Inl r | Inr ts' \<Rightarrow> scan_set e ts' s)"

text \<open>The switch after the loop; in state 2 the name is stored as it is, not collapsed.\<close>

definition scan_end :: "env \<Rightarrow> tag_scan \<Rightarrow> int \<times> dkim_set" where
  "scan_end e ts =
    (let stored = (\<lambda>r. case r of (status, st) \<Rightarrow> (if status = - 1 then DKIM_STAT_INTERNAL else DKIM_STAT_OK, st)) in
     if ts_state ts = 1 then (DKIM_STAT_SYNTAX, ts_set ts)
     else if ts_state ts = 2 then stored (dkim_add_plist e (ts_set ts) (ts_param ts) [] True)
     else (case ts_value ts of None \<Rightarrow> (DKIM_STAT_OK, ts_set ts)
           | Some v \<Rightarrow> stored (dkim_add_plist e (ts_set ts) (dkim_collapse (ts_param ts)) (dkim_collapse v) True)))"

text \<open>The test of a "t" or "x" value: a decimal number below \<open>ULLONG_MAX\<close> and nothing else.\<close>

definition number_valid :: "string \<Rightarrow> bool" where
  "number_valid value =
    (case value of [] \<Rightarrow> False
     | c # cs \<Rightarrow> c \<noteq> CHR ''-'' \<and>
         (case dkim_strtoull value of (tmp, end, errno) \<Rightarrow> tmp \<noteq> - 1 \<and> errno = None \<and> end = []))"

fun add_defaults :: "env \<Rightarrow> dkim_set \<Rightarrow> (string \<times> string) list \<Rightarrow> int \<times> dkim_set" where
  "add_defaults e st [] = (DKIM_STAT_OK, st)"
| "add_defaults e st ((param, value) # ds) =
    (case dkim_add_plist e st param value False of (status, st') \<Rightarrow>
       if status = - 1 then (DKIM_STAT_INTERNAL, st') else add_defaults e st' ds)"

text \<open>"load up defaults, assert requirements"\<close>

definition set_check :: "env \<Rightarrow> dkim_set \<Rightarrow> bool \<Rightarrow> int \<times> dkim_set" where
  "set_check e st syntax =
    (if set_type st = DKIM_SETTYPE_SIGNATURE then
       (if dkim_param_get st ''s'' = None \<or> dkim_param_get st ''h'' = None \<or>
           dkim_param_get st ''d'' = None \<or> dkim_param_get st ''b'' = None \<or>
           dkim_param_get st ''v'' = None \<or> dkim_param_get st ''a'' = None
        then (DKIM_STAT_SYNTAX, st)
        else if \<not> pred_option number_valid (dkim_param_get st ''t'') then (DKIM_STAT_SYNTAX, st)
        else if \<not> pred_option number_valid (dkim_param_get st ''x'') then (DKIM_STAT_SYNTAX, st)
        else if syntax then (DKIM_STAT_OK, st)
        else add_defaults e st [(''c'', ''simple/simple''), (''q'', ''dns/txt'')])
     else if set_type st = DKIM_SETTYPE_POLICY then
       (if dkim_param_get st ''dkim'' = None then (DKIM_STAT_SYNTAX, st) else (DKIM_STAT_OK, st))
     else if syntax then (DKIM_STAT_OK, st)
     else add_defaults e st [(''g'', ''*''), (''k'', ''rsa''), (''s'', ''*'')])"

definition parse_set :: "env \<Rightarrow> dkim_set \<Rightarrow> string \<Rightarrow> bool \<Rightarrow> int \<times> dkim_set" where
  "parse_set e st hcopy syntax =
    (case scan_set e \<lparr>ts_state = 0, ts_spaced = False, ts_param = [], ts_value = None, ts_set = st\<rparr> hcopy of
       Inl r \<Rightarrow> r
     | Inr ts \<Rightarrow> (case scan_end e ts of (status, st') \<Rightarrow>
         if status \<noteq> DKIM_STAT_OK then (status, st') else set_check e st' syntax))"

text \<open>
  Without \<open>syntax\<close> the set is linked before the string is looked at, and marked bad on any failure
  later; with it the set is freed and the handle left alone.
\<close>

definition dkim_process_set :: "env \<Rightarrow> dkim \<Rightarrow> int \<Rightarrow> string \<Rightarrow> nat \<Rightarrow> nat option \<Rightarrow> bool \<Rightarrow> int \<times> dkim" where
  "dkim_process_set e d type str len udata syntax =
    (if \<not> env_malloc e (len + 1) then (DKIM_STAT_INTERNAL, d)
     else if \<not> env_malloc e sizeof_struct then (DKIM_STAT_INTERNAL, d)
     else (case parse_set e \<lparr>set_bad = False, set_type = type, set_udata = udata, set_plist = []\<rparr>
                  (strlcpy str (len + 1)) syntax of (status, st) \<Rightarrow>
       (status, if syntax then d
                else d\<lparr>dkim_sets := dkim_sets d @ [st\<lparr>set_bad := (status \<noteq> DKIM_STAT_OK)\<rparr>]\<rparr>)))"


subsection \<open>Printed tag lists\<close>

text \<open>A tag as it may be written: white space, a name, white space, "=" and a raw value.\<close>

datatype raw_tag = Raw_Tag (rt_lead: string) (rt_name: string) (rt_gap: string) (rt_val: string)

definition tag_text :: "raw_tag \<Rightarrow> string" where
  "tag_text t = rt_lead t @ rt_name t @ rt_gap t @ ''='' @ rt_val t"

definition tag_value :: "raw_tag \<Rightarrow> string" where
  "tag_value t = dkim_collapse (rt_val t)"

definition text_char :: "byte \<Rightarrow> bool" where
  "text_char c \<longleftrightarrow> isascii c \<and> (isprint c \<or> isspace c) \<and> c \<noteq> CHR '';''"

definition name_char :: "byte \<Rightarrow> bool" where
  "name_char c \<longleftrightarrow> isascii c \<and> isprint c \<and> \<not> isspace c \<and> c \<noteq> CHR ''='' \<and> c \<noteq> CHR '';''"

definition tag_ok :: "raw_tag \<Rightarrow> bool" where
  "tag_ok t \<longleftrightarrow> (\<forall>c\<in>set (rt_lead t). isspace c) \<and> rt_name t \<noteq> [] \<and> isalnum (hd (rt_name t)) \<and>
     (\<forall>c\<in>set (rt_name t). name_char c) \<and> (\<forall>c\<in>set (rt_gap t). isspace c) \<and>
     (\<forall>c\<in>set (rt_val t). text_char c)"

text \<open>
  A list ends in a last tag without a semicolon, or in white space. A last tag with an empty value
  must have no white space before its "=", because its name is not collapsed.
\<close>

fun tags_text :: "raw_tag list \<Rightarrow> string" where
  "tags_text [] = []"
| "tags_text [t] = tag_text t"
| "tags_text (t # ts) = tag_text t @ '';'' @ tags_text ts"

definition last_ok :: "raw_tag \<Rightarrow> bool" where
  "last_ok t \<longleftrightarrow> rt_gap t = [] \<or> tag_value t \<noteq> []"

definition plist_put :: "string \<Rightarrow> string \<Rightarrow> (string \<times> string) list \<Rightarrow> (string \<times> string) list" where
  "plist_put param value pl =
    (if list_ex (\<lambda>pv. strcaseeq (fst pv) param) pl then plist_assign param value pl else (param, value) # pl)"

lemma add_plist_force:
  "env_malloc e sizeof_struct \<Longrightarrow>
   dkim_add_plist e st param value True = (0, st\<lparr>set_plist := plist_put param value (set_plist st)\<rparr>)"
  by (simp add: dkim_add_plist_def plist_put_def)

definition ts0 :: "dkim_set \<Rightarrow> tag_scan" where
  "ts0 st = \<lparr>ts_state = 0, ts_spaced = False, ts_param = [], ts_value = None, ts_set = st\<rparr>"

lemma scan_set_append:
  "scan_set e ts (s @ t) = (case scan_set e ts s of Inl r \<Rightarrow> Inl r | Inr ts' \<Rightarrow> scan_set e ts' t)"
  by (induction s arbitrary: ts) (auto split: sum.splits)

lemma space_byte: "isspace c \<Longrightarrow> isascii c"
  by (auto simp: cctype)

lemma scan_lead:
  "\<forall>c\<in>set s. isspace c \<Longrightarrow> scan_set e (ts0 st) s = Inr (ts0 st)"
  by (induction s) (auto simp: scan_byte_def ts0_def space_byte)

lemma scan_name_rest:
  "\<forall>c\<in>set s. name_char c \<Longrightarrow> ts_state ts = 1 \<Longrightarrow> \<not> ts_spaced ts \<Longrightarrow>
   scan_set e ts s = Inr (ts\<lparr>ts_param := ts_param ts @ s\<rparr>)"
  by (induction s arbitrary: ts) (auto simp: scan_byte_def name_char_def)

lemma scan_gap:
  "\<forall>c\<in>set s. isspace c \<Longrightarrow> ts_state ts = 1 \<Longrightarrow>
   scan_set e ts s = Inr (ts\<lparr>ts_param := ts_param ts @ s, ts_spaced := (ts_spaced ts \<or> s \<noteq> [])\<rparr>)"
  by (induction s arbitrary: ts) (auto simp: scan_byte_def space_byte)

lemma scan_value_rest:
  "\<forall>c\<in>set s. text_char c \<Longrightarrow> ts_state ts = 3 \<Longrightarrow> ts_value ts = Some v \<Longrightarrow>
   scan_set e ts s = Inr (ts\<lparr>ts_value := Some (v @ s)\<rparr>)"
  by (induction s arbitrary: ts v) (auto simp: scan_byte_def text_char_def)

lemma scan_value:
  "\<forall>c\<in>set s. text_char c \<Longrightarrow> ts_state ts = 2 \<Longrightarrow>
   scan_set e ts s = Inr (if dropWhile isspace s = [] then ts
     else ts\<lparr>ts_value := Some (dropWhile isspace s), ts_state := 3\<rparr>)"
proof (induction s arbitrary: ts)
  case (Cons c s)
  show ?case
  proof (cases "isspace c")
    case True
    then show ?thesis using Cons by (simp add: scan_byte_def space_byte)
  next
    case False
    then have "scan_byte e ts c = Inr (ts\<lparr>ts_value := Some [c], ts_state := 3\<rparr>)"
      using Cons.prems by (auto simp: scan_byte_def text_char_def)
    then show ?thesis
      using False Cons.prems
      by (simp add: scan_value_rest [where ts = "ts\<lparr>ts_value := Some [c], ts_state := 3\<rparr>" and v = "[c]"])
  qed
qed simp

definition tag_end :: "dkim_set \<Rightarrow> raw_tag \<Rightarrow> tag_scan" where
  "tag_end st t = (let v = dropWhile isspace (rt_val t) in
     \<lparr>ts_state = (if v = [] then 2 else 3), ts_spaced = False, ts_param = rt_name t @ rt_gap t,
      ts_value = (if v = [] then None else Some v), ts_set = st\<rparr>)"

lemma alnum_byte: "isalnum c \<Longrightarrow> isascii c \<and> isprint c \<and> \<not> isspace c"
  by (auto simp: cctype)

lemma scan_name:
  assumes "s \<noteq> []" "isalnum (hd s)" "\<forall>c\<in>set s. name_char c"
  shows "scan_set e (ts0 st) s = Inr ((ts0 st)\<lparr>ts_param := s, ts_state := 1\<rparr>)"
proof (cases s)
  case (Cons c cs)
  then have "scan_byte e (ts0 st) c = Inr ((ts0 st)\<lparr>ts_param := [c], ts_state := 1\<rparr>)"
    using assms alnum_byte by (simp add: scan_byte_def ts0_def)
  then show ?thesis
    using Cons assms by (simp add: scan_name_rest ts0_def)
qed (use assms in simp)

lemma scan_tag:
  assumes "tag_ok t"
  shows "scan_set e (ts0 st) (tag_text t) = Inr (tag_end st t)"
proof -
  have lead: "scan_set e (ts0 st) (rt_lead t) = Inr (ts0 st)"
    using assms by (intro scan_lead) (simp add: tag_ok_def)
  have nm: "scan_set e (ts0 st) (rt_name t) = Inr ((ts0 st)\<lparr>ts_param := rt_name t, ts_state := 1\<rparr>)"
    using assms by (intro scan_name) (simp_all add: tag_ok_def)
  let ?t1 = "(ts0 st)\<lparr>ts_param := rt_name t @ rt_gap t, ts_state := 1, ts_spaced := (rt_gap t \<noteq> [])\<rparr>"
  have gap: "scan_set e ((ts0 st)\<lparr>ts_param := rt_name t, ts_state := 1\<rparr>) (rt_gap t) = Inr ?t1"
    using assms scan_gap [of "rt_gap t" "(ts0 st)\<lparr>ts_param := rt_name t, ts_state := 1\<rparr>" e]
    by (simp add: tag_ok_def ts0_def)
  let ?t2 = "(ts0 st)\<lparr>ts_param := rt_name t @ rt_gap t, ts_state := 2\<rparr>"
  have eq: "scan_byte e ?t1 CHR ''='' = Inr ?t2"
    by (simp add: scan_byte_def ts0_def cctype)
  have vl: "scan_set e ?t2 (rt_val t) = Inr (tag_end st t)"
    using assms by (subst scan_value) (auto simp: tag_ok_def ts0_def tag_end_def Let_def)
  show ?thesis
    using lead nm gap eq vl by (simp add: tag_text_def scan_set_append)
qed

lemma collapse_blank: "dkim_collapse (dropWhile isspace s) = dkim_collapse s"
  by (induction s) (auto simp: dkim_collapse_filter)

lemma collapse_name:
  "tag_ok t \<Longrightarrow> dkim_collapse (rt_name t @ rt_gap t) = rt_name t"
  by (auto simp: tag_ok_def dkim_collapse_filter filter_id_conv name_char_def filter_empty_conv)

lemma dropWhile_blank_collapse: "dropWhile isspace s = [] \<longleftrightarrow> dkim_collapse s = []"
  by (auto simp: dkim_collapse_filter filter_empty_conv dropWhile_eq_Nil_conv)

abbreviation put_tag :: "raw_tag \<Rightarrow> dkim_set \<Rightarrow> dkim_set" where
  "put_tag t st \<equiv> st\<lparr>set_plist := plist_put (rt_name t) (tag_value t) (set_plist st)\<rparr>"

lemma scan_tag_sep:
  assumes "tag_ok t" "env_malloc e sizeof_struct"
  shows "scan_set e (ts0 st) (tag_text t @ '';'') = Inr (ts0 (put_tag t st))"
proof -
  have "scan_byte e (tag_end st t) CHR '';'' = scan_store e (tag_end st t) (tag_value t)"
    by (cases "dkim_collapse (rt_val t) = []")
      (simp_all add: scan_byte_def tag_end_def Let_def tag_value_def collapse_blank
        dropWhile_blank_collapse cctype del: dropWhile_eq_Nil_conv)
  also have "\<dots> = Inr (ts0 (put_tag t st))"
    using assms collapse_name
    by (simp add: scan_store_def add_plist_force tag_end_def Let_def ts0_def)
  finally show ?thesis using scan_tag [OF assms(1)] by (simp add: scan_set_append)
qed

lemma scan_last:
  assumes "tag_ok t" "env_malloc e sizeof_struct" "last_ok t"
  shows "scan_end e (tag_end st t) = (DKIM_STAT_OK, put_tag t st)"
  using assms collapse_name [OF assms(1)]
  by (cases "dkim_collapse (rt_val t) = []")
    (simp_all add: scan_end_def tag_end_def Let_def add_plist_force tag_value_def collapse_blank
      last_ok_def dropWhile_blank_collapse del: dropWhile_eq_Nil_conv dkim_collapse_append)

lemma scan_tags:
  assumes "\<forall>t\<in>set ts. tag_ok t" "env_malloc e sizeof_struct" "ts \<noteq> []" "last_ok (last ts)"
  shows "\<exists>s. scan_set e (ts0 st) (tags_text ts) = Inr s \<and>
     scan_end e s = (DKIM_STAT_OK, fold put_tag ts st)"
  using assms
proof (induction ts arbitrary: st rule: tags_text.induct)
  case (2 t)
  then show ?case using scan_tag scan_last by simp
next
  case (3 t u ts)
  then obtain s where s: "scan_set e (ts0 (put_tag t st)) (tags_text (u # ts)) = Inr s"
    "scan_end e s = (DKIM_STAT_OK, fold put_tag (u # ts) (put_tag t st))"
    by fastforce
  have "scan_set e (ts0 st) (tags_text (t # u # ts)) =
      (case scan_set e (ts0 st) (tag_text t @ '';'') of Inl r \<Rightarrow> Inl r | Inr ts' \<Rightarrow> scan_set e ts' (tags_text (u # ts)))"
    by (subst scan_set_append [symmetric]) simp
  then show ?case
    using s scan_tag_sep [of t e st] "3.prems" by simp
qed simp


subsection \<open>What a list parses to\<close>

abbreviation tag_pair :: "raw_tag \<Rightarrow> string \<times> string" where
  "tag_pair t \<equiv> (rt_name t, tag_value t)"

text \<open>The defaults of each type, and the lookup the parsed set answers.\<close>

definition set_defaults :: "int \<Rightarrow> (string \<times> string) list" where
  "set_defaults type =
    (if type = DKIM_SETTYPE_SIGNATURE then [(''c'', ''simple/simple''), (''q'', ''dns/txt'')]
     else if type = DKIM_SETTYPE_POLICY then [] else [(''g'', ''*''), (''k'', ''rsa''), (''s'', ''*'')])"

definition lookup_over :: "(string \<times> string) list \<Rightarrow> (string \<times> string) list \<Rightarrow> string \<Rightarrow> string option" where
  "lookup_over pl ds n =
    (case map_of pl n of Some v \<Rightarrow> Some v
     | None \<Rightarrow> if list_ex (\<lambda>pv. strcaseeq (fst pv) n) pl then None else map_of ds n)"

definition tag_lookup :: "int \<Rightarrow> (string \<times> string) list \<Rightarrow> string \<Rightarrow> string option" where
  "tag_lookup type pl n = lookup_over pl (set_defaults type) n"

definition signature_tags :: "string set" where
  "signature_tags = {''s'', ''h'', ''d'', ''b'', ''v'', ''a''}"

definition set_complete :: "int \<Rightarrow> (string \<times> string) list \<Rightarrow> bool" where
  "set_complete type pl \<longleftrightarrow>
    (type = DKIM_SETTYPE_SIGNATURE \<longrightarrow>
       (\<forall>n\<in>signature_tags. map_of pl n \<noteq> None) \<and>
       pred_option number_valid (map_of pl ''t'') \<and> pred_option number_valid (map_of pl ''x'')) \<and>
    (type = DKIM_SETTYPE_POLICY \<longrightarrow> map_of pl ''dkim'' \<noteq> None)"

definition folded_names :: "(string \<times> string) list \<Rightarrow> string list" where
  "folded_names pl = map (map tolower \<circ> fst) pl"

lemma list_ex_folded:
  "list_ex (\<lambda>pv. strcaseeq (fst pv) n) pl \<longleftrightarrow> map tolower n \<in> set (folded_names pl)"
  unfolding list_ex_iff strcaseeq_def folded_names_def by force

lemma fold_put_tags:
  "distinct (folded_names (set_plist st @ map tag_pair ts)) \<Longrightarrow>
   fold put_tag ts st = st\<lparr>set_plist := rev (map tag_pair ts) @ set_plist st\<rparr>"
proof (induction ts arbitrary: st)
  case (Cons t ts)
  then have "plist_put (rt_name t) (tag_value t) (set_plist st) = tag_pair t # set_plist st"
    unfolding plist_put_def list_ex_folded by (simp add: folded_names_def)
  then show ?case using Cons by (auto simp: folded_names_def)
qed simp

lemma lookup_over_present:
  "list_ex (\<lambda>pv. strcaseeq (fst pv) p) pl \<Longrightarrow> lookup_over pl ((p, v) # ds) = lookup_over pl ds"
  by (auto simp: lookup_over_def fun_eq_iff split: option.splits)

lemma lookup_over_absent:
  assumes "\<not> list_ex (\<lambda>pv. strcaseeq (fst pv) p) pl" "distinct (folded_names ((p, v) # ds))"
  shows "lookup_over ((p, v) # pl) ds = lookup_over pl ((p, v) # ds)"
proof
  fix n
  have "map_of ds n = None" if "strcaseeq p n"
    using assms(2) that
    by (force simp: folded_names_def strcaseeq_def map_of_eq_None_iff image_iff)
  moreover have "map_of pl p = None"
    using assms(1) by (force simp: list_ex_iff map_of_eq_None_iff)
  ultimately show "lookup_over ((p, v) # pl) ds n = lookup_over pl ((p, v) # ds) n"
    using assms(1) by (auto simp: lookup_over_def split: option.splits)
qed

lemma add_defaults_ok:
  assumes "env_malloc e sizeof_struct" "distinct (folded_names ds)"
  shows "\<exists>pl. add_defaults e st ds = (DKIM_STAT_OK, st\<lparr>set_plist := pl\<rparr>) \<and>
    map_of pl = lookup_over (set_plist st) ds"
  using assms(2)
proof (induction ds arbitrary: st)
  case Nil
  then show ?case
    by (intro exI [of _ "set_plist st"]) (simp add: lookup_over_def fun_eq_iff split: option.splits)
next
  case (Cons pv ds)
  obtain p v where pv: "pv = (p, v)" by force
  have ds: "distinct (folded_names ds)" using Cons.prems by (simp add: folded_names_def)
  show ?case
  proof (cases "list_ex (\<lambda>pv. strcaseeq (fst pv) p) (set_plist st)")
    case True
    then have "add_defaults e st (pv # ds) = add_defaults e st ds"
      by (simp add: pv dkim_add_plist_def)
    with Cons.IH [OF ds, of st] True show ?thesis by (simp add: pv lookup_over_present)
  next
    case False
    let ?st = "st\<lparr>set_plist := (p, v) # set_plist st\<rparr>"
    have "add_defaults e st (pv # ds) = add_defaults e ?st ds"
      using False assms(1) by (simp add: pv dkim_add_plist_def)
    with Cons.IH [OF ds, of ?st] lookup_over_absent [OF False Cons.prems [unfolded pv]]
    show ?thesis by (simp add: pv)
  qed
qed

lemma set_defaults_distinct: "distinct (folded_names (set_defaults type))"
  by (simp add: set_defaults_def folded_names_def char_eval)

lemma set_check_ok:
  assumes "env_malloc e sizeof_struct" "set_complete (set_type st) (set_plist st)"
    "set_type st \<in> {DKIM_SETTYPE_SIGNATURE, DKIM_SETTYPE_POLICY, DKIM_SETTYPE_KEY}"
  shows "\<exists>pl. set_check e st False = (DKIM_STAT_OK, st\<lparr>set_plist := pl\<rparr>) \<and>
    map_of pl = tag_lookup (set_type st) (set_plist st)"
proof -
  have "set_check e st False = add_defaults e st (set_defaults (set_type st))"
    using assms(2,3)
    by (auto simp: set_check_def set_complete_def signature_tags_def set_defaults_def dkim_param_get_def)
  with add_defaults_ok [OF assms(1) set_defaults_distinct, of st] show ?thesis
    by (simp add: tag_lookup_def [abs_def])
qed

lemma map_of_rev_distinct:
  "distinct (map fst pl) \<Longrightarrow> map_of (rev pl) = map_of pl"
  by (subst map_of_inject_set) (auto simp: rev_map [symmetric])

lemma distinct_folded: "distinct (folded_names pl) \<Longrightarrow> distinct (map fst pl)"
  by (metis distinct_map folded_names_def map_map)


lemma set_complete_cong: "map_of pl = map_of pl' \<Longrightarrow> set_complete type pl \<longleftrightarrow> set_complete type pl'"
  by (simp add: set_complete_def)

lemma tag_lookup_cong:
  assumes "map_of pl = map_of pl'" "set pl = set pl'"
  shows "tag_lookup type pl = tag_lookup type pl'"
proof -
  have "list_ex P pl = list_ex P pl'" for P using assms(2) by (simp add: list_ex_iff)
  then show ?thesis by (simp add: tag_lookup_def lookup_over_def fun_eq_iff assms(1))
qed

lemma process_set_parses:
  assumes tags: "\<forall>t\<in>set ts. tag_ok t" "ts \<noteq> []" "last_ok (last ts)"
    and names: "distinct (folded_names (map tag_pair ts))"
    and type: "type \<in> {DKIM_SETTYPE_SIGNATURE, DKIM_SETTYPE_POLICY, DKIM_SETTYPE_KEY}"
    and complete: "set_complete type (map tag_pair ts)"
    and mem: "\<forall>n. env_malloc e n" and len: "length (tags_text ts) \<le> len"
  shows "\<exists>st. dkim_process_set e d type (tags_text ts) len u False
      = (DKIM_STAT_OK, d\<lparr>dkim_sets := dkim_sets d @ [st]\<rparr>) \<and>
    \<not> set_bad st \<and> set_type st = type \<and> set_udata st = u \<and>
    (\<forall>n. dkim_param_get st n = tag_lookup type (map tag_pair ts) n)"
proof -
  let ?st = "\<lparr>set_bad = False, set_type = type, set_udata = u, set_plist = []\<rparr>"
  let ?st' = "?st\<lparr>set_plist := rev (map tag_pair ts)\<rparr>"
  have rev: "map_of (rev (map tag_pair ts)) = map_of (map tag_pair ts)"
    using names by (intro map_of_rev_distinct distinct_folded)
  have "fold put_tag ts ?st = ?st'"
    using fold_put_tags [of ?st ts] names by simp
  then obtain s where s: "scan_set e (ts0 ?st) (tags_text ts) = Inr s"
    "scan_end e s = (DKIM_STAT_OK, ?st')"
    using scan_tags [OF tags(1) mem [rule_format] tags(2,3), of ?st] by auto
  have "set_complete type (set_plist ?st')"
    using complete set_complete_cong [OF rev] by simp
  then obtain pl where "set_check e ?st' False = (DKIM_STAT_OK, ?st'\<lparr>set_plist := pl\<rparr>)"
    "map_of pl = tag_lookup type (rev (map tag_pair ts))"
    using set_check_ok [OF mem [rule_format], of ?st'] type by auto
  moreover have "tag_lookup type (rev (map tag_pair ts)) = tag_lookup type (map tag_pair ts)"
    using rev by (rule tag_lookup_cong) simp
  moreover have "strlcpy (tags_text ts) (len + 1) = tags_text ts"
    using len by (simp add: cstring)
  ultimately show ?thesis
    using s mem
    by (intro exI [of _ "?st'\<lparr>set_plist := pl\<rparr>"])
      (simp add: dkim_process_set_def parse_set_def ts0_def dkim_param_get_def)
qed

text \<open>
  C24: a printed tag list parses back: for tags with names distinct up to case, in any white space,
  holding the tags its type requires, \<open>dkim_process_set\<close> accepts the string and appends one good set
  in which each name has its value without white space, the defaults of the type are present unless
  a tag of that name (in any case) was given, and no other name is found. A tag "C=" thus leaves
  the lookup of "c" empty.
\<close>
theorem process_set_roundtrip:
  assumes tags: "\<forall>t\<in>set ts. tag_ok t" "ts \<noteq> []" "last_ok (last ts)"
    and names: "distinct (folded_names (map tag_pair ts))"
    and type: "type \<in> {DKIM_SETTYPE_SIGNATURE, DKIM_SETTYPE_POLICY, DKIM_SETTYPE_KEY}"
    and complete: "set_complete type (map tag_pair ts)"
    and mem: "\<forall>n. env_malloc e n" and len: "length (tags_text ts) \<le> len"
  shows "\<exists>st. dkim_process_set e d type (tags_text ts) len u False
      = (DKIM_STAT_OK, d\<lparr>dkim_sets := dkim_sets d @ [st]\<rparr>) \<and>
    \<not> set_bad st \<and> set_type st = type \<and> set_udata st = u \<and>
    (\<forall>n. dkim_param_get st n = tag_lookup type (map tag_pair ts) n)"
  using assms by (rule process_set_parses)

definition tags_ex :: "raw_tag list" where
  "tags_ex = [Raw_Tag [] ''v'' [] ''1'', Raw_Tag '' '' ''a'' [] ''rsa-sha256'', Raw_Tag [] ''d'' '' '' ''x.org'',
     Raw_Tag [] ''s'' [] ''k '', Raw_Tag [] ''h'' [] ''From : To'', Raw_Tag [] ''C'' [] ''relaxed'',
     Raw_Tag [] ''t'' [] ''12'', Raw_Tag [] ''b'' [] ''QUI =='']"

lemma number_valid_12: "number_valid ''12''"
  by (simp add: number_valid_def dkim_strtoull_def cctype)

lemma process_set_roundtrip_witness:
  "\<exists>st. dkim_process_set env0 (dkim_zero lib0) DKIM_SETTYPE_SIGNATURE (tags_text tags_ex) 100 None False
      = (DKIM_STAT_OK, (dkim_zero lib0)\<lparr>dkim_sets := [st]\<rparr>) \<and>
    dkim_param_get st ''h'' = Some ''From:To'' \<and> dkim_param_get st ''c'' = None"
proof -
  have "\<exists>st. dkim_process_set env0 (dkim_zero lib0) DKIM_SETTYPE_SIGNATURE (tags_text tags_ex) 100 None False
      = (DKIM_STAT_OK, (dkim_zero lib0)\<lparr>dkim_sets := dkim_sets (dkim_zero lib0) @ [st]\<rparr>) \<and>
    \<not> set_bad st \<and> set_type st = DKIM_SETTYPE_SIGNATURE \<and> set_udata st = None \<and>
    (\<forall>n. dkim_param_get st n = tag_lookup DKIM_SETTYPE_SIGNATURE (map tag_pair tags_ex) n)"
  proof (rule process_set_roundtrip)
    show "set_complete DKIM_SETTYPE_SIGNATURE (map tag_pair tags_ex)"
      using number_valid_12
      by (simp add: set_complete_def signature_tags_def tags_ex_def tag_value_def dkim_collapse_def cctype)
    show "\<forall>t\<in>set tags_ex. tag_ok t"
      by (simp add: tags_ex_def tag_ok_def text_char_def name_char_def cctype)
  qed (simp_all add: tags_ex_def last_ok_def folded_names_def char_eval env0_def tag_text_def)
  moreover have "tag_lookup DKIM_SETTYPE_SIGNATURE (map tag_pair tags_ex) ''h'' = Some ''From:To''"
    "tag_lookup DKIM_SETTYPE_SIGNATURE (map tag_pair tags_ex) ''c'' = None"
    by (simp_all add: tag_lookup_def lookup_over_def tags_ex_def tag_value_def dkim_collapse_def
        cctype strcaseeq_def char_eval)
  ultimately show ?thesis by (force simp: dkim_zero_def)
qed

text \<open>The last tag's name keeps its white space when its value is empty: "b =" defines "b ", not "b".\<close>

lemma last_empty_tag_name:
  "dkim_param_get (snd (parse_set env0 \<lparr>set_bad = False, set_type = DKIM_SETTYPE_KEY, set_udata = None,
     set_plist = []\<rparr> ''k=rsa; p ='' False)) ''p'' = None"
  by code_simp


subsection \<open>Sets of any string\<close>

text \<open>What every step of the parser keeps: type and user data, and names distinct up to case.\<close>

definition set_inv :: "dkim_set \<Rightarrow> dkim_set \<Rightarrow> bool" where
  "set_inv st st' \<longleftrightarrow> set_type st' = set_type st \<and> set_udata st' = set_udata st \<and>
     (distinct (folded_names (set_plist st)) \<longrightarrow> distinct (folded_names (set_plist st')))"

lemma set_inv_refl [simp]: "set_inv st st"
  by (simp add: set_inv_def)

lemma set_inv_trans: "set_inv st st' \<Longrightarrow> set_inv st' st'' \<Longrightarrow> set_inv st st''"
  by (simp add: set_inv_def)

lemma plist_assign_names [simp]: "folded_names (plist_assign p v pl) = folded_names pl"
  by (induction p v pl rule: plist_assign.induct) (auto simp: folded_names_def)

lemma add_plist_inv: "dkim_add_plist e st p v force = (status, st') \<Longrightarrow> set_inv st st'"
  unfolding dkim_add_plist_def list_ex_folded
  by (auto simp: set_inv_def split: if_splits) (simp add: folded_names_def)

lemma scan_store_inv:
  "scan_store e ts v = Inl (status, st) \<Longrightarrow> set_inv (ts_set ts) st"
  "scan_store e ts v = Inr ts' \<Longrightarrow> set_inv (ts_set ts) (ts_set ts')"
  by (auto simp: scan_store_def split: prod.splits if_splits dest: add_plist_inv)

lemma scan_byte_inv:
  "scan_byte e ts c = Inl (status, st) \<Longrightarrow> set_inv (ts_set ts) st"
  "scan_byte e ts c = Inr ts' \<Longrightarrow> set_inv (ts_set ts) (ts_set ts')"
  by (auto simp: scan_byte_def split: if_splits dest: scan_store_inv)

lemma scan_set_inv:
  "case scan_set e ts s of Inl (status, st) \<Rightarrow> set_inv (ts_set ts) st | Inr ts' \<Rightarrow> set_inv (ts_set ts) (ts_set ts')"
proof (induction s arbitrary: ts)
  case (Cons c s)
  show ?case
  proof (cases "scan_byte e ts c")
    case (Inl r)
    then show ?thesis using scan_byte_inv(1) by (cases r) auto
  next
    case (Inr ts')
    then show ?thesis using Cons [of ts'] scan_byte_inv(2) [OF Inr] set_inv_trans
      by (auto split: sum.splits)
  qed
qed simp

lemma scan_end_inv: "scan_end e ts = (status, st) \<Longrightarrow> set_inv (ts_set ts) st"
  by (auto simp: scan_end_def Let_def split: if_splits option.splits prod.splits dest: add_plist_inv)

lemma add_defaults_inv: "add_defaults e st ds = (status, st') \<Longrightarrow> set_inv st st'"
proof (induction e st ds rule: add_defaults.induct)
  case (2 e st p v ds)
  then show ?case
    using set_inv_trans by (auto split: prod.splits if_splits dest!: add_plist_inv)
qed simp

lemma set_check_inv: "set_check e st syntax = (status, st') \<Longrightarrow> set_inv st st'"
  unfolding set_check_def
  by (auto split: if_splits dest: add_defaults_inv simp del: add_defaults.simps)

text \<open>Defaults only add entries, so the requirements that were checked still hold.\<close>

lemma add_plist_new_name:
  "dkim_add_plist e st p v False = (status, st') \<Longrightarrow> n \<noteq> p \<Longrightarrow> dkim_param_get st' n = dkim_param_get st n"
  by (auto simp: dkim_add_plist_def dkim_param_get_def split: if_splits)

lemma add_defaults_keeps:
  "add_defaults e st ds = (status, st') \<Longrightarrow> n \<notin> fst ` set ds \<Longrightarrow> dkim_param_get st' n = dkim_param_get st n"
proof (induction e st ds rule: add_defaults.induct)
  case (2 e st p v ds)
  then show ?case by (auto split: prod.splits if_splits dest: add_plist_new_name)
qed simp

lemma set_check_complete:
  "set_check e st False = (DKIM_STAT_OK, st') \<Longrightarrow> set_complete (set_type st') (set_plist st')"
proof -
  assume chk: "set_check e st False = (DKIM_STAT_OK, st')"
  then have ty: "set_type st' = set_type st"
    using set_check_inv by (auto simp: set_inv_def)
  consider "set_type st = DKIM_SETTYPE_SIGNATURE" | "set_type st = DKIM_SETTYPE_POLICY"
    | "set_type st \<noteq> DKIM_SETTYPE_SIGNATURE" "set_type st \<noteq> DKIM_SETTYPE_POLICY" by blast
  then show ?thesis
  proof cases
    case 1
    with chk have "add_defaults e st [(''c'', ''simple/simple''), (''q'', ''dns/txt'')] = (DKIM_STAT_OK, st')"
      by (simp add: set_check_def split: if_splits)
    then have "dkim_param_get st' n = dkim_param_get st n" if "n \<noteq> ''c''" "n \<noteq> ''q''" for n
      using that add_defaults_keeps by fastforce
    then show ?thesis
      using 1 chk ty
      by (simp add: set_complete_def signature_tags_def set_check_def dkim_param_get_def split: if_splits)
  qed (use chk ty in \<open>simp_all add: set_complete_def set_check_def dkim_param_get_def split: if_splits\<close>)
qed

lemma parse_set_inv:
  assumes "parse_set e st s syntax = (status, st')"
  shows "set_inv st st'"
proof (cases "scan_set e (ts0 st) s")
  case (Inl r)
  then have "r = (status, st')" using assms by (simp add: parse_set_def ts0_def)
  then show ?thesis using scan_set_inv [where e = e and ts = "ts0 st" and s = s] Inl
    by (simp add: ts0_def)
next
  case (Inr ts)
  obtain st1 status1 where e1: "scan_end e ts = (status1, st1)" by force
  have "set_inv st (ts_set ts)"
    using scan_set_inv [where e = e and ts = "ts0 st" and s = s] Inr by (simp add: ts0_def)
  with scan_end_inv [OF e1] have st1: "set_inv st st1" using set_inv_trans by blast
  show ?thesis
  proof (cases "status1 = DKIM_STAT_OK")
    case True
    then have "set_check e st1 syntax = (status, st')"
      using assms Inr e1 by (simp add: parse_set_def ts0_def)
    then show ?thesis using set_check_inv st1 set_inv_trans by blast
  next
    case False
    then show ?thesis using assms Inr e1 st1 by (simp add: parse_set_def ts0_def)
  qed
qed

lemma parse_set_complete:
  "parse_set e st s False = (DKIM_STAT_OK, st') \<Longrightarrow> set_complete (set_type st') (set_plist st')"
proof -
  assume "parse_set e st s False = (DKIM_STAT_OK, st')"
  then obtain r where "r = Inl (DKIM_STAT_OK, st') \<and> scan_set e (ts0 st) s = r \<or>
      (\<exists>st1. set_check e st1 False = (DKIM_STAT_OK, st'))"
    by (auto simp: parse_set_def ts0_def split: sum.splits prod.splits if_splits)
  moreover have "scan_set e ts s \<noteq> Inl (DKIM_STAT_OK, st')" for ts
    by (induction s arbitrary: ts)
      (auto simp: scan_byte_def scan_store_def split: sum.splits prod.splits if_splits)
  ultimately show ?thesis using set_check_complete by blast
qed


text \<open>
  C25: for any string, \<open>dkim_process_set\<close> without \<open>syntax\<close> either fails to allocate and leaves the
  handle alone or appends exactly one set of the asked type, marked bad exactly when the result is
  not OK. The names in it are distinct up to case, and an accepted set has the tags its type
  requires, with numbers below \<open>ULLONG_MAX\<close> in "t=" and "x=". No set that was there changes.
\<close>
theorem process_set_outcome:
  "case dkim_process_set e d type str len u False of (status, d') \<Rightarrow>
     (status = DKIM_STAT_INTERNAL \<and> d' = d) \<or>
     (\<exists>st. d' = d\<lparr>dkim_sets := dkim_sets d @ [st]\<rparr> \<and> set_type st = type \<and> set_udata st = u \<and>
        distinct (folded_names (set_plist st)) \<and> (set_bad st \<longleftrightarrow> status \<noteq> DKIM_STAT_OK) \<and>
        (\<not> set_bad st \<longrightarrow> set_complete type (set_plist st)))"
proof -
  let ?st = "\<lparr>set_bad = False, set_type = type, set_udata = u, set_plist = []\<rparr>"
  obtain status st where p: "parse_set e ?st (strlcpy str (len + 1)) False = (status, st)" by force
  then have inv: "set_inv ?st st" by (rule parse_set_inv)
  have "status = DKIM_STAT_OK \<Longrightarrow> set_complete type (set_plist st)"
    using p inv parse_set_complete by (auto simp: set_inv_def)
  moreover have "set_type st = type" "set_udata st = u" "distinct (folded_names (set_plist st))"
    using inv by (simp_all add: set_inv_def folded_names_def)
  moreover have "dkim_process_set e d type str len u False = (DKIM_STAT_INTERNAL, d) \<or>
     dkim_process_set e d type str len u False =
       (status, d\<lparr>dkim_sets := dkim_sets d @ [st\<lparr>set_bad := (status \<noteq> DKIM_STAT_OK)\<rparr>]\<rparr>)"
    using p by (simp add: dkim_process_set_def)
  ultimately show ?thesis
    by (elim disjE) (simp, simp, intro disjI2 exI [of _ "st\<lparr>set_bad := (status \<noteq> DKIM_STAT_OK)\<rparr>"], simp)
qed

definition policy_run :: "int \<times> dkim" where
  "policy_run = dkim_process_set env0 (dkim_zero lib0) DKIM_SETTYPE_POLICY ''dkim=all; dkim=?'' 18 None False"

lemma process_set_outcome_witness:
  "fst policy_run = DKIM_STAT_OK \<and>
   (\<exists>st. snd policy_run = (dkim_zero lib0)\<lparr>dkim_sets := dkim_sets (dkim_zero lib0) @ [st]\<rparr> \<and>
     set_complete DKIM_SETTYPE_POLICY (set_plist st))"
proof -
  have ok: "fst policy_run = DKIM_STAT_OK" by code_simp
  obtain status d' where r: "policy_run = (status, d')" by force
  show ?thesis
    using process_set_outcome [where e = env0 and d = "dkim_zero lib0" and type = DKIM_SETTYPE_POLICY
        and str = "''dkim=all; dkim=?''" and len = 18 and u = None, folded policy_run_def] ok
    unfolding r by simp blast
qed

lemma set_check_syntax:
  assumes "\<forall>n. env_malloc e n"
  shows "fst (set_check e st True) = fst (set_check e st False)"
proof -
  have "fst (add_defaults e st ds) = DKIM_STAT_OK" for ds
  proof (induction ds arbitrary: st)
    case (Cons pv ds)
    then show ?case using assms by (cases pv) (auto simp: dkim_add_plist_def)
  qed simp
  then show ?thesis by (simp add: set_check_def del: add_defaults.simps)
qed

text \<open>
  C26: the syntax check (\<open>dkim_key_syntax\<close>, \<open>dkim_policy_syntax\<close>, \<open>dkim_sig_syntax\<close>) answers what the
  parse answers, when memory is available, and leaves the handle unchanged.
\<close>
theorem process_set_syntax:
  assumes "\<forall>n. env_malloc e n"
  shows "dkim_process_set e d type str len u True = (fst (dkim_process_set e d type str len u False), d)"
  using assms set_check_syntax [OF assms]
  by (auto simp: dkim_process_set_def parse_set_def split: sum.splits prod.splits) (metis fst_conv)+

lemma process_set_syntax_witness:
  "dkim_process_set env0 (dkim_zero lib0) DKIM_SETTYPE_KEY ''p=;g;'' 5 None True
    = (fst (dkim_process_set env0 (dkim_zero lib0) DKIM_SETTYPE_KEY ''p=;g;'' 5 None False), dkim_zero lib0)"
  by (rule process_set_syntax) (simp add: env0_def)

end
