(* ===== verification/Dkim_Sigcheck.thy ===== *)
theory Dkim_Sigcheck
  imports Dkim_Tagset Dkim_Qp
begin

text \<open>
  The checks of \<open>dkim.c\<close> on one signature or key record: key services, granularity and hash lists, the
  header list, the domain, the times and the version, and the header lookup.

  A C string that \<open>strtok_r\<close> or the code cuts in place is the list of its pieces. \<open>dkim_qp_decode\<close>
  into a zeroed array leaves the written bytes up to the first NUL; where it leaves the array
  (\<open>dkim_qp_decode_in_bounds\<close>) the C code has no defined result. Of \<open>regcomp\<close> and \<open>regexec\<close> the model
  takes a function that compiles a pattern to a matcher, or fails.

  The lemmas say what each check accepts, as a property of the strings and the numbers.
\<close>

subsection \<open>Keys\<close>

definition dkim_key_smtp :: "dkim_set \<Rightarrow> bool" where
  "dkim_key_smtp st =
    (case dkim_param_get st ''s'' of None \<Rightarrow> True
     | Some val \<Rightarrow> list_ex (\<lambda>p. p = ''*'' \<or> strcaseeq p ''email'')
         (strtok CHR '':'' (strlcpy val (BUFRSZ + 1))))"

type_synonym regex = "string \<Rightarrow> (string \<Rightarrow> bool) option"

text \<open>
  The pattern of a wildcard granularity. A byte is added while \<open>q < end - 2\<close>, where \<open>end\<close> is the
  array's end, so the text written so far is shorter than \<open>sizeof restr - 2\<close>.
\<close>

fun gran_regex :: "string \<Rightarrow> string \<Rightarrow> string" where
  "gran_regex q [] = q"
| "gran_regex q (p # ps) =
    (if \<not> length q < MAXADDRESS + 1 - 2 then q
     else if isascii p \<and> ispunct p then
       (if p = CHR ''*'' then gran_regex (q @ ''.*'') ps else gran_regex (q @ [CHR 0x5C, p]) ps)
     else gran_regex (q @ [p]) ps)"

text \<open>
  The local part of "i=" that the code decodes into \<open>cmp\<close> is never read: the comparison is with
  \<open>user\<close>, which the caller took from "i=" itself.
\<close>

definition dkim_key_granok :: "regex \<Rightarrow> dkim \<Rightarrow> string option \<Rightarrow> string \<Rightarrow> string \<Rightarrow> bool" where
  "dkim_key_granok regcomp d v gran user =
    (if gran = [] then v = None \<and> lib_flag d DKIM_LIBFLAGS_ACCEPTDK
     else if gran = ''*'' then True
     else if CHR ''*'' \<notin> set gran then gran = user
     else let restr = gran_regex ''^'' gran in
       if length restr + 1 \<ge> MAXADDRESS + 1 then False
       else (case regcomp (restr @ ''$'') of None \<Rightarrow> False | Some re \<Rightarrow> re user))"

text \<open>The loop that \<open>dkim_key_hashok\<close> and \<open>dkim_key_hashesok\<close> share; \<open>x\<close> is the open piece.\<close>

fun hashlist_scan :: "(string \<Rightarrow> bool) \<Rightarrow> string option \<Rightarrow> string \<Rightarrow> bool" where
  "hashlist_scan ok x [] = (case x of None \<Rightarrow> False | Some w \<Rightarrow> ok (strlcpy w (BUFRSZ + 1)))"
| "hashlist_scan ok x (y # ys) =
    (if y = CHR '':'' then
       (case x of None \<Rightarrow> hashlist_scan ok None ys
        | Some w \<Rightarrow> ok (strlcpy w (BUFRSZ + 1)) \<or> hashlist_scan ok None ys)
     else hashlist_scan ok (Some (case x of None \<Rightarrow> [y] | Some w \<Rightarrow> w @ [y])) ys)"

definition dkim_key_hashok :: "siginfo \<Rightarrow> string option \<Rightarrow> bool" where
  "dkim_key_hashok sg hashlist =
    (case hashlist of None \<Rightarrow> True
     | Some y \<Rightarrow> hashlist_scan (\<lambda>tmp. dkim_name_to_code prv_hashes tmp = sig_hashtype sg) None y)"

definition dkim_key_hashesok :: "string option \<Rightarrow> bool" where
  "dkim_key_hashesok hashlist =
    (case hashlist of None \<Rightarrow> True
     | Some y \<Rightarrow> hashlist_scan (\<lambda>tmp. dkim_name_to_code prv_hashes tmp \<noteq> - 1) None y)"

subsection \<open>Signatures\<close>

definition required_signhdrs :: "string list" where
  "required_signhdrs = [''from'']"

text \<open>
  The names of a header list: a name starts at the first ASCII byte that is no white space and runs
  to the next colon.
\<close>

fun hdrlist_ptrs :: "string list \<Rightarrow> bool \<Rightarrow> string \<Rightarrow> string list" where
  "hdrlist_ptrs ptrs inn [] = ptrs"
| "hdrlist_ptrs ptrs inn (p # s) =
    (if p = CHR '':'' then hdrlist_ptrs ptrs False s
     else if inn then hdrlist_ptrs (butlast ptrs @ [last ptrs @ [p]]) True s
     else if isascii p \<and> \<not> isspace p then hdrlist_ptrs (ptrs @ [[p]]) True s
     else hdrlist_ptrs ptrs False s)"

text \<open>The result is a \<open>_Bool\<close>, so the \<open>-1\<close> of a failed allocation is TRUE.\<close>

definition dkim_sig_hdrlistok :: "env \<Rightarrow> string \<Rightarrow> bool" where
  "dkim_sig_hdrlistok e hdrlist =
    (let ptrs = hdrlist_ptrs [] False (strlcpy hdrlist (DKIM_MAXHEADER + 1)) in
     if \<not> env_malloc e (8 * length ptrs) then True
     else list_all (\<lambda>r. list_ex (\<lambda>p. strcaseeq r p) ptrs) required_signhdrs)"

definition qp_cstr :: "string \<Rightarrow> nat \<Rightarrow> string" where
  "qp_cstr inp n = cstr (qp_written (dkim_qp_decode inp n))"

text \<open>The search for a dot from \<open>at\<close> whose rest is the domain.\<close>

fun parent_domain :: "string \<Rightarrow> string \<Rightarrow> bool" where
  "parent_domain d [] = False"
| "parent_domain d (c # s) = ((c = CHR ''.'' \<and> strcaseeq s d) \<or> parent_domain d s)"

definition dkim_sig_domainok :: "dkim \<Rightarrow> dkim_set \<Rightarrow> bool \<times> dkim" where
  "dkim_sig_domainok dk st =
    (let d = the (dkim_param_get st ''d'');
         addr = (case dkim_param_get st ''i'' of
             None \<Rightarrow> strlcpy (CHR ''@'' # d) (MAXADDRESS + 1)
           | Some i \<Rightarrow> qp_cstr i (MAXADDRESS + 1)) in
     case strchr addr CHR ''@'' of
       None \<Rightarrow> (False, dk)
     | Some at \<Rightarrow>
         if strcaseeq (tl at) d then (True, dk)
         else if parent_domain d at then (True, dk\<lparr>dkim_subdomain := True\<rparr>)
         else (False, dk))"

text \<open>\<open>strtoull(val, NULL, 10)\<close>, and the clock as the code converts it.\<close>

definition ull :: "string \<Rightarrow> 64 word" where
  "ull val = fst (dkim_strtoull val)"

definition now_ull :: "env \<Rightarrow> 64 word" where
  "now_ull e = word_of_int (env_time e)"

definition dkim_sig_expired :: "env \<Rightarrow> dkim_set \<Rightarrow> 64 word \<Rightarrow> bool" where
  "dkim_sig_expired e st drift =
    (case dkim_param_get st ''x'' of None \<Rightarrow> False | Some val \<Rightarrow> now_ull e \<ge> ull val + drift)"

definition dkim_sig_timestampsok :: "dkim_set \<Rightarrow> bool" where
  "dkim_sig_timestampsok st =
    (case dkim_param_get st ''t'' of None \<Rightarrow> True
     | Some t \<Rightarrow> (case dkim_param_get st ''x'' of None \<Rightarrow> True | Some x \<Rightarrow> ull t < ull x))"

definition dkim_sig_future :: "env \<Rightarrow> dkim_set \<Rightarrow> 64 word \<Rightarrow> bool" where
  "dkim_sig_future e st drift =
    (case dkim_param_get st ''t'' of None \<Rightarrow> False | Some val \<Rightarrow> now_ull e < ull val - drift)"

definition dkim_sig_versionok :: "dkim \<Rightarrow> dkim_set \<Rightarrow> bool" where
  "dkim_sig_versionok d st =
    (let v = the (dkim_param_get st ''v'') in
     v = DKIM_VERSION_SIG \<or> (lib_flag d DKIM_LIBFLAGS_ACCEPTV05 \<and> v = DKIM_VERSION_SIGOLD))"

text \<open>\<open>dkim_get_header\<close>: the index of the \<open>inst\<close>-th field of a name; \<open>namelen\<close> 0 means its length.\<close>

fun get_header_loop :: "string \<Rightarrow> nat \<Rightarrow> nat \<Rightarrow> nat \<Rightarrow> header list \<Rightarrow> nat option" where
  "get_header_loop name len inst i [] = None"
| "get_header_loop name len inst i (hdr # hs) =
    (if hdr_namelen hdr = len \<and> strncaseeq (hdr_text hdr) name len
     then (if inst = 0 then Some i else get_header_loop name len (inst - 1) (Suc i) hs)
     else get_header_loop name len inst (Suc i) hs)"

definition dkim_get_header :: "dkim \<Rightarrow> string \<Rightarrow> nat \<Rightarrow> nat \<Rightarrow> nat option" where
  "dkim_get_header d name namelen inst =
    get_header_loop name (if namelen = 0 then length name else namelen) inst 0 (dkim_hdrs d)"


subsection \<open>Lists\<close>

lemma strtok_sep [simp]: "strtok d (d # s) = strtok d s"
  by (simp add: strtok_def)

lemma strtok_Nil [simp]: "strtok d [] = []"
  by (simp add: strtok_def)

lemma hashlist_scan_strtok:
  assumes "case x of None \<Rightarrow> length y \<le> BUFRSZ | Some w \<Rightarrow> w \<noteq> [] \<and> CHR '':'' \<notin> set w \<and> length w + length y \<le> BUFRSZ"
  shows "hashlist_scan ok x y = list_ex ok (strtok CHR '':'' (case x of None \<Rightarrow> y | Some w \<Rightarrow> w @ y))"
  using assms
proof (induction ok x y rule: hashlist_scan.induct)
  case (1 ok x)
  then show ?case by (auto simp: strtok_single cstring split: option.splits)
next
  case (2 ok x y ys)
  then show ?case by (auto simp: strtok_append cstring split: option.splits if_splits)
qed

text \<open>
  C32: a key's "h=" list of at most 1024 bytes allows a signature's hash exactly when one of the
  non-empty pieces between its colons names, in any case, that hash; it is of use at all exactly
  when some piece names a known one. A key without the list allows everything.
\<close>
theorem key_hashes_spec:
  assumes "length y \<le> BUFRSZ"
  shows "(dkim_key_hashok sg (Some y) \<longleftrightarrow> (\<exists>w\<in>set (strtok CHR '':'' y). dkim_name_to_code prv_hashes w = sig_hashtype sg)) \<and>
    (dkim_key_hashesok (Some y) \<longleftrightarrow> (\<exists>w\<in>set (strtok CHR '':'' y). dkim_name_to_code prv_hashes w \<noteq> - 1)) \<and>
    dkim_key_hashok sg None \<and> dkim_key_hashesok None"
  using assms
  by (simp_all add: dkim_key_hashok_def dkim_key_hashesok_def hashlist_scan_strtok list_ex_iff)

lemma key_hashes_spec_witness:
  "dkim_key_hashok (siginfo0\<lparr>sig_hashtype := DKIM_HASHTYPE_SHA256\<rparr>) (Some ''md5:SHA256'') \<and>
   dkim_key_hashesok (Some ''md5:SHA256'') \<and> \<not> dkim_key_hashesok (Some ''md5:'')"
  using key_hashes_spec [where y = "''md5:SHA256''" and sg = "siginfo0\<lparr>sig_hashtype := DKIM_HASHTYPE_SHA256\<rparr>"]
    key_hashes_spec [where y = "''md5:''"]
  by (simp add: strtok_def prv_hashes_def strcaseeq_def char_eval)

text \<open>The names of a list without white space are its non-empty pieces.\<close>

lemma hdrlist_ptrs_strtok:
  assumes "\<forall>c\<in>set s. isascii c \<and> \<not> isspace c"
    "inn \<Longrightarrow> ptrs \<noteq> [] \<and> last ptrs \<noteq> [] \<and> CHR '':'' \<notin> set (last ptrs)"
  shows "hdrlist_ptrs ptrs inn s =
    (if inn then butlast ptrs @ strtok CHR '':'' (last ptrs @ s) else ptrs @ strtok CHR '':'' s)"
  using assms
proof (induction ptrs inn s rule: hdrlist_ptrs.induct)
  case (1 ptrs inn)
  then show ?case by (cases inn) (simp_all add: strtok_single)
next
  case (2 ptrs inn p s)
  show ?case
  proof (cases "p = CHR '':''")
    case True
    show ?thesis
    proof (cases inn)
      case t: True
      then have "strtok CHR '':'' (last ptrs @ CHR '':'' # s) = last ptrs # strtok CHR '':'' s"
        using "2.prems"(2) by (intro strtok_append) simp_all
      moreover have "butlast ptrs @ [last ptrs] = ptrs" using t "2.prems"(2) by simp
      ultimately show ?thesis using True t "2.IH"(1) "2.prems" by simp
    qed (use True "2.IH"(1) "2.prems" in simp)
  next
    case False
    then show ?thesis using "2.IH"(2,3) "2.prems" by (cases inn) simp_all
  qed
qed

lemma hdrlistok_strtok:
  assumes "\<forall>c\<in>set l. isascii c \<and> \<not> isspace c" "length l \<le> DKIM_MAXHEADER" "\<forall>n. env_malloc e n"
  shows "dkim_sig_hdrlistok e l \<longleftrightarrow> (\<exists>n\<in>set (strtok CHR '':'' l). strcaseeq ''from'' n)"
  using assms
  by (simp add: dkim_sig_hdrlistok_def required_signhdrs_def hdrlist_ptrs_strtok list_ex_iff cstring)



subsection \<open>Domains\<close>

definition domain_under :: "string \<Rightarrow> string \<Rightarrow> bool" where
  "domain_under s d \<longleftrightarrow> (\<exists>p x. s = p @ CHR ''.'' # x \<and> strcaseeq x d)"

lemma domain_under_Cons:
  "domain_under (c # s) d \<longleftrightarrow> (c = CHR ''.'' \<and> strcaseeq s d) \<or> domain_under s d"
  unfolding domain_under_def by (simp add: Cons_eq_append_conv ex_disj_distrib conj_disj_distribR) blast

lemma parent_domain_under: "parent_domain d s \<longleftrightarrow> domain_under s d"
  by (induction s) (simp_all add: domain_under_Cons, simp add: domain_under_def)

lemma strchr_split: "c \<notin> set u \<Longrightarrow> strchr (u @ c # s) c = Some (c # s)"
  by (induction u) auto

lemma domain_under_at: "domain_under (CHR ''@'' # s) d \<longleftrightarrow> domain_under s d"
  by (simp add: domain_under_Cons)


text \<open>The address the check looks at: "i=" decoded, or "@" and the domain.\<close>

definition signer_addr :: "dkim_set \<Rightarrow> string \<Rightarrow> string" where
  "signer_addr st d =
    (case dkim_param_get st ''i'' of None \<Rightarrow> CHR ''@'' # d | Some i \<Rightarrow> qp_cstr i (MAXADDRESS + 1))"

lemma domainok_result:
  assumes "dkim_param_get st ''d'' = Some d" "signer_addr st d = u @ CHR ''@'' # host" "CHR ''@'' \<notin> set u"
    "length d < MAXADDRESS"
  shows "dkim_sig_domainok dk st =
    (strcaseeq host d \<or> domain_under host d,
     if domain_under host d \<and> \<not> strcaseeq host d then dk\<lparr>dkim_subdomain := True\<rparr> else dk)"
proof -
  have "strchr (case dkim_param_get st ''i'' of None \<Rightarrow> strlcpy (CHR ''@'' # d) (MAXADDRESS + 1)
      | Some i \<Rightarrow> qp_cstr i (MAXADDRESS + 1)) CHR ''@'' = Some (CHR ''@'' # host)"
  proof (cases "dkim_param_get st ''i''")
    case None
    then have "u = [] \<and> host = d"
      using assms(2,3) by (cases u) (simp_all add: signer_addr_def)
    then show ?thesis using None assms(4) by (simp add: strlcpy_id)
  next
    case (Some i)
    then show ?thesis using assms(2,3) by (simp add: signer_addr_def strchr_split)
  qed
  then show ?thesis
    using assms(1) by (simp add: dkim_sig_domainok_def parent_domain_under domain_under_at)
qed

text \<open>
  C28: "i=" must be in the signing domain: with the address split at its first "@", the check passes
  exactly when the host equals "d=" or ends in a dot and "d=" (both without regard to case), and
  the handle is marked exactly in the second case; an address without "@" never passes, and without
  "i=" every domain does.
\<close>
theorem sig_domainok_spec:
  assumes "dkim_param_get st ''d'' = Some d" "length d < MAXADDRESS"
  shows "(\<forall>u host. signer_addr st d = u @ CHR ''@'' # host \<and> CHR ''@'' \<notin> set u \<longrightarrow>
      dkim_sig_domainok dk st =
        (strcaseeq host d \<or> (\<exists>p x. host = p @ CHR ''.'' # x \<and> strcaseeq x d),
         if (\<exists>p x. host = p @ CHR ''.'' # x \<and> strcaseeq x d) \<and> \<not> strcaseeq host d
         then dk\<lparr>dkim_subdomain := True\<rparr> else dk)) \<and>
    (CHR ''@'' \<notin> set (signer_addr st d) \<longrightarrow> dkim_sig_domainok dk st = (False, dk)) \<and>
    (dkim_param_get st ''i'' = None \<longrightarrow> dkim_sig_domainok dk st = (True, dk))"
proof (intro conjI allI impI)
  fix u host
  assume "signer_addr st d = u @ CHR ''@'' # host \<and> CHR ''@'' \<notin> set u"
  then show "dkim_sig_domainok dk st =
        (strcaseeq host d \<or> (\<exists>p x. host = p @ CHR ''.'' # x \<and> strcaseeq x d),
         if (\<exists>p x. host = p @ CHR ''.'' # x \<and> strcaseeq x d) \<and> \<not> strcaseeq host d
         then dk\<lparr>dkim_subdomain := True\<rparr> else dk)"
    using domainok_result [OF assms(1) _ _ assms(2)] by (simp add: domain_under_def)
next
  assume "CHR ''@'' \<notin> set (signer_addr st d)"
  then show "dkim_sig_domainok dk st = (False, dk)"
    using assms strchr_None [of "signer_addr st d" "CHR ''@''"]
    by (auto simp: dkim_sig_domainok_def signer_addr_def strlcpy_id split: option.splits)
next
  assume "dkim_param_get st ''i'' = None"
  then show "dkim_sig_domainok dk st = (True, dk)"
    using assms domainok_result [OF assms(1), where u = "[]" and host = d] by (simp add: signer_addr_def)
qed

definition sig_set_of :: "(string \<times> string) list \<Rightarrow> dkim_set" where
  "sig_set_of pl = \<lparr>set_bad = False, set_type = DKIM_SETTYPE_SIGNATURE, set_udata = None, set_plist = pl\<rparr>"

lemma sig_domainok_spec_witness:
  "dkim_sig_domainok (dkim_zero lib0) (sig_set_of [(''d'', ''ex.org'')]) = (True, dkim_zero lib0)"
proof -
  have "dkim_param_get (sig_set_of [(''d'', ''ex.org'')]) ''d'' = Some ''ex.org''"
    "dkim_param_get (sig_set_of [(''d'', ''ex.org'')]) ''i'' = None"
    by (simp_all add: sig_set_of_def dkim_param_get_def)
  then show ?thesis
    using sig_domainok_spec [of "sig_set_of [(''d'', ''ex.org'')]" "''ex.org''" "dkim_zero lib0"] by simp
qed

subsection \<open>Times\<close>

text \<open>A tag's number, as a natural number.\<close>

definition tag_time :: "dkim_set \<Rightarrow> string \<Rightarrow> nat option" where
  "tag_time st n = map_option (unat \<circ> ull) (dkim_param_get st n)"

text \<open>
  C29: the three checks of the times, on natural numbers below \<open>2^64\<close>: a signature has expired when
  the clock has reached "x=" plus the drift, modulo \<open>2^64\<close>; it is from the future when its "t="
  minus the drift lies ahead, where a "t=" smaller than the drift wraps around to the far future;
  and "t=" must be less than "x=" when both are given.
\<close>
theorem sig_times_spec:
  "(dkim_sig_expired e st drift \<longleftrightarrow>
      (\<exists>x. tag_time st ''x'' = Some x \<and> (x + unat drift) mod 2 ^ 64 \<le> unat (now_ull e))) \<and>
   (dkim_sig_future e st drift \<longleftrightarrow>
      (\<exists>t. tag_time st ''t'' = Some t \<and>
        (if unat drift \<le> t then unat (now_ull e) < t - unat drift else unat (now_ull e) < 2 ^ 64 - (unat drift - t)))) \<and>
   (dkim_sig_timestampsok st \<longleftrightarrow>
      (\<nexists>t x. tag_time st ''t'' = Some t \<and> tag_time st ''x'' = Some x \<and> x \<le> t))"
proof (intro conjI)
  show "dkim_sig_expired e st drift \<longleftrightarrow>
      (\<exists>x. tag_time st ''x'' = Some x \<and> (x + unat drift) mod 2 ^ 64 \<le> unat (now_ull e))"
    by (simp add: dkim_sig_expired_def tag_time_def word_le_nat_alt unat_word_ariths split: option.splits)
  show "dkim_sig_timestampsok st \<longleftrightarrow>
      (\<nexists>t x. tag_time st ''t'' = Some t \<and> tag_time st ''x'' = Some x \<and> x \<le> t)"
    by (auto simp: dkim_sig_timestampsok_def tag_time_def word_less_nat_alt split: option.splits)
  have "unat (now_ull e) < unat (w - drift) \<longleftrightarrow>
      (if unat drift \<le> unat w then unat (now_ull e) < unat w - unat drift
       else unat (now_ull e) < 2 ^ 64 - (unat drift - unat w))" for w :: "64 word"
    by (auto simp: unat_sub_if_size word_size)
  then show "dkim_sig_future e st drift \<longleftrightarrow>
      (\<exists>t. tag_time st ''t'' = Some t \<and>
        (if unat drift \<le> t then unat (now_ull e) < t - unat drift else unat (now_ull e) < 2 ^ 64 - (unat drift - t)))"
    by (cases "dkim_param_get st ''t''") (simp_all add: dkim_sig_future_def tag_time_def word_less_nat_alt)
qed

text \<open>A signature of the first five minutes of 1970 is refused as coming from the future.\<close>

lemma sig_future_wraps: "dkim_sig_future env0 (sig_set_of [(''t'', ''5'')]) 300"
  by (simp add: dkim_sig_future_def sig_set_of_def dkim_param_get_def ull_def dkim_strtoull_def now_ull_def
      env0_def cctype)

subsection \<open>Header fields\<close>

lemma get_header_loop_filter:
  "get_header_loop name len inst i hs =
    (let is = filter (\<lambda>k. hdr_namelen (hs ! (k - i)) = len \<and> strncaseeq (hdr_text (hs ! (k - i))) name len)
                [i ..< i + length hs]
     in if inst < length is then Some (is ! inst) else None)"
proof (induction hs arbitrary: i inst)
  case (Cons h hs)
  let ?P = "\<lambda>k. hdr_namelen ((h # hs) ! (k - i)) = len \<and> strncaseeq (hdr_text ((h # hs) ! (k - i))) name len"
  have "filter ?P [Suc i ..< i + length (h # hs)] =
      filter (\<lambda>k. hdr_namelen (hs ! (k - Suc i)) = len \<and> strncaseeq (hdr_text (hs ! (k - Suc i))) name len)
        [Suc i ..< Suc i + length hs]"
    by (intro filter_cong) (auto simp: nth_Cons' Suc_diff_Suc)
  moreover have "[i ..< i + length (h # hs)] = i # [Suc i ..< i + length (h # hs)]"
    by (rule upt_conv_Cons) simp
  ultimately show ?case
    using Cons.IH by (cases inst) (simp_all add: Let_def del: upt_Suc upt.simps)
qed simp

text \<open>The first field of a name, when its length is not given.\<close>

lemma get_header_first:
  "name \<noteq> [] \<Longrightarrow> dkim_get_header d name 0 0 = None \<longleftrightarrow>
    (\<forall>h\<in>set (dkim_hdrs d). \<not> (hdr_namelen h = length name \<and> strncaseeq (hdr_text h) name (length name)))"
  unfolding dkim_get_header_def get_header_loop_filter Let_def
  by (simp add: filter_empty_conv) (metis atLeastLessThan_iff in_set_conv_nth zero_le)

end
