(* ===== verification/Dkim_Canon_Buffer.thy ===== *)
theory Dkim_Canon_Buffer
  imports Dkim_Types
begin

text \<open>
  The output side of a canonicalization in \<open>dkim-canon.c\<close>: \<open>dkim_canon_write\<close> feeds bytes to the
  hash up to the length limit \<open>canon_remain\<close>, \<open>dkim_canon_buffer\<close> collects small writes in
  \<open>canon_hashbuf\<close> first.

  The locale \<open>byte_sink\<close> is the contract the canonicalization algorithms rely on: what reaches the
  hash is the concatenation of what was put, cut at the limit, whatever the sizes of the pieces. It
  is interpreted on \<open>dkim_canon_buffer\<close>. The view of a sink is what its hash will hold once it is
  flushed, the bytes written and the bytes remaining.
\<close>

subsection \<open>The code\<close>

definition dkim_canon_write :: "canon \<Rightarrow> string \<Rightarrow> canon" where
  "dkim_canon_write canon buf =
    (let remain = nat (canon_remain canon mod 2 ^ 64);
         buflen = (if canon_remain canon \<noteq> -1
                   then (if length buf < remain then length buf else remain) else length buf) in
     if buflen = 0 then canon
     else
       (let canon = (if canon_hashtype canon = DKIM_HASHTYPE_SHA1 \<or> canon_hashtype canon = DKIM_HASHTYPE_SHA256
                     then canon\<lparr>canon_hash := canon_hash canon @ take buflen buf\<rparr> else canon);
            canon = canon\<lparr>canon_wrote := canon_wrote canon + buflen\<rparr> in
        if canon_remain canon \<noteq> -1
        then canon\<lparr>canon_remain := canon_remain canon - int buflen\<rparr> else canon))"

text \<open>An empty \<open>buf\<close> (NULL, or length 0) means flush.\<close>

definition dkim_canon_buffer :: "canon \<Rightarrow> string \<Rightarrow> canon" where
  "dkim_canon_buffer canon buf =
    (if buf = [] then
       (if length (canon_hashbuf canon) > 0
        then (dkim_canon_write canon (canon_hashbuf canon))\<lparr>canon_hashbuf := []\<rparr> else canon)
     else
       (let canon = (if length (canon_hashbuf canon) + length buf > canon_hashbufsize canon
                     then (dkim_canon_write canon (canon_hashbuf canon))\<lparr>canon_hashbuf := []\<rparr>
                     else canon) in
        if length buf \<ge> canon_hashbufsize canon then dkim_canon_write canon buf
        else canon\<lparr>canon_hashbuf := canon_hashbuf canon @ buf\<rparr>))"

subsection \<open>The view of a canonicalization\<close>

record sink_view =
  sv_hash :: string
  sv_wrote :: nat
  sv_remain :: int

definition sv_put :: "sink_view \<Rightarrow> string \<Rightarrow> sink_view" where
  "sv_put v s =
    (let n = (if sv_remain v = -1 then length s else min (length s) (nat (sv_remain v))) in
     \<lparr>sv_hash = sv_hash v @ take n s, sv_wrote = sv_wrote v + n,
      sv_remain = (if sv_remain v = -1 then -1 else sv_remain v - int n)\<rparr>)"

definition canon_wf :: "canon \<Rightarrow> bool" where
  "canon_wf c \<longleftrightarrow> canon_hashtype c \<in> {DKIM_HASHTYPE_SHA1, DKIM_HASHTYPE_SHA256} \<and>
     -1 \<le> canon_remain c \<and> canon_remain c < 2 ^ 63 \<and>
     length (canon_hashbuf c) \<le> canon_hashbufsize c"

definition canon_raw :: "canon \<Rightarrow> sink_view" where
  "canon_raw c = \<lparr>sv_hash = canon_hash c, sv_wrote = canon_wrote c, sv_remain = canon_remain c\<rparr>"

definition canon_view :: "canon \<Rightarrow> sink_view" where
  "canon_view c = sv_put (canon_raw c) (canon_hashbuf c)"

definition sv_ok :: "sink_view \<Rightarrow> bool" where
  "sv_ok v \<longleftrightarrow> -1 \<le> sv_remain v"

lemma sv_put_Nil [simp]: "sv_put v [] = v"
  by (cases v) (simp add: sv_put_def)

lemma sv_put_ok: "sv_ok v \<Longrightarrow> sv_ok (sv_put v s)"
  by (auto simp: sv_ok_def sv_put_def Let_def)

lemma sv_put_append: "sv_ok v \<Longrightarrow> sv_put (sv_put v s) t = sv_put v (s @ t)"
proof (cases "sv_remain v = -1")
  case False
  assume "sv_ok v"
  with False have r: "0 \<le> sv_remain v" by (simp add: sv_ok_def)
  then obtain k where k: "sv_remain v = int k" using nonneg_int_cases by blast
  have eq: "int k - int (min (length s) k) = int (k - length s)" by auto
  show ?thesis unfolding sv_put_def Let_def
    by (simp add: k eq) (auto simp: min_def)
qed (simp add: sv_put_def)

lemma sv_put_limit:
  "sv_hash (sv_put v s) = sv_hash v @ (if sv_remain v = -1 then s else take (nat (sv_remain v)) s)"
  by (auto simp: sv_put_def Let_def min_def)

lemma canon_raw_ok: "canon_wf c \<Longrightarrow> sv_ok (canon_raw c)"
  by (simp add: canon_wf_def sv_ok_def canon_raw_def)

lemma canon_view_ok: "canon_wf c \<Longrightarrow> sv_ok (canon_view c)"
  by (simp add: canon_view_def sv_put_ok canon_raw_ok)

lemma write_raw:
  assumes "canon_wf c"
  shows "canon_raw (dkim_canon_write c s) = sv_put (canon_raw c) s"
proof -
  have "canon_remain c \<noteq> -1 \<Longrightarrow> canon_remain c mod 2 ^ 64 = canon_remain c"
    using assms by (simp add: canon_wf_def)
  then show ?thesis
    using assms
    by (auto simp: dkim_canon_write_def sv_put_def canon_raw_def canon_wf_def Let_def min_def)
qed

lemma write_fields [simp]:
  "canon_hashbuf (dkim_canon_write c s) = canon_hashbuf c"
  "canon_hashbufsize (dkim_canon_write c s) = canon_hashbufsize c"
  "canon_hashtype (dkim_canon_write c s) = canon_hashtype c"
  "canon_done (dkim_canon_write c s) = canon_done c"
  "canon_hdr (dkim_canon_write c s) = canon_hdr c"
  "canon_blankline (dkim_canon_write c s) = canon_blankline c"
  "canon_lastchar (dkim_canon_write c s) = canon_lastchar c"
  "canon_blanks (dkim_canon_write c s) = canon_blanks c"
  "canon_length (dkim_canon_write c s) = canon_length c"
  "canon_canon (dkim_canon_write c s) = canon_canon c"
  "canon_hdrlist (dkim_canon_write c s) = canon_hdrlist c"
  "canon_sigheader (dkim_canon_write c s) = canon_sigheader c"
  by (simp_all add: dkim_canon_write_def Let_def)

lemma write_hashbuf_update:
  "dkim_canon_write (c\<lparr>canon_hashbuf := b\<rparr>) s = (dkim_canon_write c s)\<lparr>canon_hashbuf := b\<rparr>"
  by (simp add: dkim_canon_write_def Let_def)

lemma raw_hashbuf_update [simp]: "canon_raw (c\<lparr>canon_hashbuf := b\<rparr>) = canon_raw c"
  by (simp add: canon_raw_def)

lemma write_remain_bounds: "canon_wf c \<Longrightarrow> -1 \<le> canon_remain (dkim_canon_write c s) \<and>
    canon_remain (dkim_canon_write c s) < 2 ^ 63"
proof -
  assume wf: "canon_wf c"
  have "canon_remain (dkim_canon_write c s) = sv_remain (sv_put (canon_raw c) s)"
    unfolding write_raw [OF wf, symmetric] by (simp add: canon_raw_def)
  then show ?thesis
    using wf by (auto simp: sv_put_def Let_def canon_raw_def canon_wf_def)
qed

lemma write_wf: "canon_wf c \<Longrightarrow> canon_wf (dkim_canon_write c s)"
  using write_remain_bounds [of c s] by (simp add: canon_wf_def)

lemma buffer_fields [simp]:
  "canon_hashbufsize (dkim_canon_buffer c s) = canon_hashbufsize c"
  "canon_hashtype (dkim_canon_buffer c s) = canon_hashtype c"
  "canon_done (dkim_canon_buffer c s) = canon_done c"
  "canon_hdr (dkim_canon_buffer c s) = canon_hdr c"
  "canon_blankline (dkim_canon_buffer c s) = canon_blankline c"
  "canon_lastchar (dkim_canon_buffer c s) = canon_lastchar c"
  "canon_blanks (dkim_canon_buffer c s) = canon_blanks c"
  "canon_length (dkim_canon_buffer c s) = canon_length c"
  "canon_canon (dkim_canon_buffer c s) = canon_canon c"
  "canon_hdrlist (dkim_canon_buffer c s) = canon_hdrlist c"
  "canon_sigheader (dkim_canon_buffer c s) = canon_sigheader c"
  by (simp_all add: dkim_canon_buffer_def Let_def)

lemma flush_wf: "canon_wf c \<Longrightarrow> canon_wf ((dkim_canon_write c s)\<lparr>canon_hashbuf := []\<rparr>)"
  using write_wf [of c s] by (simp add: canon_wf_def)

lemma buffer_wf: "canon_wf c \<Longrightarrow> canon_wf (dkim_canon_buffer c s)"
proof -
  assume wf: "canon_wf c"
  have "canon_wf (c\<lparr>canon_hashbuf := b\<rparr>)" if "length b \<le> canon_hashbufsize c" for b
    using wf that by (simp add: canon_wf_def)
  moreover have "canon_wf ((dkim_canon_write c t)\<lparr>canon_hashbuf := s\<rparr>)" if "length s \<le> canon_hashbufsize c" for t
    using write_wf [OF wf, of t] that by (simp add: canon_wf_def)
  ultimately show ?thesis
    using wf by (auto simp: dkim_canon_buffer_def Let_def write_wf flush_wf)
qed

lemma buffer_view:
  assumes wf: "canon_wf c"
  shows "canon_view (dkim_canon_buffer c s) = sv_put (canon_view c) s"
proof -
  note app = sv_put_append [OF canon_raw_ok [OF wf]]
  have raw2: "canon_raw (dkim_canon_write ((dkim_canon_write c (canon_hashbuf c))\<lparr>canon_hashbuf := []\<rparr>) s)
      = sv_put (canon_raw c) (canon_hashbuf c @ s)"
    using write_raw [OF flush_wf [OF wf]] write_raw [OF wf] by (simp add: app)
  consider (flush) "s = []" | (fits) "s \<noteq> []" "length (canon_hashbuf c) + length s \<le> canon_hashbufsize c"
    | (big) "s \<noteq> []" "length (canon_hashbuf c) + length s > canon_hashbufsize c"
    by linarith
  then show ?thesis
  proof cases
    case flush
    then show ?thesis by (simp add: dkim_canon_buffer_def canon_view_def write_raw [OF wf])
  next
    case fits
    show ?thesis
    proof (cases "length s \<ge> canon_hashbufsize c")
      case True
      then have "length (canon_hashbuf c) = 0" using fits(2) by linarith
      then have "canon_hashbuf c = []" by simp
      with fits True show ?thesis
        by (simp add: dkim_canon_buffer_def canon_view_def write_raw [OF wf])
    next
      case False
      with fits show ?thesis by (simp add: dkim_canon_buffer_def canon_view_def app)
    qed
  next
    case big
    then show ?thesis
      using raw2 write_raw [OF wf, of "canon_hashbuf c"]
      by (simp add: dkim_canon_buffer_def canon_view_def app Let_def)
  qed
qed

lemma flush_view:
  "canon_wf c \<Longrightarrow> canon_raw (dkim_canon_buffer c []) = canon_view c \<and> canon_hashbuf (dkim_canon_buffer c []) = []"
  by (auto simp: dkim_canon_buffer_def canon_view_def write_raw)

subsection \<open>The contract\<close>

locale byte_sink =
  fixes wf :: "'c \<Rightarrow> bool" and view :: "'c \<Rightarrow> sink_view" and put :: "'c \<Rightarrow> string \<Rightarrow> 'c"
  assumes put_wf: "wf c \<Longrightarrow> wf (put c s)"
    and put_view: "wf c \<Longrightarrow> view (put c s) = sv_put (view c) s"
    and view_ok: "wf c \<Longrightarrow> sv_ok (view c)"
begin

lemma puts_wf: "wf c \<Longrightarrow> wf (foldl put c ss)"
  by (induction ss arbitrary: c) (auto intro: put_wf)

lemma puts_view: "wf c \<Longrightarrow> view (foldl put c ss) = sv_put (view c) (concat ss)"
  by (induction ss arbitrary: c) (auto simp: put_wf put_view sv_put_append view_ok)

lemma puts_split: "wf c \<Longrightarrow> concat ss = concat ts \<Longrightarrow> view (foldl put c ss) = view (foldl put c ts)"
  by (simp add: puts_view)

lemma put_put: "wf c \<Longrightarrow> view (put (put c s) t) = sv_put (view c) (s @ t)"
  by (simp add: put_wf put_view sv_put_append view_ok)

end

interpretation cb: byte_sink canon_wf canon_view dkim_canon_buffer
  by unfold_locales (auto intro: buffer_wf buffer_view canon_view_ok)

text \<open>
  C13: buffering is transparent and the length limit exact: however the canonical bytes are cut into
  writes, after the final flush the hash has received their concatenation, cut at \<open>canon_remain\<close> when
  a limit is set, and nothing is left in the buffer.
\<close>
theorem canon_buffer_transparent:
  assumes "canon_wf c" "canon_hashbuf c = []"
  shows "canon_hash (dkim_canon_buffer (foldl dkim_canon_buffer c ss) []) =
     canon_hash c @ (if canon_remain c = -1 then concat ss else take (nat (canon_remain c)) (concat ss)) \<and>
   canon_hashbuf (dkim_canon_buffer (foldl dkim_canon_buffer c ss) []) = []"
proof -
  let ?c = "foldl dkim_canon_buffer c ss"
  have wf: "canon_wf ?c" by (rule cb.puts_wf [OF assms(1)])
  have "canon_hash (dkim_canon_buffer ?c []) = sv_hash (canon_raw (dkim_canon_buffer ?c []))"
    by (simp add: canon_raw_def)
  also have "\<dots> = sv_hash (sv_put (canon_view c) (concat ss))"
    using flush_view [OF wf] cb.puts_view [OF assms(1)] by simp
  finally show ?thesis
    using flush_view [OF wf] assms(2) by (simp add: sv_put_limit canon_view_def canon_raw_def)
qed

definition canon0 :: canon where
  "canon0 = \<lparr>canon_done = False, canon_hdr = False, canon_blankline = False, canon_lastchar = NUL,
    canon_hashtype = 1, canon_blanks = 0, canon_hashbuf = [], canon_hashbufsize = 4096,
    canon_remain = 12, canon_wrote = 0, canon_length = 12, canon_canon = 0, canon_hdrlist = None,
    canon_hash = [], canon_sigheader = None\<rparr>"

lemma canon_buffer_transparent_witness:
  "canon_hash (dkim_canon_buffer (foldl dkim_canon_buffer canon0 [''abc'', CRLF, ''0123456789'']) []) = ''abc'' @ CRLF @ ''0123456''"
  using canon_buffer_transparent [of canon0 "[''abc'', CRLF, ''0123456789'']"]
  by (simp add: canon_wf_def canon0_def)

end
