(* ===== verification/Dkim_Canon_Body.thy ===== *)
theory Dkim_Canon_Body
  imports Dkim_Canon_Buffer
begin

text \<open>
  Body canonicalization in \<open>dkim-canon.c\<close>: \<open>dkim_canon_bodychunk\<close> runs one chunk of the body
  through every body canonicalization, \<open>dkim_canon_closebody\<close> finishes them.

  A chunk is the string \<open>start\<close>, the pointers \<open>p\<close> and \<open>wrote\<close> are indices into it, and \<open>wlen\<close> is the
  count kept beside \<open>wrote\<close>. The state that survives from chunk to chunk is in the record \<open>canon\<close>:
  the last byte, whether the line so far is blank, and the blank lines held back.

  The byte automata \<open>simple_abs\<close> and \<open>relaxed_abs\<close> say what each byte does to the canonical text,
  with no chunks, pointers or buffers; the two loops are proved to simulate them on bodies whose
  CR and LF only occur as CRLF, which gives that the result does not depend on the chunks. The
  automata are then proved equal to a specification on lists of lines.
\<close>

subsection \<open>The loops\<close>

definition DKIM_ISLWSP :: "byte \<Rightarrow> bool" where
  [cctype]: "DKIM_ISLWSP c \<longleftrightarrow> ord c = 9 \<or> ord c = 11 \<or> ord c = 12 \<or> ord c = 32"

definition dkim_canon_flushblanks :: "canon \<Rightarrow> canon" where
  "dkim_canon_flushblanks canon =
    (((\<lambda>c. dkim_canon_buffer c CRLF) ^^ canon_blanks canon) canon)\<lparr>canon_blanks := 0\<rparr>"

record body_state =
  bs_canon :: canon
  bs_wrote :: nat
  bs_wlen :: nat

definition substr :: "string \<Rightarrow> nat \<Rightarrow> nat \<Rightarrow> string" where
  "substr s i n = take n (drop i s)"

text \<open>A line feed, the same in both loops.\<close>

definition body_newline :: "string \<Rightarrow> nat \<Rightarrow> body_state \<Rightarrow> body_state" where
  "body_newline start p st =
    (let c = bs_canon st in
     if canon_lastchar c = CR then
       (let c = (if canon_blankline c then c\<lparr>canon_blanks := canon_blanks c + 1\<rparr>
                 else if bs_wlen st = 1 \<or> p = 0 then dkim_canon_buffer c CRLF
                 else dkim_canon_buffer c (substr start (bs_wrote st) (bs_wlen st + 1))) in
        \<lparr>bs_canon = c\<lparr>canon_blankline := True\<rparr>, bs_wrote = p + 1, bs_wlen = 0\<rparr>)
     else st)"

text \<open>A carriage return that ended the previous chunk and turns out to stand alone.\<close>

definition body_lone_cr :: "bool \<Rightarrow> nat \<Rightarrow> canon \<Rightarrow> canon" where
  "body_lone_cr fixcrlf p c =
    (if p = 0 \<and> canon_lastchar c = CR then
       (if fixcrlf then (dkim_canon_buffer c CRLF)\<lparr>canon_lastchar := LF, canon_blankline := True\<rparr>
        else dkim_canon_buffer c [CR])
     else c)"

definition flush_if_blanks :: "canon \<Rightarrow> canon" where
  "flush_if_blanks c = (if canon_blanks c > 0 then dkim_canon_flushblanks c else c)"

definition body_simple :: "bool \<Rightarrow> string \<Rightarrow> nat \<Rightarrow> body_state \<Rightarrow> body_state" where
  "body_simple fixcrlf start p st =
    (let x = start ! p;
         st = (if x = LF then body_newline start p st
               else
                 (let c = body_lone_cr fixcrlf p (bs_canon st);
                      c = (if x \<noteq> CR then (flush_if_blanks c)\<lparr>canon_blankline := False\<rparr> else c) in
                  st\<lparr>bs_canon := c, bs_wlen := bs_wlen st + 1\<rparr>)) in
     st\<lparr>bs_canon := (bs_canon st)\<lparr>canon_lastchar := x\<rparr>\<rparr>)"

definition body_relaxed :: "bool \<Rightarrow> string \<Rightarrow> nat \<Rightarrow> body_state \<Rightarrow> body_state" where
  "body_relaxed fixcrlf start p st =
    (let x = start ! p;
         st = (if x = LF then body_newline start p st
               else
                 (let c = body_lone_cr fixcrlf p (bs_canon st) in
                  if DKIM_ISLWSP (canon_lastchar c) \<and> \<not> DKIM_ISLWSP x \<and> x \<noteq> CR then
                    \<lparr>bs_canon = (dkim_canon_buffer (flush_if_blanks c) [SPACE])\<lparr>canon_blankline := False\<rparr>,
                     bs_wrote = p, bs_wlen = 1\<rparr>
                  else if \<not> DKIM_ISLWSP (canon_lastchar c) \<and> DKIM_ISLWSP x then
                    \<lparr>bs_canon = dkim_canon_buffer (flush_if_blanks c)
                       (substr start (bs_wrote st) (bs_wlen st)),
                     bs_wrote = p + 1, bs_wlen = 0\<rparr>
                  else if DKIM_ISLWSP (canon_lastchar c) \<and> DKIM_ISLWSP x then
                    st\<lparr>bs_canon := c\<rparr>
                  else
                    (let wlen = bs_wlen st + 1 in
                     st\<lparr>bs_canon := (if canon_blankline c \<and> (wlen > 1 \<or> x \<noteq> CR)
                                    then (flush_if_blanks c)\<lparr>canon_blankline := False\<rparr> else c),
                        bs_wlen := wlen\<rparr>))) in
     st\<lparr>bs_canon := (bs_canon st)\<lparr>canon_lastchar := x\<rparr>\<rparr>)"

text \<open>One canonicalization over one chunk: the loop, then what is left of \<open>wrote\<close>, less a final CR.\<close>

definition body_loop :: "(nat \<Rightarrow> body_state \<Rightarrow> body_state) \<Rightarrow> nat \<Rightarrow> canon \<Rightarrow> body_state" where
  "body_loop step n c = fold step [0..<n] \<lparr>bs_canon = c, bs_wrote = 0, bs_wlen = 0\<rparr>"

definition canon_chunk :: "bool \<Rightarrow> string \<Rightarrow> canon \<Rightarrow> canon" where
  "canon_chunk fixcrlf start c =
    (let step = (if canon_canon c = DKIM_CANON_SIMPLE then body_simple else body_relaxed);
         st = body_loop (step fixcrlf start) (length start) c;
         wlen = bs_wlen st;
         wlen = (if wlen > 0 \<and> start ! (bs_wrote st + wlen - 1) = CR then wlen - 1 else wlen) in
     dkim_canon_buffer (bs_canon st) (substr start (bs_wrote st) wlen))"

text \<open>
  \<open>dkim_canon_fixcrlf\<close>: the chunk with solitary CRs and LFs replaced by CRLF, in \<open>dkim_canonbuf\<close>.
  The results of the appends are ignored, as in the code.
\<close>

fun fixcrlf_loop :: "(nat \<Rightarrow> bool) \<Rightarrow> byte \<Rightarrow> string \<Rightarrow> dstring \<Rightarrow> dstring" where
  "fixcrlf_loop mk prev [] d = d"
| "fixcrlf_loop mk prev (x # p) d =
    fixcrlf_loop mk x p
      (if x = LF \<and> prev \<noteq> CR then snd (dkim_dstring_catn mk d CRLF 2)
       else if x = CR then
         (if p \<noteq> [] \<and> hd p \<noteq> LF then snd (dkim_dstring_catn mk d CRLF 2) else snd (dkim_dstring_cat1 mk d x))
       else snd (dkim_dstring_cat1 mk d x))"

definition dkim_canon_fixcrlf :: "env \<Rightarrow> dkim \<Rightarrow> canon \<Rightarrow> string \<Rightarrow> int \<times> dkim" where
  "dkim_canon_fixcrlf env dkim canon buf =
    (case (case dkim_canonbuf dkim of
             None \<Rightarrow> dkim_dstring_new (env_malloc env) (int (length buf)) 0
           | Some d \<Rightarrow> Some (dkim_dstring_blank d)) of
       None \<Rightarrow> (DKIM_STAT_NORESOURCE, dkim)
     | Some d \<Rightarrow>
         (DKIM_STAT_OK,
          dkim\<lparr>dkim_canonbuf := Some (fixcrlf_loop (env_malloc env) (canon_lastchar canon) buf d)\<rparr>))"

fun bodychunk_canons :: "env \<Rightarrow> bool \<Rightarrow> string \<Rightarrow> dkim \<Rightarrow> canon list \<Rightarrow> int \<times> dkim \<times> canon list" where
  "bodychunk_canons env fixcrlf buf dkim [] = (DKIM_STAT_OK, dkim, [])"
| "bodychunk_canons env fixcrlf buf dkim (cur # next) =
    (if canon_done cur \<or> canon_hdr cur \<or> canon_remain cur = 0 then
       (let (st, dkim, next) = bodychunk_canons env fixcrlf buf dkim next in (st, dkim, cur # next))
     else
       (let (st, dkim) = (if fixcrlf then dkim_canon_fixcrlf env dkim cur buf else (DKIM_STAT_OK, dkim)) in
        if st \<noteq> DKIM_STAT_OK then (st, dkim, cur # next)
        else
          (let start = (if fixcrlf then ds_content (the (dkim_canonbuf dkim)) else buf);
               cur = canon_chunk fixcrlf start cur;
               (st, dkim, next) = bodychunk_canons env fixcrlf buf dkim next in
           (st, dkim, cur # next))))"

definition dkim_canon_bodychunk :: "env \<Rightarrow> dkim \<Rightarrow> string \<Rightarrow> int \<times> dkim" where
  "dkim_canon_bodychunk env dkim buf =
    (let dkim = dkim\<lparr>dkim_bodylen := dkim_bodylen dkim + length buf\<rparr>;
         fixcrlf = (lib_flag dkim DKIM_LIBFLAGS_FIXCRLF \<and> dkim_mode dkim = DKIM_MODE_SIGN);
         (st, dkim, canons) = bodychunk_canons env fixcrlf buf dkim (dkim_canons dkim) in
     (st, dkim\<lparr>dkim_canons := canons\<rparr>))"

text \<open>Finishing: the digest is taken of the bytes in \<open>canon_hash\<close> once \<open>canon_done\<close> is set.\<close>

definition canon_close :: "canon \<Rightarrow> canon" where
  "canon_close cur =
    (if canon_done cur \<or> canon_hdr cur then cur
     else
       (let cur = (if canon_canon cur = DKIM_CANON_SIMPLE \<and> canon_wrote cur = 0
                   then dkim_canon_buffer cur CRLF else cur) in
        (dkim_canon_buffer cur [])\<lparr>canon_done := True\<rparr>))"

definition dkim_canon_closebody :: "dkim \<Rightarrow> int \<times> dkim" where
  "dkim_canon_closebody dkim =
    (DKIM_STAT_OK, dkim\<lparr>dkim_canons := map canon_close (dkim_canons dkim)\<rparr>)"

subsection \<open>The byte automata\<close>

record abs_state =
  a_last :: byte
  a_bl :: bool
  a_bk :: nat
  a_out :: string

definition crlfs :: "nat \<Rightarrow> string" where
  "crlfs n = concat (replicate n CRLF)"

lemma crlfs_0 [simp]: "crlfs 0 = []"
  by (simp add: crlfs_def)

lemma crlfs_Suc: "crlfs (Suc n) = CRLF @ crlfs n"
  by (simp add: crlfs_def)

lemma crlfs_Suc': "crlfs (Suc n) = crlfs n @ CRLF"
  unfolding crlfs_def by (induction n) auto

definition abs_newline :: "abs_state \<Rightarrow> abs_state" where
  "abs_newline a =
    (if a_bl a then a\<lparr>a_bk := a_bk a + 1, a_last := LF\<rparr>
     else a\<lparr>a_out := a_out a @ CRLF, a_bl := True, a_last := LF\<rparr>)"

definition simple_abs :: "abs_state \<Rightarrow> byte \<Rightarrow> abs_state" where
  "simple_abs a x =
    (if x = LF then abs_newline a
     else if x = CR then a\<lparr>a_last := CR\<rparr>
     else \<lparr>a_last = x, a_bl = False, a_bk = 0, a_out = a_out a @ crlfs (a_bk a) @ [x]\<rparr>)"

definition relaxed_abs :: "abs_state \<Rightarrow> byte \<Rightarrow> abs_state" where
  "relaxed_abs a x =
    (if x = LF then abs_newline a
     else if x = CR then a\<lparr>a_last := CR\<rparr>
     else if DKIM_ISLWSP x then
       (if DKIM_ISLWSP (a_last a) then a\<lparr>a_last := x\<rparr>
        else a\<lparr>a_last := x, a_bk := 0, a_out := a_out a @ crlfs (a_bk a)\<rparr>)
     else \<lparr>a_last = x, a_bl = False, a_bk = 0,
            a_out = a_out a @ crlfs (a_bk a) @ (if DKIM_ISLWSP (a_last a) then [SPACE] else []) @ [x]\<rparr>)"

text \<open>CR and LF only as CRLF: each LF follows a CR and each CR is followed by an LF.\<close>

fun crlf_pairs :: "byte \<Rightarrow> string \<Rightarrow> bool" where
  "crlf_pairs prev [] = True"
| "crlf_pairs prev (x # s) = ((x = LF \<longleftrightarrow> prev = CR) \<and> crlf_pairs x s)"

lemma crlf_pairs_append:
  "crlf_pairs prev (s @ t) \<longleftrightarrow> crlf_pairs prev s \<and> crlf_pairs (if s = [] then prev else last s) t"
  by (induction s arbitrary: prev) auto

lemma crlf_pairs_nth:
  "crlf_pairs prev t \<Longrightarrow> p < length t \<Longrightarrow> t ! p = LF \<longleftrightarrow> (if p = 0 then prev else t ! (p - 1)) = CR"
proof (induction t arbitrary: prev p)
  case (Cons x t)
  then show ?case by (cases p) (auto simp: nth_Cons' split: if_splits)
qed simp

subsection \<open>Simulation\<close>

definition pend :: "string \<Rightarrow> body_state \<Rightarrow> byte \<Rightarrow> string" where
  "pend t st l = substr t (bs_wrote st) (if l = CR \<and> bs_wlen st > 0 then bs_wlen st - 1 else bs_wlen st)"

definition same_fields :: "canon \<Rightarrow> abs_state \<Rightarrow> bool" where
  "same_fields c a \<longleftrightarrow> canon_wf c \<and> canon_lastchar c = a_last a \<and> canon_blankline c = a_bl a \<and>
     canon_blanks c = a_bk a \<and> (0 < a_bk a \<longrightarrow> a_bl a)"

definition sim :: "sink_view \<Rightarrow> string \<Rightarrow> nat \<Rightarrow> body_state \<Rightarrow> abs_state \<Rightarrow> bool" where
  "sim v t p st a \<longleftrightarrow> same_fields (bs_canon st) a \<and> p \<le> length t \<and> sv_ok v \<and>
     (0 < p \<longrightarrow> a_last a = t ! (p - 1)) \<and> bs_wrote st + bs_wlen st \<le> p \<and>
     (\<exists>pre. canon_view (bs_canon st) = sv_put v pre \<and> a_out a = pre @ pend t st (a_last a)) \<and>
     (a_bl a \<longrightarrow> pend t st (a_last a) = []) \<and>
     (a_last a = CR \<longrightarrow> p = 0 \<or> 1 \<le> bs_wlen st)"

text \<open>Simple: \<open>wrote\<close> and \<open>wlen\<close> always delimit the text up to \<open>p\<close>.\<close>

definition sim_simple :: "sink_view \<Rightarrow> string \<Rightarrow> nat \<Rightarrow> body_state \<Rightarrow> abs_state \<Rightarrow> bool" where
  "sim_simple v t p st a \<longleftrightarrow> sim v t p st a \<and> bs_wrote st + bs_wlen st = p"

text \<open>Relaxed: they do unless the bytes before \<open>p\<close> are white space, or white space and a CR.\<close>

definition sim_relaxed :: "sink_view \<Rightarrow> string \<Rightarrow> nat \<Rightarrow> body_state \<Rightarrow> abs_state \<Rightarrow> bool" where
  "sim_relaxed v t p st a \<longleftrightarrow> sim v t p st a \<and>
     (DKIM_ISLWSP (a_last a) \<longrightarrow> bs_wlen st = 0) \<and>
     (\<not> DKIM_ISLWSP (a_last a) \<longrightarrow> bs_wrote st + bs_wlen st = p \<or> (a_last a = CR \<and> bs_wlen st = 1))"

lemma not_lwsp [simp]: "\<not> DKIM_ISLWSP CR" "\<not> DKIM_ISLWSP LF"
  by (simp_all add: DKIM_ISLWSP_def)

lemma canon_update_view [simp]:
  "canon_view (c\<lparr>canon_lastchar := x\<rparr>) = canon_view c"
  "canon_view (c\<lparr>canon_blankline := b\<rparr>) = canon_view c"
  "canon_view (c\<lparr>canon_blanks := n\<rparr>) = canon_view c"
  "canon_view (c\<lparr>canon_done := b\<rparr>) = canon_view c"
  by (simp_all add: canon_view_def canon_raw_def)

lemma canon_update_wf [simp]:
  "canon_wf (c\<lparr>canon_lastchar := x\<rparr>) = canon_wf c"
  "canon_wf (c\<lparr>canon_blankline := b\<rparr>) = canon_wf c"
  "canon_wf (c\<lparr>canon_blanks := n\<rparr>) = canon_wf c"
  "canon_wf (c\<lparr>canon_done := b\<rparr>) = canon_wf c"
  by (simp_all add: canon_wf_def)

lemma buffer_pow:
  "canon_wf c \<Longrightarrow> canon_wf (((\<lambda>c. dkim_canon_buffer c s) ^^ n) c) \<and>
   canon_view (((\<lambda>c. dkim_canon_buffer c s) ^^ n) c) = sv_put (canon_view c) (concat (replicate n s))"
proof (induction n)
  case (Suc n)
  have "concat (replicate n s) @ s = concat (replicate (Suc n) s)"
    by (induction n) auto
  with Suc show ?case by (simp add: cb.put_wf cb.put_view sv_put_append canon_view_ok)
qed simp

lemma buffer_pow_fields [simp]:
  "canon_blankline (((\<lambda>c. dkim_canon_buffer c s) ^^ n) c) = canon_blankline c"
  "canon_lastchar (((\<lambda>c. dkim_canon_buffer c s) ^^ n) c) = canon_lastchar c"
  "canon_canon (((\<lambda>c. dkim_canon_buffer c s) ^^ n) c) = canon_canon c"
  "canon_hdr (((\<lambda>c. dkim_canon_buffer c s) ^^ n) c) = canon_hdr c"
  "canon_done (((\<lambda>c. dkim_canon_buffer c s) ^^ n) c) = canon_done c"
  by (induction n) auto

lemma flush_if_blanks_view:
  "canon_wf c \<Longrightarrow> canon_wf (flush_if_blanks c) \<and>
   canon_view (flush_if_blanks c) = sv_put (canon_view c) (crlfs (canon_blanks c)) \<and>
   canon_blanks (flush_if_blanks c) = 0"
  using buffer_pow [of c "canon_blanks c" CRLF]
  by (auto simp: flush_if_blanks_def dkim_canon_flushblanks_def crlfs_def)

lemma flush_if_blanks_fields [simp]:
  "canon_blankline (flush_if_blanks c) = canon_blankline c"
  "canon_lastchar (flush_if_blanks c) = canon_lastchar c"
  by (auto simp: flush_if_blanks_def dkim_canon_flushblanks_def)

lemma substr_0 [simp]: "substr t i 0 = []"
  by (simp add: substr_def)

lemma substr_extend: "i + n < length t \<Longrightarrow> substr t i (Suc n) = substr t i n @ [t ! (i + n)]"
  by (simp add: substr_def take_Suc_conv_app_nth add.commute)

text \<open>The line feed, for both loops.\<close>

lemma sim_newline:
  assumes "sim v t p st a" "p < length t" "t ! p = LF" "a_last a = CR"
    and full: "bs_wrote st + bs_wlen st = p \<or> bs_wlen st = 1"
  defines "st' \<equiv> body_newline t p st"
  shows "sim v t (p + 1) (st'\<lparr>bs_canon := (bs_canon st')\<lparr>canon_lastchar := LF\<rparr>\<rparr>) (abs_newline a)
    \<and> bs_wrote st' + bs_wlen st' = p + 1 \<and> bs_wlen st' = 0"
proof -
  let ?c = "bs_canon st"
  obtain pre where pre: "canon_view ?c = sv_put v pre" "a_out a = pre @ pend t st CR"
    using assms(1,4) by (auto simp: sim_def)
  have f: "canon_wf ?c" "canon_lastchar ?c = CR" "canon_blankline ?c = a_bl a" "canon_blanks ?c = a_bk a"
    "0 < a_bk a \<longrightarrow> a_bl a" "sv_ok v" "p = 0 \<or> 1 \<le> bs_wlen st" "bs_wrote st + bs_wlen st \<le> p"
    "a_bl a \<longrightarrow> pend t st CR = []"
    using assms(1,4) by (auto simp: sim_def same_fields_def)
  note put = cb.put_wf [OF f(1)] cb.put_view [OF f(1)] pre(1) sv_put_append [OF f(6)]
  consider (blank) "a_bl a" | (short) "\<not> a_bl a" "bs_wlen st = 1 \<or> p = 0"
    | (long) "\<not> a_bl a" "\<not> (bs_wlen st = 1 \<or> p = 0)" by blast
  then show ?thesis
  proof cases
    case blank
    then show ?thesis
      using f pre assms(2,3)
      by (auto simp: st'_def body_newline_def Let_def sim_def same_fields_def abs_newline_def pend_def)
  next
    case short
    then have "pend t st CR = []" using f(8) by (auto simp: pend_def)
    with short show ?thesis
      using f pre(2) assms(2,3) put
      by (auto simp: st'_def body_newline_def Let_def sim_def same_fields_def abs_newline_def pend_def
          intro!: exI [of _ "pre @ CRLF"])
  next
    case long
    then have w: "bs_wrote st + bs_wlen st = p" "0 < p" "2 \<le> bs_wlen st" using full f(7) by auto
    then have cr: "t ! (p - 1) = CR" using assms(1,4) by (auto simp: sim_def)
    obtain k where k: "bs_wlen st = Suc k" using w(3) by (cases "bs_wlen st") auto
    have "substr t (bs_wrote st) (bs_wlen st + 1) = pend t st CR @ CRLF"
      using w k cr assms(2,3) by (auto simp: pend_def substr_extend)
    with long show ?thesis
      using f pre(2) assms(2,3) put
      by (auto simp: st'_def body_newline_def Let_def sim_def same_fields_def abs_newline_def pend_def
          intro!: exI [of _ "pre @ pend t st CR @ CRLF"])
  qed
qed

lemma lone_cr_id: "canon_lastchar c \<noteq> CR \<Longrightarrow> body_lone_cr fixcrlf p c = c"
  by (simp add: body_lone_cr_def)

lemma body_simple_byte:
  assumes "sim_simple v t p st a" "p < length t" "t ! p = LF \<longleftrightarrow> a_last a = CR"
  shows "sim_simple v t (p + 1) (body_simple fixcrlf t p st) (simple_abs a (t ! p))"
proof -
  have s: "sim v t p st a" and w: "bs_wrote st + bs_wlen st = p" using assms(1) by (auto simp: sim_simple_def)
  show ?thesis
  proof (cases "t ! p = LF")
    case True
    then show ?thesis
      using sim_newline [OF s assms(2) True] assms(3) w
      by (simp add: body_simple_def simple_abs_def sim_simple_def Let_def)
  next
    case False
    let ?c = "bs_canon st"
    obtain pre where pre: "canon_view ?c = sv_put v pre" "a_out a = pre @ pend t st (a_last a)"
      using s by (auto simp: sim_def)
    have f: "canon_wf ?c" "canon_lastchar ?c = a_last a" "canon_blankline ?c = a_bl a" "canon_blanks ?c = a_bk a"
      "0 < a_bk a \<longrightarrow> a_bl a" "sv_ok v" "a_last a \<noteq> CR" "a_bl a \<longrightarrow> pend t st (a_last a) = []"
      using s assms(3) False by (auto simp: sim_def same_fields_def)
    have pend: "pend t st (a_last a) = substr t (bs_wrote st) (bs_wlen st)" using f(7) by (simp add: pend_def)
    note ext = substr_extend [of "bs_wrote st" "bs_wlen st" t, unfolded w, OF assms(2)]
    note fl = flush_if_blanks_view [OF f(1)]
    show ?thesis
    proof (cases "t ! p = CR")
      case True
      then show ?thesis
        using f pre assms(2) w pend
        by (auto simp: body_simple_def simple_abs_def sim_simple_def sim_def same_fields_def lone_cr_id pend_def)
    next
      case no_cr: False
      have out: "a_out a @ crlfs (a_bk a) @ [t ! p] = (pre @ crlfs (a_bk a)) @ substr t (bs_wrote st) (bs_wlen st) @ [t ! p]"
        using pre(2) f(5,8) pend by (cases "a_bk a = 0") auto
      have view: "canon_view (flush_if_blanks ?c) = sv_put v (pre @ crlfs (a_bk a))"
        using fl f(4) pre(1) sv_put_append [OF f(6)] by simp
      show ?thesis
        using no_cr False f fl assms(2) w out view
        by (auto simp: body_simple_def simple_abs_def sim_simple_def sim_def same_fields_def lone_cr_id pend_def ext
            Let_def intro!: exI [of _ "pre @ crlfs (a_bk a)"])
    qed
  qed
qed

lemma pend_Nil_0: "bs_wlen st = 0 \<Longrightarrow> pend t st l = []"
  by (simp add: pend_def)

lemma body_relaxed_byte:
  assumes "sim_relaxed v t p st a" "p < length t" "t ! p = LF \<longleftrightarrow> a_last a = CR"
  shows "sim_relaxed v t (p + 1) (body_relaxed fixcrlf t p st) (relaxed_abs a (t ! p))"
proof -
  have s: "sim v t p st a" and w0: "DKIM_ISLWSP (a_last a) \<longrightarrow> bs_wlen st = 0"
    and w: "\<not> DKIM_ISLWSP (a_last a) \<longrightarrow> bs_wrote st + bs_wlen st = p \<or> (a_last a = CR \<and> bs_wlen st = 1)"
    using assms(1) by (auto simp: sim_relaxed_def)
  show ?thesis
  proof (cases "t ! p = LF")
    case True
    have "bs_wrote st + bs_wlen st = p \<or> bs_wlen st = 1" using w assms(3) True by auto
    from sim_newline [OF s assms(2) True _ this] show ?thesis
      using assms(3) True
      by (simp add: body_relaxed_def relaxed_abs_def sim_relaxed_def Let_def)
  next
    case False
    let ?c = "bs_canon st"
    let ?x = "t ! p"
    obtain pre where pre: "canon_view ?c = sv_put v pre" "a_out a = pre @ pend t st (a_last a)"
      using s by (auto simp: sim_def)
    have f: "canon_wf ?c" "canon_lastchar ?c = a_last a" "canon_blankline ?c = a_bl a" "canon_blanks ?c = a_bk a"
      "0 < a_bk a \<longrightarrow> a_bl a" "sv_ok v" "a_last a \<noteq> CR" "a_bl a \<longrightarrow> pend t st (a_last a) = []"
      "bs_wrote st + bs_wlen st \<le> p"
      using s assms(3) False by (auto simp: sim_def same_fields_def)
    have pend: "pend t st (a_last a) = substr t (bs_wrote st) (bs_wlen st)" using f(7) by (simp add: pend_def)
    have fl: "canon_wf (flush_if_blanks ?c)" "canon_blanks (flush_if_blanks ?c) = 0"
      "canon_view (flush_if_blanks ?c) = sv_put v (pre @ crlfs (a_bk a))"
      using flush_if_blanks_view [OF f(1)] f(4) pre(1) sv_put_append [OF f(6)] by simp_all
    note put = cb.put_wf [OF fl(1)] cb.put_view [OF fl(1)] fl sv_put_append [OF f(6)]
    note defs = body_relaxed_def relaxed_abs_def sim_relaxed_def sim_def same_fields_def lone_cr_id
    consider (cr) "?x = CR" | (sp1) "?x \<noteq> CR" "DKIM_ISLWSP ?x" "\<not> DKIM_ISLWSP (a_last a)"
      | (sp2) "?x \<noteq> CR" "DKIM_ISLWSP ?x" "DKIM_ISLWSP (a_last a)"
      | (word) "?x \<noteq> CR" "\<not> DKIM_ISLWSP ?x" "DKIM_ISLWSP (a_last a)"
      | (more) "?x \<noteq> CR" "\<not> DKIM_ISLWSP ?x" "\<not> DKIM_ISLWSP (a_last a)" by blast
    then show ?thesis
    proof cases
      case cr
      have "a_bl a \<Longrightarrow> bs_wlen st = 0"
      proof (cases "DKIM_ISLWSP (a_last a)")
        case False
        assume "a_bl a"
        then have "length (substr t (bs_wrote st) (bs_wlen st)) = 0" using f(8) pend by simp
        then show ?thesis using w False f(7) assms(2) by (auto simp: substr_def)
      qed (use w0 in simp)
      then show ?thesis
        using cr f pre assms(2) w w0 pend
        by (auto simp: defs pend_def Let_def)
    next
      case sp1
      have out: "a_out a @ crlfs (a_bk a) = pre @ crlfs (a_bk a) @ substr t (bs_wrote st) (bs_wlen st)"
        using pre(2) f(5,8) pend by (cases "a_bk a = 0") auto
      show ?thesis
        using sp1 False f put assms(2) out
        by (auto simp: defs pend_def Let_def)
    next
      case sp2
      then show ?thesis
        using False f pre assms(2) w0 pend
        by (auto simp: defs pend_def Let_def)
    next
      case word
      then have "a_out a = pre" using pre w0 by (simp add: pend_def)
      then show ?thesis
        using word False f put assms(2)
        by (auto simp: defs pend_def Let_def substr_def take_Suc_conv_app_nth
            intro!: exI [of _ "pre @ crlfs (a_bk a) @ [SPACE]"])
    next
      case more
      then have full: "bs_wrote st + bs_wlen st = p" using w f(7) by simp
      note ext = substr_extend [of "bs_wrote st" "bs_wlen st" t, unfolded full, OF assms(2)]
      have out: "a_out a @ crlfs (a_bk a) @ [?x] = (pre @ crlfs (a_bk a)) @ substr t (bs_wrote st) (bs_wlen st) @ [?x]"
        using pre(2) f(5,8) pend by (cases "a_bk a = 0") auto
      show ?thesis
      proof (cases "a_bl a")
        case True
        then show ?thesis
          using more False f fl assms(2) out full ext
          by (auto simp: defs pend_def Let_def intro!: exI [of _ "pre @ crlfs (a_bk a)"])
      next
        case not_bl: False
        then have "a_bk a = 0" using f(5) by simp
        then show ?thesis
          using not_bl more False f assms(2) out full ext pre(1)
          by (auto simp: defs pend_def Let_def)
      qed
    qed
  qed
qed

subsection \<open>Chunks\<close>

definition abs_run :: "(abs_state \<Rightarrow> byte \<Rightarrow> abs_state) \<Rightarrow> abs_state \<Rightarrow> string \<Rightarrow> abs_state" where
  "abs_run step a s = foldl step a s"

definition abs_step :: "int \<Rightarrow> abs_state \<Rightarrow> byte \<Rightarrow> abs_state" where
  "abs_step alg = (if alg = DKIM_CANON_SIMPLE then simple_abs else relaxed_abs)"

lemma abs_step_last: "a_last (abs_step alg a x) = x"
  by (auto simp: abs_step_def simple_abs_def relaxed_abs_def abs_newline_def)

lemma abs_step_out: "\<exists>s. a_out (abs_step alg a x) = a_out a @ s"
  by (auto simp: abs_step_def simple_abs_def relaxed_abs_def abs_newline_def)

lemma abs_run_Nil [simp]: "abs_run f a [] = a"
  by (simp add: abs_run_def)

lemma abs_run_append [simp]: "abs_run f a (s @ t) = abs_run f (abs_run f a s) t"
  by (simp add: abs_run_def)

lemma abs_run_Cons [simp]: "abs_run f a (x # t) = abs_run f (f a x) t"
  by (simp add: abs_run_def)

lemma abs_run_last: "a_last (abs_run (abs_step alg) a s) = (if s = [] then a_last a else last s)"
  by (induction s rule: rev_induct) (auto simp: abs_step_last)

lemma abs_run_out: "\<exists>t. a_out (abs_run (abs_step alg) a s) = a_out a @ t"
proof (induction s rule: rev_induct)
  case (snoc x s)
  then show ?case
    using abs_step_out [of alg "abs_run (abs_step alg) a s" x] by auto
qed simp

definition rel_body :: "sink_view \<Rightarrow> canon \<Rightarrow> abs_state \<Rightarrow> bool" where
  "rel_body v c a \<longleftrightarrow> same_fields c a \<and> sv_ok v \<and> canon_view c = sv_put v (a_out a)"

lemma loop_sim:
  assumes rel: "rel_body v c a" and wf: "crlf_pairs (a_last a) t" and n: "n \<le> length t"
  defines "alg \<equiv> canon_canon c"
  shows "(if alg = DKIM_CANON_SIMPLE then sim_simple else sim_relaxed) v t n
     (body_loop ((if alg = DKIM_CANON_SIMPLE then body_simple else body_relaxed) fixcrlf t) n c)
     (abs_run (abs_step alg) a (take n t))"
  using n
proof (induction n)
  case 0
  then show ?case
    using rel by (auto simp: rel_body_def sim_simple_def sim_relaxed_def sim_def body_loop_def pend_def)
next
  case (Suc n)
  have last: "a_last (abs_run (abs_step alg) a (take n t)) = (if n = 0 then a_last a else t ! (n - 1))"
    using Suc.prems by (auto simp: abs_run_last last_conv_nth)
  have lf: "t ! n = LF \<longleftrightarrow> a_last (abs_run (abs_step alg) a (take n t)) = CR"
    using crlf_pairs_nth [OF wf, of n] Suc.prems last by auto
  have take: "take (Suc n) t = take n t @ [t ! n]"
    using Suc.prems by (simp add: take_Suc_conv_app_nth)
  have step: "body_loop f (Suc n) c = f n (body_loop f n c)" for f
    by (simp add: body_loop_def)
  show ?case
    using Suc.IH Suc.prems lf body_simple_byte [of v t n] body_relaxed_byte [of v t n]
    unfolding take step abs_run_append by (auto simp: abs_step_def)
qed

text \<open>
  One chunk. For relaxed, a chunk that ends between the CR and the LF of a line with two or more
  trailing spaces is excluded.
\<close>

lemma canon_chunk_end:
  assumes rel: "rel_body v c a" and wf: "crlf_pairs (a_last a) t"
    and cut: "canon_canon c \<noteq> DKIM_CANON_SIMPLE \<Longrightarrow> t \<noteq> [] \<Longrightarrow> last t \<noteq> CR"
  defines "b \<equiv> abs_run (abs_step (canon_canon c)) a t"
  shows "\<exists>st. sim v t (length t) st b \<and>
    canon_chunk fixcrlf t c = dkim_canon_buffer (bs_canon st) (pend t st (a_last b))"
proof -
  define alg where "alg = canon_canon c"
  define st where "st = body_loop ((if alg = DKIM_CANON_SIMPLE then body_simple else body_relaxed) fixcrlf t) (length t) c"
  have sim': "(if alg = DKIM_CANON_SIMPLE then sim_simple else sim_relaxed) v t (length t) st b"
    using loop_sim [OF rel wf, of "length t" fixcrlf] by (simp add: alg_def st_def b_def)
  then have sim: "sim v t (length t) st b" by (auto simp: sim_simple_def sim_relaxed_def split: if_splits)
  have last: "t \<noteq> [] \<Longrightarrow> a_last b = last t" by (simp add: b_def abs_run_last)
  let ?w = "bs_wlen st"
  have pend: "substr t (bs_wrote st) (if ?w > 0 \<and> t ! (bs_wrote st + ?w - 1) = CR then ?w - 1 else ?w) = pend t st (a_last b)"
  proof (cases "?w = 0")
    case True then show ?thesis by (simp add: pend_def)
  next
    case w: False
    then have ne: "t \<noteq> []" using sim by (auto simp: sim_def)
    show ?thesis
    proof (cases "bs_wrote st + ?w = length t")
      case True
      then have "t ! (bs_wrote st + ?w - 1) = a_last b" using last ne by (simp add: last_conv_nth)
      then show ?thesis using w by (auto simp: pend_def)
    next
      case False
      then have "alg \<noteq> DKIM_CANON_SIMPLE" using sim' by (auto simp: sim_simple_def)
      with False w sim' have "a_last b = CR" by (auto simp: sim_relaxed_def)
      with cut last ne \<open>alg \<noteq> DKIM_CANON_SIMPLE\<close> show ?thesis by (simp add: alg_def)
    qed
  qed
  have chunk: "canon_chunk fixcrlf t c = dkim_canon_buffer (bs_canon st) (pend t st (a_last b))"
    unfolding canon_chunk_def Let_def pend [symmetric] by (simp add: st_def alg_def)
  then show ?thesis using sim by blast
qed

lemma canon_chunk_sim:
  assumes rel: "rel_body v c a" and wf: "crlf_pairs (a_last a) t"
    and cut: "canon_canon c \<noteq> DKIM_CANON_SIMPLE \<Longrightarrow> t \<noteq> [] \<Longrightarrow> last t \<noteq> CR"
  defines "b \<equiv> abs_run (abs_step (canon_canon c)) a t"
  shows "rel_body v (canon_chunk fixcrlf t c) b"
    and "a_bl b \<Longrightarrow> canon_hashbuf (canon_chunk fixcrlf t c) = []"
proof -
  obtain st where sim: "sim v t (length t) st b"
    and chunk: "canon_chunk fixcrlf t c = dkim_canon_buffer (bs_canon st) (pend t st (a_last b))"
    using canon_chunk_end [OF rel wf cut] b_def by blast
  then obtain pre where "canon_view (bs_canon st) = sv_put v pre" "a_out b = pre @ pend t st (a_last b)"
    by (auto simp: sim_def)
  moreover have f: "same_fields (bs_canon st) b" "sv_ok v" "a_bl b \<longrightarrow> pend t st (a_last b) = []"
    using sim by (auto simp: sim_def)
  ultimately show "rel_body v (canon_chunk fixcrlf t c) b"
    unfolding rel_body_def chunk by (auto simp: same_fields_def cb.put_wf cb.put_view sv_put_append)
  show "canon_hashbuf (canon_chunk fixcrlf t c) = []" if "a_bl b"
    using flush_view [of "bs_canon st"] f that chunk by (simp add: same_fields_def)
qed

definition kept :: "canon \<Rightarrow> bool \<times> bool \<times> int \<times> int \<times> int" where
  "kept c = (canon_done c, canon_hdr c, canon_canon c, canon_hashtype c, canon_length c)"

lemma kept_buffer [simp]: "kept (dkim_canon_buffer c s) = kept c"
  by (simp add: kept_def)

lemma kept_update [simp]:
  "kept (c\<lparr>canon_lastchar := x\<rparr>) = kept c" "kept (c\<lparr>canon_blankline := b\<rparr>) = kept c"
  "kept (c\<lparr>canon_blanks := n\<rparr>) = kept c"
  by (simp_all add: kept_def)

lemma kept_flush [simp]: "kept (flush_if_blanks c) = kept c"
proof -
  have "kept (((\<lambda>c. dkim_canon_buffer c s) ^^ n) c) = kept c" for n s
    by (induction n) auto
  then show ?thesis by (simp add: flush_if_blanks_def dkim_canon_flushblanks_def)
qed

lemma kept_newline [simp]: "kept (bs_canon (body_newline t p st)) = kept (bs_canon st)"
  by (simp add: body_newline_def Let_def)

lemma kept_lone_cr [simp]: "kept (body_lone_cr f p c) = kept c"
  by (simp add: body_lone_cr_def)

lemma kept_simple: "kept (bs_canon (body_simple f t p st)) = kept (bs_canon st)"
  by (simp add: body_simple_def Let_def)

lemma kept_relaxed: "kept (bs_canon (body_relaxed f t p st)) = kept (bs_canon st)"
  by (simp add: body_relaxed_def Let_def)

lemma kept_chunk [simp]: "kept (canon_chunk f t c) = kept c"
proof -
  have "kept (bs_canon (body_loop step n c)) = kept c"
    if "\<And>p st. kept (bs_canon (step p st)) = kept (bs_canon st)" for step n
    using that by (induction n) (auto simp: body_loop_def)
  then show ?thesis
    by (simp add: canon_chunk_def Let_def kept_simple kept_relaxed)
qed

subsection \<open>The whole body\<close>

text \<open>What \<open>dkim_canon_bodychunk\<close> does to one body canonicalization over the chunks of a body.\<close>

definition canon_feed :: "bool \<Rightarrow> canon \<Rightarrow> string \<Rightarrow> canon" where
  "canon_feed fixcrlf c t =
    (if canon_done c \<or> canon_hdr c \<or> canon_remain c = 0 then c else canon_chunk fixcrlf t c)"

definition rel_feed :: "sink_view \<Rightarrow> canon \<Rightarrow> abs_state \<Rightarrow> bool" where
  "rel_feed v c a \<longleftrightarrow>
     (rel_body v c a \<and> canon_remain c \<noteq> 0) \<or>
     (canon_wf c \<and> sv_ok v \<and> canon_view c = sv_put v (a_out a) \<and> canon_remain c = 0)"

lemma view_full: "canon_wf c \<Longrightarrow> canon_remain c = 0 \<Longrightarrow> sv_put (canon_view c) s = canon_view c"
  by (simp add: canon_view_def canon_raw_def sv_put_def)

lemma rel_body_feed: "rel_body v c a \<Longrightarrow> rel_feed v c a"
  by (auto simp: rel_body_def rel_feed_def same_fields_def)

lemma feed_sim:
  assumes "rel_feed v c a" "\<not> canon_done c" "\<not> canon_hdr c"
    "canon_remain c \<noteq> 0 \<Longrightarrow> crlf_pairs (a_last a) t"
    "canon_canon c \<noteq> DKIM_CANON_SIMPLE \<Longrightarrow> t \<noteq> [] \<Longrightarrow> last t \<noteq> CR"
  shows "rel_feed v (canon_feed f c t) (abs_run (abs_step (canon_canon c)) a t) \<and>
    kept (canon_feed f c t) = kept c"
proof (cases "canon_remain c = 0")
  case True
  obtain s where s: "a_out (abs_run (abs_step (canon_canon c)) a t) = a_out a @ s" using abs_run_out by blast
  have c: "canon_wf c" "sv_ok v" "canon_view c = sv_put v (a_out a)"
    using assms(1) True by (auto simp: rel_feed_def)
  have "sv_put v (a_out a @ s) = canon_view c"
    using view_full [OF c(1) True, of s] c(3) sv_put_append [OF c(2), of "a_out a" s] by simp
  then show ?thesis using True c s by (simp add: canon_feed_def rel_feed_def)
next
  case False
  then have rel: "rel_body v c a" using assms(1) by (auto simp: rel_feed_def)
  show ?thesis
    using canon_chunk_sim(1) [OF rel assms(4,5), of f] False assms(2,3)
    by (simp add: canon_feed_def rel_body_feed)
qed

lemma feeds_sim:
  assumes "rel_feed v c a" "\<not> canon_done c" "\<not> canon_hdr c" "crlf_pairs (a_last a) (concat ts)"
    "canon_canon c \<noteq> DKIM_CANON_SIMPLE \<Longrightarrow> \<forall>t\<in>set ts. t \<noteq> [] \<longrightarrow> last t \<noteq> CR"
  shows "rel_feed v (foldl (canon_feed f) c ts) (abs_run (abs_step (canon_canon c)) a (concat ts)) \<and>
    kept (foldl (canon_feed f) c ts) = kept c"
  using assms
proof (induction ts arbitrary: c a)
  case (Cons t ts)
  have t: "crlf_pairs (a_last a) t"
    and ts: "crlf_pairs (a_last (abs_run (abs_step (canon_canon c)) a t)) (concat ts)"
    using Cons.prems(4) by (auto simp: crlf_pairs_append abs_run_last)
  have 1: "rel_feed v (canon_feed f c t) (abs_run (abs_step (canon_canon c)) a t)" "kept (canon_feed f c t) = kept c"
    using feed_sim [OF Cons.prems(1-3), of t f] t Cons.prems(5) by auto
  then have "canon_canon (canon_feed f c t) = canon_canon c" "\<not> canon_done (canon_feed f c t)" "\<not> canon_hdr (canon_feed f c t)"
    using Cons.prems(2,3) by (auto simp: kept_def)
  then show ?case
    using Cons.IH [OF 1(1)] ts 1(2) Cons.prems(5) by simp
qed simp

lemma feed_remain_0: "canon_remain c = 0 \<Longrightarrow> canon_feed f c t = c"
  by (simp add: canon_feed_def)

lemma feeds_flushed:
  assumes "rel_feed v c a" "\<not> canon_done c" "\<not> canon_hdr c" "crlf_pairs (a_last a) (concat ts)"
    "canon_canon c \<noteq> DKIM_CANON_SIMPLE \<Longrightarrow> \<forall>t\<in>set ts. t \<noteq> [] \<longrightarrow> last t \<noteq> CR"
    "ts \<noteq> []" "a_bl (abs_run (abs_step (canon_canon c)) a (concat ts))"
  shows "canon_hashbuf (foldl (canon_feed f) c ts) = [] \<or> canon_remain (foldl (canon_feed f) c ts) = 0"
proof -
  obtain us t where ts: "ts = us @ [t]" using assms(6) by (metis rev_exhaust)
  let ?c = "foldl (canon_feed f) c us" and ?a = "abs_run (abs_step (canon_canon c)) a (concat us)"
  have us: "rel_feed v ?c ?a \<and> kept ?c = kept c"
    using assms(4,5) ts by (intro feeds_sim [OF assms(1-3)]) (auto simp: crlf_pairs_append)
  then have k: "canon_canon ?c = canon_canon c" "\<not> canon_done ?c" "\<not> canon_hdr ?c"
    using assms(2,3) by (auto simp: kept_def)
  show ?thesis
  proof (cases "canon_remain ?c = 0")
    case True
    then show ?thesis by (simp add: ts feed_remain_0)
  next
    case False
    then have rel: "rel_body v ?c ?a" using us by (auto simp: rel_feed_def)
    have cp: "crlf_pairs (a_last ?a) t"
      using assms(4) ts by (auto simp: crlf_pairs_append abs_run_last)
    have "canon_hashbuf (canon_chunk f t ?c) = []"
      using assms(5,7) ts k by (intro canon_chunk_sim(2) [OF rel cp]) auto
    then show ?thesis using False k by (simp add: ts canon_feed_def)
  qed
qed

definition limited :: "int \<Rightarrow> string \<Rightarrow> string" where
  "limited n s = (if n = -1 then s else take (nat n) s)"

lemma buffered_hash: "canon_wf c \<Longrightarrow> canon_hash (dkim_canon_buffer c []) = sv_hash (canon_view c)"
proof -
  assume "canon_wf c"
  then have "sv_hash (canon_raw (dkim_canon_buffer c [])) = sv_hash (canon_view c)"
    using flush_view [of c] by simp
  then show ?thesis by (simp add: canon_raw_def)
qed

lemma close_hash:
  assumes c: "canon_wf c" "canon_view c = sv_put v (a_out a)" "\<not> canon_done c" "\<not> canon_hdr c" "sv_ok v"
    and flushed: "canon_hashbuf c = [] \<or> canon_remain c = 0" and out: "a_out a \<noteq> []"
  shows "canon_hash (canon_close c) = sv_hash v @ limited (sv_remain v) (a_out a)"
proof -
  have zero: "canon_wrote c \<noteq> 0 \<or> canon_remain c = 0"
  proof (cases "canon_remain c = 0")
    case False
    then have raw: "canon_raw c = sv_put v (a_out a)" using flushed c(2) by (simp add: canon_view_def)
    have "sv_wrote (sv_put v (a_out a)) \<noteq> 0 \<or> sv_remain (sv_put v (a_out a)) = 0"
      using out c(5) by (auto simp: sv_put_def Let_def sv_ok_def)
    then show ?thesis unfolding raw [symmetric] by (simp add: canon_raw_def)
  qed simp
  have "canon_view (if canon_canon c = DKIM_CANON_SIMPLE \<and> canon_wrote c = 0 then dkim_canon_buffer c CRLF else c)
      = canon_view c"
    using zero view_full [OF c(1)] cb.put_view [OF c(1)] by auto
  moreover have "canon_wf (if canon_canon c = DKIM_CANON_SIMPLE \<and> canon_wrote c = 0 then dkim_canon_buffer c CRLF else c)"
    using c(1) cb.put_wf by auto
  ultimately show ?thesis
    using c by (simp add: canon_close_def Let_def buffered_hash sv_put_limit limited_def)
qed

subsection \<open>The specification on lines\<close>

text \<open>
  RFC 4871, 3.4.3 and 3.4.4: a body is a list of lines. Simple keeps them, relaxed reduces white
  space in each. Empty lines at the end are dropped; the first line is always kept.
\<close>

fun squeeze :: "bool \<Rightarrow> string \<Rightarrow> string" where
  "squeeze sp [] = []"
| "squeeze sp (x # s) =
    (if DKIM_ISLWSP x then squeeze True s else (if sp then [SPACE] else []) @ x # squeeze False s)"

definition reduce_line :: "int \<Rightarrow> string \<Rightarrow> string" where
  "reduce_line alg l = (if alg = DKIM_CANON_SIMPLE then l else squeeze False l)"

definition body_text :: "string list \<Rightarrow> string" where
  "body_text ls = concat (map (\<lambda>l. l @ CRLF) ls)"

definition drop_blank_tail :: "string list \<Rightarrow> string list" where
  "drop_blank_tail ls = rev (dropWhile (\<lambda>l. l = []) (rev ls))"

definition body_spec :: "int \<Rightarrow> string list \<Rightarrow> string" where
  "body_spec alg ls =
    (case map (reduce_line alg) ls of
       [] \<Rightarrow> if alg = DKIM_CANON_SIMPLE then CRLF else []
     | l # ms \<Rightarrow> body_text (l # drop_blank_tail ms))"

definition line_ok :: "int \<Rightarrow> string \<Rightarrow> bool" where
  "line_ok alg l \<longleftrightarrow> CR \<notin> set l \<and> LF \<notin> set l \<and>
     (alg = DKIM_CANON_SIMPLE \<or> l = [] \<or> (\<exists>x\<in>set l. \<not> DKIM_ISLWSP x))"

lemma squeeze_Nil: "squeeze sp s = [] \<longleftrightarrow> (\<forall>x\<in>set s. DKIM_ISLWSP x)"
  by (induction sp s rule: squeeze.induct) auto

lemma simple_run:
  assumes "CR \<notin> set s" "LF \<notin> set s" "s \<noteq> []"
  shows "abs_run simple_abs a s = \<lparr>a_last = last s, a_bl = False, a_bk = 0, a_out = a_out a @ crlfs (a_bk a) @ s\<rparr>"
  using assms(3,1,2)
proof (induction s rule: rev_nonempty_induct)
  case (snoc x s)
  then have "x \<noteq> CR" "x \<noteq> LF" by auto
  with snoc show ?case by (simp add: simple_abs_def [of _ x])
qed (auto simp: simple_abs_def)

lemma relaxed_run0:
  assumes "CR \<notin> set s" "LF \<notin> set s" "a_bk a = 0"
  shows "a_out (abs_run relaxed_abs a s) = a_out a @ squeeze (DKIM_ISLWSP (a_last a)) s \<and>
    a_bk (abs_run relaxed_abs a s) = 0 \<and>
    (a_bl (abs_run relaxed_abs a s) \<longleftrightarrow> a_bl a \<and> (\<forall>x\<in>set s. DKIM_ISLWSP x))"
  using assms
proof (induction s arbitrary: a)
  case (Cons x s)
  have "a_bk (relaxed_abs a x) = 0" "a_last (relaxed_abs a x) = x"
    using Cons.prems by (auto simp: relaxed_abs_def)
  then show ?case
    using Cons.IH [of "relaxed_abs a x"] Cons.prems by (auto simp: relaxed_abs_def)
qed simp

lemma relaxed_run:
  assumes "CR \<notin> set s" "LF \<notin> set s" "s \<noteq> []" "\<not> DKIM_ISLWSP (a_last a)" "\<exists>x\<in>set s. \<not> DKIM_ISLWSP x"
  shows "a_out (abs_run relaxed_abs a s) = a_out a @ crlfs (a_bk a) @ squeeze False s \<and>
    a_bk (abs_run relaxed_abs a s) = 0 \<and> \<not> a_bl (abs_run relaxed_abs a s)"
proof -
  obtain x t where s: "s = x # t" using assms(3) by (cases s) auto
  have "a_bk (relaxed_abs a x) = 0" "a_last (relaxed_abs a x) = x"
    "a_out (relaxed_abs a x) = a_out a @ crlfs (a_bk a) @ (if DKIM_ISLWSP x then [] else [x])"
    "a_bl (relaxed_abs a x) \<longleftrightarrow> a_bl a \<and> DKIM_ISLWSP x"
    using assms s by (auto simp: relaxed_abs_def)
  then show ?thesis
    using relaxed_run0 [of t "relaxed_abs a x"] assms s by auto
qed

lemma newline_run:
  "abs_run (abs_step alg) a CRLF = abs_newline (a\<lparr>a_last := CR\<rparr>)"
  by (simp add: abs_step_def simple_abs_def relaxed_abs_def)

lemma line_run:
  assumes "line_ok alg l" "\<not> DKIM_ISLWSP (a_last a)"
  shows "abs_run (abs_step alg) a (l @ CRLF) =
    (if reduce_line alg l = [] then abs_newline a
     else \<lparr>a_last = LF, a_bl = True, a_bk = 0, a_out = a_out a @ crlfs (a_bk a) @ reduce_line alg l @ CRLF\<rparr>)"
proof (cases "l = []")
  case True
  then show ?thesis by (simp add: reduce_line_def abs_step_def simple_abs_def relaxed_abs_def abs_newline_def)
next
  case False
  have l: "CR \<notin> set l" "LF \<notin> set l" "alg \<noteq> DKIM_CANON_SIMPLE \<Longrightarrow> \<exists>x\<in>set l. \<not> DKIM_ISLWSP x"
    using assms(1) False by (auto simp: line_ok_def)
  then have ne: "reduce_line alg l \<noteq> []" using False by (auto simp: reduce_line_def squeeze_Nil)
  have "a_out (abs_run (abs_step alg) a l) = a_out a @ crlfs (a_bk a) @ reduce_line alg l \<and>
      a_bk (abs_run (abs_step alg) a l) = 0 \<and> \<not> a_bl (abs_run (abs_step alg) a l)"
    using simple_run [OF l(1,2) False, of a] relaxed_run [OF l(1,2) False assms(2)] l(3)
    by (auto simp: abs_step_def reduce_line_def)
  then show ?thesis
    using ne by (simp add: newline_run abs_newline_def del: abs_run_Cons)
qed

lemma drop_blank_tail_snoc:
  "drop_blank_tail (ls @ [l]) = (if l = [] then drop_blank_tail ls else ls @ [l])"
  by (simp add: drop_blank_tail_def)

lemma body_text_append [simp]: "body_text (ls @ ms) = body_text ls @ body_text ms"
  by (simp add: body_text_def)

lemma body_text_Cons [simp]: "body_text (l # ls) = l @ CRLF @ body_text ls"
  by (simp add: body_text_def)

lemma body_text_Nil [simp]: "body_text [] = []"
  by (simp add: body_text_def)

lemma lines_run:
  assumes "\<forall>l\<in>set ls. line_ok alg l" "a_bl a" "a_bk a = 0" "\<not> DKIM_ISLWSP (a_last a)" "b = abs_run (abs_step alg) a (body_text ls)"
  shows "a_out b = a_out a @ body_text (drop_blank_tail (map (reduce_line alg) ls)) \<and>
    a_out b @ crlfs (a_bk b) = a_out a @ body_text (map (reduce_line alg) ls) \<and> a_bl b \<and> \<not> DKIM_ISLWSP (a_last b)"
  using assms(1,5)
proof (induction ls arbitrary: b rule: rev_induct)
  case Nil
  then show ?case using assms(2-4) by (simp add: drop_blank_tail_def)
next
  case (snoc l ls)
  define b' where "b' = abs_run (abs_step alg) a (body_text ls)"
  have IH: "a_out b' = a_out a @ body_text (drop_blank_tail (map (reduce_line alg) ls))"
    "a_out b' @ crlfs (a_bk b') = a_out a @ body_text (map (reduce_line alg) ls)" "a_bl b'"
    "\<not> DKIM_ISLWSP (a_last b')"
    using snoc.IH [OF _ b'_def] snoc.prems(1) by auto
  have "b = abs_run (abs_step alg) b' (l @ CRLF)" using snoc.prems(2) by (simp add: b'_def)
  with line_run [OF _ IH(4), of alg l] snoc.prems(1)
  have b: "b = (if reduce_line alg l = [] then abs_newline b'
     else \<lparr>a_last = LF, a_bl = True, a_bk = 0, a_out = a_out b' @ crlfs (a_bk b') @ reduce_line alg l @ CRLF\<rparr>)"
    by simp
  show ?case
    using IH b by (auto simp: drop_blank_tail_snoc abs_newline_def crlfs_Suc' simp flip: append_assoc)
qed

definition abs_init :: abs_state where
  "abs_init = \<lparr>a_last = NUL, a_bl = False, a_bk = 0, a_out = []\<rparr>"

lemma body_run:
  assumes "\<forall>l\<in>set ls. line_ok alg l" "ls \<noteq> []"
  shows "a_out (abs_run (abs_step alg) abs_init (body_text ls)) = body_spec alg ls \<and>
    a_bl (abs_run (abs_step alg) abs_init (body_text ls))"
proof -
  obtain l ms where ls: "ls = l # ms" using assms(2) by (cases ls) auto
  let ?a = "abs_run (abs_step alg) abs_init (l @ CRLF)"
  have init: "\<not> DKIM_ISLWSP (a_last abs_init)" by (simp add: abs_init_def DKIM_ISLWSP_def)
  have a: "a_out ?a = reduce_line alg l @ CRLF" "a_bl ?a" "a_bk ?a = 0" "a_last ?a = LF"
    using line_run [OF _ init, of alg l] assms(1) ls by (auto simp: abs_init_def abs_newline_def)
  have "abs_run (abs_step alg) abs_init (body_text ls) = abs_run (abs_step alg) ?a (body_text ms)"
    by (simp add: ls)
  then show ?thesis
    using lines_run [of ms alg ?a, OF _ a(2,3) _ refl] assms(1) a ls by (simp add: body_spec_def)
qed

lemma crlf_pairs_line: "CR \<notin> set l \<Longrightarrow> LF \<notin> set l \<Longrightarrow> prev \<noteq> CR \<Longrightarrow> crlf_pairs prev (l @ CRLF)"
proof (induction l arbitrary: prev)
  case (Cons x l)
  have "crlf_pairs x (l @ CRLF)" using Cons.prems by (intro Cons.IH) auto
  moreover have "x \<noteq> LF" using Cons.prems(2) by auto
  ultimately show ?case using Cons.prems(3) by simp
qed simp

lemma crlf_pairs_body: "\<forall>l\<in>set ls. line_ok alg l \<Longrightarrow> prev \<noteq> CR \<Longrightarrow> crlf_pairs prev (body_text ls)"
proof (induction ls arbitrary: prev)
  case (Cons l ls)
  have "crlf_pairs prev (l @ CRLF)" using Cons.prems by (intro crlf_pairs_line) (auto simp: line_ok_def)
  moreover have "crlf_pairs (last (l @ CRLF)) (body_text ls)" using Cons by simp
  ultimately show ?case
    using crlf_pairs_append [of prev "l @ CRLF" "body_text ls"] by simp
qed simp

subsection \<open>Properties\<close>

text \<open>A body canonicalization as \<open>dkim_add_canon\<close> and \<open>dkim_canon_init\<close> leave it.\<close>

definition fresh_body :: "canon \<Rightarrow> bool" where
  "fresh_body c \<longleftrightarrow> \<not> canon_done c \<and> \<not> canon_hdr c \<and> \<not> canon_blankline c \<and> canon_lastchar c = NUL \<and>
     canon_blanks c = 0 \<and> canon_hashbuf c = [] \<and> canon_hash c = [] \<and> canon_wrote c = 0 \<and>
     canon_hashbufsize c = DKIM_HASHBUFSIZE \<and> canon_hashtype c \<in> {DKIM_HASHTYPE_SHA1, DKIM_HASHTYPE_SHA256} \<and>
     canon_canon c \<in> {DKIM_CANON_SIMPLE, DKIM_CANON_RELAXED} \<and> -1 \<le> canon_remain c \<and> canon_remain c < 2 ^ 63"

definition sv_init :: "int \<Rightarrow> sink_view" where
  "sv_init n = \<lparr>sv_hash = [], sv_wrote = 0, sv_remain = n\<rparr>"

lemma fresh_rel: "fresh_body c \<Longrightarrow> rel_feed (sv_init (canon_remain c)) c abs_init"
  by (intro rel_body_feed)
    (auto simp: fresh_body_def rel_body_def same_fields_def abs_init_def canon_wf_def sv_ok_def sv_init_def
      canon_view_def canon_raw_def)

lemma fresh_empty_feed: "fresh_body c \<Longrightarrow> \<forall>t\<in>set ts. t = [] \<Longrightarrow> foldl (canon_feed f) c ts = c"
proof (induction ts)
  case (Cons t ts)
  have "canon_feed f c [] = c"
    using Cons.prems(1) by (auto simp: canon_feed_def canon_chunk_def body_loop_def dkim_canon_buffer_def fresh_body_def)
  then show ?case using Cons by simp
qed simp

lemma close_empty:
  assumes "fresh_body c"
  shows "canon_hash (canon_close c) = limited (canon_remain c) (if canon_canon c = DKIM_CANON_SIMPLE then CRLF else [])"
proof -
  have wf: "canon_wf c" and view: "canon_view c = sv_init (canon_remain c)"
    and f: "\<not> canon_done c" "\<not> canon_hdr c" "canon_wrote c = 0"
    using assms by (auto simp: fresh_body_def canon_wf_def canon_view_def canon_raw_def sv_init_def)
  show ?thesis
    using f buffered_hash [OF wf] buffered_hash [OF cb.put_wf [OF wf], of CRLF] cb.put_view [OF wf, of CRLF] view
    by (simp add: canon_close_def Let_def sv_put_limit limited_def sv_init_def)
qed

lemma body_canon_abs:
  assumes c: "fresh_body c" and pairs: "crlf_pairs NUL (concat ts)"
    and cut: "canon_canon c \<noteq> DKIM_CANON_SIMPLE \<Longrightarrow> \<forall>t\<in>set ts. t \<noteq> [] \<longrightarrow> last t \<noteq> CR"
    and b: "b = abs_run (abs_step (canon_canon c)) abs_init (concat ts)" "a_bl b" "a_out b \<noteq> []"
  shows "canon_hash (canon_close (foldl (canon_feed f) c ts)) = limited (canon_remain c) (a_out b)"
proof -
  let ?c = "foldl (canon_feed f) c ts"
  have nd: "\<not> canon_done c" "\<not> canon_hdr c" using c by (auto simp: fresh_body_def)
  have pairs': "crlf_pairs (a_last abs_init) (concat ts)" using pairs by (simp add: abs_init_def)
  have sim: "rel_feed (sv_init (canon_remain c)) ?c b \<and> kept ?c = kept c"
    using feeds_sim [OF fresh_rel [OF c] nd pairs' cut] b(1) by simp
  have "ts \<noteq> []" using b by (auto simp: abs_init_def)
  then have flushed: "canon_hashbuf ?c = [] \<or> canon_remain ?c = 0"
    using feeds_flushed [OF fresh_rel [OF c] nd pairs' cut, of f] b by simp
  have "canon_wf ?c" "canon_view ?c = sv_put (sv_init (canon_remain c)) (a_out b)" "sv_ok (sv_init (canon_remain c))"
    using sim by (auto simp: rel_feed_def rel_body_def same_fields_def)
  moreover have "\<not> canon_done ?c" "\<not> canon_hdr ?c" using sim nd by (auto simp: kept_def)
  ultimately show ?thesis
    using close_hash [of ?c "sv_init (canon_remain c)" b] flushed b by (simp add: sv_init_def)
qed

lemma body_canon:
  assumes c: "fresh_body c" and ls: "\<forall>l\<in>set ls. line_ok (canon_canon c) l" and ts: "concat ts = body_text ls"
    and cut: "canon_canon c \<noteq> DKIM_CANON_SIMPLE \<Longrightarrow> \<forall>t\<in>set ts. t \<noteq> [] \<longrightarrow> last t \<noteq> CR"
  shows "canon_hash (canon_close (foldl (canon_feed f) c ts)) =
     limited (canon_remain c) (body_spec (canon_canon c) ls)"
proof (cases "ls = []")
  case True
  then have "foldl (canon_feed f) c ts = c" using fresh_empty_feed [OF c] ts by simp
  then show ?thesis
    using close_empty [OF c] True by (simp add: body_spec_def)
next
  case False
  have "crlf_pairs NUL (concat ts)" using crlf_pairs_body [OF ls, of NUL] ts by simp
  moreover have "body_spec (canon_canon c) ls \<noteq> []" using False by (cases ls) (auto simp: body_spec_def)
  ultimately show ?thesis
    using body_canon_abs [OF c _ cut refl] body_run [OF ls False] ts by simp
qed

lemma bodychunk_canons_plain:
  "bodychunk_canons env False buf dkim cs = (DKIM_STAT_OK, dkim, map (\<lambda>c. canon_feed False c buf) cs)"
  by (induction cs) (auto simp: canon_feed_def)

definition plain_body :: "dkim \<Rightarrow> bool" where
  "plain_body dkim \<longleftrightarrow> \<not> (lib_flag dkim DKIM_LIBFLAGS_FIXCRLF \<and> dkim_mode dkim = DKIM_MODE_SIGN)"

lemma bodychunk_plain:
  "plain_body dkim \<Longrightarrow> dkim_canon_bodychunk env dkim buf =
     (DKIM_STAT_OK, dkim\<lparr>dkim_bodylen := dkim_bodylen dkim + length buf,
        dkim_canons := map (\<lambda>c. canon_feed False c buf) (dkim_canons dkim)\<rparr>)"
  by (auto simp: dkim_canon_bodychunk_def plain_body_def Let_def bodychunk_canons_plain)

definition feed_body :: "env \<Rightarrow> dkim \<Rightarrow> string list \<Rightarrow> dkim" where
  "feed_body env dkim ts = foldl (\<lambda>d t. snd (dkim_canon_bodychunk env d t)) dkim ts"

lemma feed_body_canons:
  "plain_body dkim \<Longrightarrow> dkim_canons (feed_body env dkim ts) = map (\<lambda>c. foldl (canon_feed False) c ts) (dkim_canons dkim)"
proof (induction ts arbitrary: dkim)
  case (Cons t ts)
  let ?d = "snd (dkim_canon_bodychunk env dkim t)"
  have "plain_body ?d" using Cons.prems by (simp add: bodychunk_plain) (simp add: plain_body_def)
  then show ?case
    using Cons.IH [of ?d] Cons.prems by (simp add: feed_body_def bodychunk_plain)
qed (simp add: feed_body_def)

lemma body_hash:
  assumes "plain_body dkim" "i < length (dkim_canons dkim)" "dkim_canons dkim ! i = c"
    "fresh_body c" "\<forall>l\<in>set ls. line_ok (canon_canon c) l" "concat ts = body_text ls"
    "canon_canon c \<noteq> DKIM_CANON_SIMPLE \<Longrightarrow> \<forall>t\<in>set ts. t \<noteq> [] \<longrightarrow> last t \<noteq> CR"
  shows "canon_hash (dkim_canons (snd (dkim_canon_closebody (feed_body env dkim ts))) ! i) =
    limited (canon_remain c) (body_spec (canon_canon c) ls)"
  using body_canon [OF assms(4-7)] assms(1-3) by (simp add: dkim_canon_closebody_def feed_body_canons)

text \<open>
  C9: "simple" body canonicalization. For a body of CRLF-terminated lines fed in any chunks, also
  ones that split a CRLF, the hash receives exactly the lines without the empty lines at the end (a
  single CRLF for an empty body), cut at the \<open>l=\<close> limit; one chunk or many makes no difference.
\<close>
theorem simple_body_hash:
  assumes "plain_body dkim" "i < length (dkim_canons dkim)" "dkim_canons dkim ! i = c"
    "fresh_body c" "canon_canon c = DKIM_CANON_SIMPLE"
    "\<forall>l\<in>set ls. CR \<notin> set l \<and> LF \<notin> set l" "concat ts = body_text ls"
  shows "canon_hash (dkim_canons (snd (dkim_canon_closebody (feed_body env dkim ts))) ! i) =
    limited (canon_remain c)
      (if ls = [] then CRLF else body_text (hd ls # drop_blank_tail (tl ls)))"
proof -
  have "body_spec (canon_canon c) ls = (if ls = [] then CRLF else body_text (hd ls # drop_blank_tail (tl ls)))"
    using assms(5) by (cases ls) (simp_all add: body_spec_def reduce_line_def [abs_def])
  then show ?thesis
    using body_hash [OF assms(1-4) _ assms(7), of env] assms(5,6) by (auto simp: line_ok_def)
qed


definition dkim_body0 :: "int \<Rightarrow> int \<Rightarrow> dkim" where
  "dkim_body0 alg len = (dkim_zero lib0)\<lparr>dkim_mode := DKIM_MODE_VERIFY,
     dkim_canons := [canon0\<lparr>canon_canon := alg, canon_length := len, canon_remain := len\<rparr>]\<rparr>"

lemma dkim_body0_props:
  "plain_body (dkim_body0 alg len)" "dkim_canons (dkim_body0 alg len) ! 0 = canon0\<lparr>canon_canon := alg, canon_length := len, canon_remain := len\<rparr>"
  "length (dkim_canons (dkim_body0 alg len)) = 1"
  by (simp_all add: dkim_body0_def plain_body_def)

lemma canon0_fresh: "alg \<in> {0, 1} \<Longrightarrow> -1 \<le> len \<Longrightarrow> len < 2 ^ 63 \<Longrightarrow>
    fresh_body (canon0\<lparr>canon_canon := alg, canon_length := len, canon_remain := len\<rparr>)"
  by (simp add: fresh_body_def canon0_def)

lemma simple_body_hash_witness:
  "canon_hash (dkim_canons (snd (dkim_canon_closebody
      (feed_body env0 (dkim_body0 0 5) [''ab '' @ [CR], [LF, CHR ''c''], CRLF @ CRLF @ [CR], [LF]]))) ! 0) = ''ab '' @ CRLF"
  using simple_body_hash [where dkim = "dkim_body0 0 5" and i = 0 and env = env0
      and ls = "[''ab '', ''c'', [], []]" and ts = "[''ab '' @ [CR], [LF, CHR ''c''], CRLF @ CRLF @ [CR], [LF]]"]
  by (simp add: dkim_body0_props canon0_fresh drop_blank_tail_def limited_def)


text \<open>
  "relaxed" and a line of white space only. RFC 4871 reduces it to an empty line and drops it
  with the empty lines before it at the end of the body, but its first space makes the code release
  the blank lines held back: after a line, \<open>n\<close> empty lines and a line of one space, all \<open>n\<close>
  empty lines are hashed, whatever the chunks.
\<close>
lemma relaxed_blank_lines_released:
  assumes "fresh_body c" "canon_canon c = DKIM_CANON_RELAXED"
    "concat ts = ''a'' @ CRLF @ crlfs n @ [SPACE] @ CRLF" "\<forall>t\<in>set ts. t \<noteq> [] \<longrightarrow> last t \<noteq> CR"
  shows "canon_hash (canon_close (foldl (canon_feed False) c ts)) = limited (canon_remain c) (''a'' @ CRLF @ crlfs n)"
proof -
  define a1 where "a1 = \<lparr>a_last = LF, a_bl = True, a_bk = 0, a_out = ''a'' @ CRLF\<rparr>"
  have lwsp: "\<not> DKIM_ISLWSP NUL" "\<not> DKIM_ISLWSP (CHR ''a'')" "DKIM_ISLWSP SPACE" by (simp_all add: DKIM_ISLWSP_def)
  have 1: "abs_run relaxed_abs abs_init (''a'' @ CRLF) = a1"
    by (simp add: a1_def abs_init_def relaxed_abs_def abs_newline_def lwsp)
  have 2: "abs_run relaxed_abs a1 (crlfs n) = a1\<lparr>a_bk := n\<rparr>"
  proof (induction n)
    case (Suc n)
    then show ?case by (simp add: crlfs_Suc' relaxed_abs_def abs_newline_def a1_def)
  qed (simp add: a1_def)
  have 3: "abs_run relaxed_abs (a1\<lparr>a_bk := n\<rparr>) ([SPACE] @ CRLF) =
      \<lparr>a_last = LF, a_bl = True, a_bk = 1, a_out = ''a'' @ CRLF @ crlfs n\<rparr>"
    by (simp add: a1_def relaxed_abs_def abs_newline_def lwsp)
  have run: "abs_run (abs_step (canon_canon c)) abs_init (concat ts) =
      \<lparr>a_last = LF, a_bl = True, a_bk = 1, a_out = ''a'' @ CRLF @ crlfs n\<rparr>"
  proof -
    have "concat ts = (''a'' @ CRLF) @ crlfs n @ ([SPACE] @ CRLF)" using assms(3) by simp
    moreover have "abs_step (canon_canon c) = relaxed_abs" by (simp add: abs_step_def assms(2))
    moreover have "abs_run relaxed_abs abs_init ((''a'' @ CRLF) @ crlfs n @ ([SPACE] @ CRLF)) =
        abs_run relaxed_abs (abs_run relaxed_abs (abs_run relaxed_abs abs_init (''a'' @ CRLF)) (crlfs n)) ([SPACE] @ CRLF)"
      by (simp only: abs_run_append)
    ultimately show ?thesis by (simp only: 1 2 3)
  qed
  have "crlf_pairs LF (crlfs n @ SPACE # CRLF)"
    by (induction n) (simp_all add: crlfs_Suc)
  then have "crlf_pairs NUL (concat ts)" using assms(3) by simp
  from body_canon_abs [OF assms(1) this _ run [symmetric], of False] show ?thesis
    using assms(2,4) by simp
qed

lemma relaxed_blank_lines_released_witness:
  "canon_hash (canon_close (foldl (canon_feed False) (canon0\<lparr>canon_canon := 1, canon_length := -1, canon_remain := -1\<rparr>)
      [''a'' @ CRLF @ CRLF, CRLF @ [SPACE], CRLF])) = ''a'' @ CRLF @ CRLF @ CRLF"
  using relaxed_blank_lines_released [OF canon0_fresh [of 1 "-1"], where n = 2
      and ts = "[''a'' @ CRLF @ CRLF, CRLF @ [SPACE], CRLF]"]
  by (simp add: limited_def crlfs_def eval_nat_numeral)

text \<open>
  Two dependences on the chunks that the hypotheses of the last two properties exclude. Relaxed: two
  trailing spaces, cut between the CR and the LF. Simple, for a body that does not end in CRLF: the
  missing CRLF is added only while nothing has been flushed to the hash.
\<close>

lemmas run_defs = canon0_def canon_feed_def canon_close_def canon_chunk_def body_loop_def upt_rec
  body_simple_def body_relaxed_def body_newline_def body_lone_cr_def flush_if_blanks_def
  dkim_canon_flushblanks_def dkim_canon_buffer_def dkim_canon_write_def substr_def DKIM_ISLWSP_def Let_def

lemma relaxed_cut_in_crlf:
  "map (\<lambda>ts. canon_hash (canon_close (foldl (canon_feed False)
      (canon0\<lparr>canon_canon := 1, canon_length := -1, canon_remain := -1\<rparr>) ts)))
     [[''a  '' @ CRLF], [''a  '' @ [CR], [LF]]] = [''a'' @ CRLF, ''a '' @ CRLF]"
  by (simp add: run_defs)

text \<open>
  "simple" and a body that does not end in CRLF: the CRLF that RFC 4871 adds is added when the
  body came in one small chunk, and not when it came in two, so the hash of the same body depends on
  how the caller cut it.
\<close>
lemma simple_unterminated_chunk_dependent:
  "(let c = canon0\<lparr>canon_length := -1, canon_remain := -1\<rparr> in
    map (\<lambda>ts. canon_hash (canon_close (foldl (canon_feed False) c ts)))
     [[''a'' @ CRLF @ ''b''], [''a'' @ CRLF, ''b'']]) = [''a'' @ CRLF @ ''b'' @ CRLF, ''a'' @ CRLF @ ''b'']"
  by (simp add: run_defs)

end
