(* ===== verification/Dkim_Canon_Handles.thy ===== *)
theory Dkim_Canon_Handles
  imports Dkim_Canon_Body
begin

text \<open>
  The canonicalization handles of \<open>dkim-canon.c\<close>: adding one (\<open>dkim_add_canon\<close>, which shares body
  canonicalizations), initializing them, the bytes they still want, the final digest, and the
  properties of \<open>dkim_canon_fixcrlf\<close>. Handles are indices into \<open>dkim_canons\<close>; temporary files are
  not modelled beyond the status of creating one.
\<close>

subsection \<open>The code\<close>

fun find_canon :: "nat \<Rightarrow> canon list \<Rightarrow> int \<Rightarrow> int \<Rightarrow> int \<Rightarrow> nat option" where
  "find_canon i [] canon hashtype len = None"
| "find_canon i (cur # next) canon hashtype len =
    (if canon_hdr cur \<or> canon_hashtype cur \<noteq> hashtype \<or> canon_canon cur \<noteq> canon
     then find_canon (i + 1) next canon hashtype len
     else if len \<noteq> canon_length cur then find_canon (i + 1) next canon hashtype len
     else Some i)"

definition new_canon :: "bool \<Rightarrow> int \<Rightarrow> int \<Rightarrow> string option \<Rightarrow> nat option \<Rightarrow> int \<Rightarrow> canon" where
  "new_canon hdr canon hashtype hdrlist sighdr len =
    \<lparr>canon_done = False, canon_hdr = hdr, canon_blankline = False, canon_lastchar = NUL,
     canon_hashtype = hashtype, canon_blanks = 0, canon_hashbuf = [], canon_hashbufsize = 0,
     canon_remain = (if hdr then -1 else len), canon_wrote = 0,
     canon_length = (if hdr then -1 else len), canon_canon = canon, canon_hdrlist = hdrlist,
     canon_hash = [], canon_sigheader = sighdr\<rparr>"

text \<open>The status, \<open>*cout\<close> and the context; the caller passes a known algorithm and hash.\<close>

definition dkim_add_canon ::
    "env \<Rightarrow> dkim \<Rightarrow> bool \<Rightarrow> int \<Rightarrow> int \<Rightarrow> string option \<Rightarrow> nat option \<Rightarrow> int \<Rightarrow> int \<times> nat option \<times> dkim" where
  "dkim_add_canon env dkim hdr canon hashtype hdrlist sighdr len =
    (case (if \<not> hdr then find_canon 0 (dkim_canons dkim) canon hashtype len else None) of
       Some i \<Rightarrow> (DKIM_STAT_OK, Some i, dkim)
     | None \<Rightarrow>
         if \<not> env_malloc env sizeof_struct then (DKIM_STAT_NORESOURCE, None, dkim)
         else (DKIM_STAT_OK, Some (length (dkim_canons dkim)),
               dkim\<lparr>dkim_canons := dkim_canons dkim @ [new_canon hdr canon hashtype hdrlist sighdr len]\<rparr>))"

text \<open>\<open>tmpstat\<close> is what \<open>dkim_tmpfile\<close> answers when temporary files are asked for.\<close>

fun canon_init_loop :: "env \<Rightarrow> bool \<Rightarrow> int \<Rightarrow> canon list \<Rightarrow> int \<times> canon list" where
  "canon_init_loop env tmp tmpstat [] = (DKIM_STAT_OK, [])"
| "canon_init_loop env tmp tmpstat (cur # next) =
    (if \<not> env_malloc env DKIM_HASHBUFSIZE then (DKIM_STAT_NORESOURCE, cur # next)
     else
       (let cur = cur\<lparr>canon_hashbuf := [], canon_hashbufsize := DKIM_HASHBUFSIZE\<rparr> in
        if \<not> env_malloc env sizeof_struct then (DKIM_STAT_NORESOURCE, cur # next)
        else if tmp \<and> tmpstat \<noteq> DKIM_STAT_OK then (tmpstat, cur # next)
        else
          (let cur = cur\<lparr>canon_hash := []\<rparr>;
               (st, next) = canon_init_loop env tmp tmpstat next in
           (st, cur # next))))"

definition dkim_canon_init :: "env \<Rightarrow> dkim \<Rightarrow> bool \<Rightarrow> int \<Rightarrow> int \<times> dkim" where
  "dkim_canon_init env dkim tmp tmpstat =
    (let (st, cs) = canon_init_loop env tmp tmpstat (dkim_canons dkim) in
     (st, dkim\<lparr>dkim_canons := cs\<rparr>))"

abbreviation (input) ULONG_MAX :: nat where "ULONG_MAX \<equiv> 18446744073709551615"

fun minbody_loop :: "nat \<Rightarrow> canon list \<Rightarrow> nat" where
  "minbody_loop minbody [] = minbody"
| "minbody_loop minbody (cur # next) =
    (if canon_done cur \<or> canon_hdr cur then minbody_loop minbody next
     else if canon_remain cur = -1 then ULONG_MAX
     else minbody_loop (max minbody (nat (canon_remain cur mod 2 ^ 64))) next)"

definition dkim_canon_minbody :: "dkim \<Rightarrow> nat" where
  "dkim_canon_minbody dkim = minbody_loop 0 (dkim_canons dkim)"

definition canon_digest :: "env \<Rightarrow> canon \<Rightarrow> string" where
  "canon_digest env c =
    (if canon_hashtype c = DKIM_HASHTYPE_SHA1 then env_sha1 env (canon_hash c)
     else env_sha256 env (canon_hash c))"

definition dkim_canon_getfinal :: "env \<Rightarrow> canon \<Rightarrow> int \<times> string option" where
  "dkim_canon_getfinal env canon =
    (if \<not> canon_done canon then (DKIM_STAT_INVALID, None)
     else (DKIM_STAT_OK, Some (canon_digest env canon)))"

subsection \<open>Adding\<close>

lemma find_canon_Some:
  "find_canon n cs canon hashtype len = Some i \<Longrightarrow> n \<le> i \<and> i < n + length cs \<and>
    \<not> canon_hdr (cs ! (i - n)) \<and> canon_hashtype (cs ! (i - n)) = hashtype \<and>
    canon_canon (cs ! (i - n)) = canon \<and> canon_length (cs ! (i - n)) = len"
proof (induction cs arbitrary: n)
  case (Cons c cs)
  show ?case
  proof (cases "find_canon (n + 1) cs canon hashtype len = Some i")
    case True
    then show ?thesis using Cons.IH [OF True] by (auto simp: nth_Cons' Suc_diff_le)
  next
    case False
    then show ?thesis using Cons.prems by (auto split: if_splits)
  qed
qed simp

lemma find_canon_None:
  "find_canon n cs canon hashtype len = None \<longleftrightarrow>
   (\<forall>c\<in>set cs. canon_hdr c \<or> canon_hashtype c \<noteq> hashtype \<or> canon_canon c \<noteq> canon \<or> canon_length c \<noteq> len)"
  by (induction cs arbitrary: n) auto

definition body_key :: "canon \<Rightarrow> int \<times> int \<times> int" where
  "body_key c = (canon_canon c, canon_hashtype c, canon_length c)"

definition canons_shared :: "dkim \<Rightarrow> bool" where
  "canons_shared dkim \<longleftrightarrow> distinct (map body_key (filter (\<lambda>c. \<not> canon_hdr c) (dkim_canons dkim)))"

text \<open>
  C18: \<open>dkim_add_canon\<close> never changes or moves an existing canonicalization, answers with a handle
  whose kind, algorithm, hash and length are the requested ones, and keeps body canonicalizations
  shared: no two of them have the same algorithm, hash and length.
\<close>
theorem dkim_add_canon_spec:
  assumes "dkim_add_canon env dkim hdr canon hashtype hdrlist sighdr len = (st, h, dkim')"
    "canons_shared dkim"
  shows "canons_shared dkim' \<and> take (length (dkim_canons dkim)) (dkim_canons dkim') = dkim_canons dkim \<and>
    (case h of
       None \<Rightarrow> st = DKIM_STAT_NORESOURCE \<and> dkim' = dkim
     | Some i \<Rightarrow> st = DKIM_STAT_OK \<and> i < length (dkim_canons dkim') \<and>
         (let c = dkim_canons dkim' ! i in canon_hdr c = hdr \<and> canon_canon c = canon \<and>
            canon_hashtype c = hashtype \<and> canon_length c = (if hdr then -1 else len)))"
proof (cases "if \<not> hdr then find_canon 0 (dkim_canons dkim) canon hashtype len else None")
  case (Some i)
  then show ?thesis
    using assms find_canon_Some [of 0 "dkim_canons dkim" canon hashtype len i]
    by (auto simp: dkim_add_canon_def Let_def split: if_splits)
next
  case None
  have key: "\<not> hdr \<Longrightarrow> (canon, hashtype, len) \<notin> body_key ` set (filter (\<lambda>c. \<not> canon_hdr c) (dkim_canons dkim))"
    using None by (auto simp: find_canon_None body_key_def split: if_splits)
  have dk: "dkim' = (if env_malloc env sizeof_struct then
        dkim\<lparr>dkim_canons := dkim_canons dkim @ [new_canon hdr canon hashtype hdrlist sighdr len]\<rparr> else dkim)"
    "(st, h) = (if env_malloc env sizeof_struct then (DKIM_STAT_OK, Some (length (dkim_canons dkim)))
       else (DKIM_STAT_NORESOURCE, None))"
    using assms(1) None by (auto simp: dkim_add_canon_def)
  have "canons_shared dkim'"
    using assms(2) key dk(1) by (cases hdr) (auto simp: canons_shared_def new_canon_def body_key_def)
  then show ?thesis
    using dk by (auto simp: new_canon_def Let_def split: if_splits)
qed

lemma dkim_add_canon_spec_witness:
  "\<exists>d. dkim_add_canon env0 (dkim_body0 0 12) False 0 1 None None 12 = (DKIM_STAT_OK, Some 0, d) \<and> canons_shared d"
proof -
  have shared: "canons_shared (dkim_body0 0 12)" by (simp add: canons_shared_def dkim_body0_def)
  have "dkim_add_canon env0 (dkim_body0 0 12) False 0 1 None None 12 = (DKIM_STAT_OK, Some 0, dkim_body0 0 12)"
    by (simp add: dkim_add_canon_def dkim_body0_def canon0_def)
  with dkim_add_canon_spec [OF this shared] show ?thesis by blast
qed

lemma init_fresh:
  assumes "\<And>n. env_malloc env n" "canon \<in> {DKIM_CANON_SIMPLE, DKIM_CANON_RELAXED}"
    "hashtype \<in> {DKIM_HASHTYPE_SHA1, DKIM_HASHTYPE_SHA256}" "-1 \<le> len" "len < 2 ^ 63"
  shows "\<exists>c. canon_init_loop env False 0 [new_canon False canon hashtype hl sh len] = (DKIM_STAT_OK, [c]) \<and>
     fresh_body c \<and> canon_remain c = len"
  using assms by (auto simp: new_canon_def fresh_body_def)

subsection \<open>The bytes still wanted\<close>

definition wants :: "canon \<Rightarrow> bool" where
  "wants c \<longleftrightarrow> \<not> canon_done c \<and> \<not> canon_hdr c"

lemma Max_insert_max: "finite (S :: nat set) \<Longrightarrow> Max (insert m (insert x S)) = Max (insert (max m x) S)"
  by (cases "S = {}") (auto simp: max.assoc)

lemma minbody_loop_spec:
  assumes "\<forall>c\<in>set cs. -1 \<le> canon_remain c \<and> canon_remain c < 2 ^ 63" "m < 2 ^ 63"
  shows "(minbody_loop m cs = ULONG_MAX \<longleftrightarrow> (\<exists>c\<in>set cs. wants c \<and> canon_remain c = -1)) \<and>
    ((\<forall>c\<in>set cs. wants c \<longrightarrow> canon_remain c \<noteq> -1) \<longrightarrow>
       minbody_loop m cs = Max (insert m {nat (canon_remain c) |c. c \<in> set cs \<and> wants c}))"
  using assms
proof (induction cs arbitrary: m)
  case (Cons c cs)
  let ?S = "{nat (canon_remain c) |c. c \<in> set cs \<and> wants c}"
  have fin: "finite ?S" by simp
  have r: "-1 \<le> canon_remain c" "canon_remain c < 2 ^ 63" using Cons.prems by auto
  show ?case
  proof (cases "wants c")
    case False
    then have "{nat (canon_remain c') |c'. c' \<in> set (c # cs) \<and> wants c'} = ?S" by auto
    moreover have "minbody_loop m (c # cs) = minbody_loop m cs" using False by (auto simp: wants_def)
    ultimately show ?thesis using Cons.IH [of m] Cons.prems False by simp
  next
    case True
    show ?thesis
    proof (cases "canon_remain c = -1")
      case True
      then show ?thesis using \<open>wants c\<close> by (auto simp: wants_def)
    next
      case False
      then have "canon_remain c mod 2 ^ 64 = canon_remain c" using r by simp
      then have loop: "minbody_loop m (c # cs) = minbody_loop (max m (nat (canon_remain c))) cs"
        using True False by (simp add: wants_def)
      have "{nat (canon_remain c') |c'. c' \<in> set (c # cs) \<and> wants c'} = insert (nat (canon_remain c)) ?S"
        using True by auto
      moreover have "Max (insert m (insert (nat (canon_remain c)) ?S)) = Max (insert (max m (nat (canon_remain c))) ?S)"
        using fin by (rule Max_insert_max)
      moreover have "max m (nat (canon_remain c)) < 2 ^ 63" using r Cons.prems(2) False by (simp add: nat_less_iff)
      ultimately show ?thesis
        using Cons.IH [of "max m (nat (canon_remain c))"] Cons.prems True False unfolding loop by auto
    qed
  qed
qed simp

text \<open>
  \<open>dkim_canon_minbody\<close> is \<open>ULONG_MAX\<close> exactly when an open body canonicalization has no length
  limit, and else the largest number of bytes that one of them still takes (0 when there is none).
\<close>
lemma dkim_canon_minbody_spec:
  assumes "\<forall>c\<in>set (dkim_canons dkim). -1 \<le> canon_remain c \<and> canon_remain c < 2 ^ 63"
  shows "(dkim_canon_minbody dkim = ULONG_MAX \<longleftrightarrow>
      (\<exists>c\<in>set (dkim_canons dkim). wants c \<and> canon_remain c = -1)) \<and>
    ((\<forall>c\<in>set (dkim_canons dkim). wants c \<longrightarrow> canon_remain c \<noteq> -1) \<longrightarrow>
       dkim_canon_minbody dkim = Max (insert 0 {nat (canon_remain c) |c. c \<in> set (dkim_canons dkim) \<and> wants c}))"
  unfolding dkim_canon_minbody_def using assms by (intro minbody_loop_spec) auto

lemma dkim_canon_minbody_spec_witness:
  "dkim_canon_minbody (dkim_body0 0 12) = Max (insert 0 {nat (canon_remain c) |c. c \<in> set (dkim_canons (dkim_body0 0 12)) \<and> wants c})"
  using dkim_canon_minbody_spec [of "dkim_body0 0 12"] by (simp add: dkim_body0_def)

subsection \<open>Naked CR and LF\<close>

fun fix_ref :: "byte \<Rightarrow> string \<Rightarrow> string" where
  "fix_ref prev [] = []"
| "fix_ref prev (x # p) =
    (if x = LF \<and> prev \<noteq> CR then CRLF
     else if x = CR \<and> p \<noteq> [] \<and> hd p \<noteq> LF then CRLF
     else [x]) @ fix_ref x p"

lemma fix_ref_length: "length (fix_ref prev s) \<le> 2 * length s"
  by (induction prev s rule: fix_ref.induct) auto

lemma fix_ref_pairs:
  "q = CR \<longleftrightarrow> prev = CR \<and> s \<noteq> [] \<and> hd s = LF \<Longrightarrow> s = [] \<or> last s \<noteq> CR \<Longrightarrow> crlf_pairs q (fix_ref prev s)"
proof (induction prev s arbitrary: q rule: fix_ref.induct)
  case (2 prev x p)
  consider (lf) "x = LF" | (cr) "x = CR" "p \<noteq> []" | (other) "x \<noteq> LF" "x \<noteq> CR"
    using "2.prems"(2) by fastforce
  then show ?case
  proof cases
    case lf
    have "crlf_pairs LF (fix_ref x p)" using 2 lf by (intro "2.IH") (auto split: if_splits)
    with lf "2.prems"(1) show ?thesis by auto
  next
    case cr
    have "crlf_pairs (if hd p = LF then CR else LF) (fix_ref x p)"
      using 2 cr by (intro "2.IH") (auto split: if_splits)
    with cr "2.prems"(1) show ?thesis by auto
  next
    case other
    have "crlf_pairs x (fix_ref x p)" using 2 other by (intro "2.IH") (auto split: if_splits)
    with other "2.prems"(1) show ?thesis by auto
  qed
qed simp

lemma fix_ref_id: "crlf_pairs prev s \<Longrightarrow> s = [] \<or> last s \<noteq> CR \<Longrightarrow> fix_ref prev s = s"
proof (induction prev s rule: fix_ref.induct)
  case (2 prev x p)
  have "fix_ref x p = p" using 2 by (auto split: if_splits)
  moreover have "x = CR \<Longrightarrow> p \<noteq> [] \<Longrightarrow> hd p = LF" using "2.prems"(1) by (cases p) auto
  ultimately show ?case using "2.prems"(1) by auto
qed simp

lemma cat1_wf_content:
  assumes "ds_wf d" "\<forall>n. mk n" "ds_max d = 0" "ds_len d + length s < 2 ^ 30"
  shows "ds_wf (snd (dkim_dstring_catn mk d s (length s))) \<and>
    ds_content (snd (dkim_dstring_catn mk d s (length s))) = ds_content d @ s \<and>
    ds_max (snd (dkim_dstring_catn mk d s (length s))) = 0"
proof -
  have "fst (dkim_dstring_catn mk d s (length s))" using assms by (intro catn_succeeds) auto
  then have "dkim_dstring_catn mk d s (length s) = (True, snd (dkim_dstring_catn mk d s (length s)))"
    by (metis prod.collapse)
  from catn_True [OF this assms(1)] show ?thesis using assms(3) by simp
qed

lemma fixcrlf_loop_content:
  assumes "\<forall>n. mk n"
  shows "ds_wf d \<Longrightarrow> ds_max d = 0 \<Longrightarrow> ds_len d + 2 * length s < 2 ^ 30 \<Longrightarrow>
    ds_wf (fixcrlf_loop mk prev s d) \<and> ds_content (fixcrlf_loop mk prev s d) = ds_content d @ fix_ref prev s"
proof (induction s arbitrary: prev d)
  case (Cons x p)
  have len: "ds_len e = length (ds_content e)" if "ds_wf e" for e using ds_content_length [OF that] by simp
  have crlf: "ds_wf (snd (dkim_dstring_catn mk d CRLF 2)) \<and> ds_content (snd (dkim_dstring_catn mk d CRLF 2)) = ds_content d @ CRLF \<and>
      ds_max (snd (dkim_dstring_catn mk d CRLF 2)) = 0"
    using cat1_wf_content [OF Cons.prems(1) assms Cons.prems(2), of CRLF] Cons.prems(3) by (simp add: numeral_2_eq_2)
  have one: "ds_wf (snd (dkim_dstring_cat1 mk d x)) \<and> ds_content (snd (dkim_dstring_cat1 mk d x)) = ds_content d @ [x] \<and>
      ds_max (snd (dkim_dstring_cat1 mk d x)) = 0"
    using cat1_wf_content [OF Cons.prems(1) assms Cons.prems(2), of "[x]"] Cons.prems(3) by (simp add: cat1_eq_catn)
  define e where "e = (if x = LF \<and> prev \<noteq> CR then snd (dkim_dstring_catn mk d CRLF 2)
       else if x = CR then
         (if p \<noteq> [] \<and> hd p \<noteq> LF then snd (dkim_dstring_catn mk d CRLF 2) else snd (dkim_dstring_cat1 mk d x))
       else snd (dkim_dstring_cat1 mk d x))"
  have e: "ds_wf e" "ds_max e = 0" "ds_content e @ fix_ref x p = ds_content d @ fix_ref prev (x # p)"
    "length (ds_content e) \<le> length (ds_content d) + 2"
    using crlf one by (auto simp: e_def)
  then have "ds_len e + 2 * length p < 2 ^ 30" using Cons.prems(3) len [OF e(1)] len [OF Cons.prems(1)] by simp
  from Cons.IH [OF e(1,2) this, of x] show ?case using e by (simp add: e_def [symmetric])
qed simp

text \<open>
  With memory available, \<open>dkim_canon_fixcrlf\<close> leaves in \<open>dkim_canonbuf\<close> the chunk with each
  solitary CR and each solitary LF replaced by CRLF; when the chunk does not end in a CR, CR and LF
  then occur only as CRLF, and a chunk where they already did is unchanged.
\<close>
theorem dkim_canon_fixcrlf_spec:
  assumes "\<forall>n. env_malloc env n" "length buf < 2 ^ 28" "canon_lastchar c \<noteq> CR" "buf = [] \<or> last buf \<noteq> CR"
    "\<And>d. dkim_canonbuf dkim = Some d \<Longrightarrow> ds_wf d \<and> ds_max d = 0"
  shows "\<exists>d. dkim_canon_fixcrlf env dkim c buf = (DKIM_STAT_OK, dkim\<lparr>dkim_canonbuf := Some d\<rparr>) \<and>
    ds_content d = fix_ref (canon_lastchar c) buf \<and> crlf_pairs (canon_lastchar c) (ds_content d) \<and>
    (crlf_pairs (canon_lastchar c) buf \<longrightarrow> ds_content d = buf)"
proof -
  obtain d where d: "(case dkim_canonbuf dkim of
             None \<Rightarrow> dkim_dstring_new (env_malloc env) (int (length buf)) 0
           | Some d \<Rightarrow> Some (dkim_dstring_blank d)) = Some d" "ds_wf d" "ds_max d = 0" "ds_content d = []"
  proof (cases "dkim_canonbuf dkim")
    case None
    obtain d where "dkim_dstring_new (env_malloc env) (int (length buf)) 0 = Some d"
      using assms(1) by (auto simp: dkim_dstring_new_def Let_def)
    with new_wf [OF this] None show ?thesis by (intro that [of d]) auto
  next
    case (Some d)
    with assms(5) [OF Some] blank_wf [of d] show ?thesis
      by (intro that [of "dkim_dstring_blank d"]) (auto simp: dkim_dstring_blank_def)
  qed
  have "ds_len d = 0" using ds_content_length [OF d(2)] d(4) by simp
  then have "ds_content (fixcrlf_loop (env_malloc env) (canon_lastchar c) buf d) = fix_ref (canon_lastchar c) buf"
    using fixcrlf_loop_content [OF assms(1) d(2,3), of buf "canon_lastchar c"] assms(2) d(4) by simp
  moreover have "crlf_pairs (canon_lastchar c) (fix_ref (canon_lastchar c) buf)"
    using assms(3,4) by (intro fix_ref_pairs) auto
  ultimately show ?thesis
    using d(1) fix_ref_id [OF _ assms(4)] by (auto simp: dkim_canon_fixcrlf_def)
qed

lemma dkim_canon_fixcrlf_spec_witness:
  "\<exists>d. dkim_canon_fixcrlf env0 (dkim_zero lib0) canon0 [CHR ''a'', LF, CR, CHR ''b''] =
     (DKIM_STAT_OK, (dkim_zero lib0)\<lparr>dkim_canonbuf := Some d\<rparr>) \<and>
    ds_content d = ''a'' @ CRLF @ CRLF @ ''b''"
  using dkim_canon_fixcrlf_spec [of env0 "[CHR ''a'', LF, CR, CHR ''b'']" canon0 "dkim_zero lib0"]
  by (auto simp: env0_def canon0_def dkim_zero_def)

end
