(* ===== verification/Dkim_Siglist.thy ===== *)
theory Dkim_Siglist
  imports Dkim_Sigcheck Dkim_Base64 Dkim_Canon_Handles
begin

text \<open>
  \<open>dkim_siglist_setup\<close> of \<open>dkim.c\<close>: one \<open>DKIM_SIGINFO\<close> for each accepted signature set, checked tag by
  tag in the order of the code. A check that fails stores its error code and goes on with the next
  set, so the fields stored before it stay; \<open>Inl\<close> is that \<open>continue\<close>.

  The length given by "l=" is in a variable that outlives the signature it was read for. The lemmas
  say when a signature is accepted, what its handles are, and that a signature without "l=" takes
  the length of an earlier one. The callbacks that build the caller's own handle are left out: they
  get no pointer to the data modelled here.
\<close>

subsection \<open>The checks, tag by tag\<close>

type_synonym sig_step = "siginfo + siginfo"

abbreviation sig_fail :: "siginfo \<Rightarrow> int \<Rightarrow> siginfo + 'a" where
  "sig_fail sg err \<equiv> Inl (sg\<lparr>sig_error := err\<rparr>)"

definition override_query :: "dkim_lib \<Rightarrow> siginfo \<Rightarrow> siginfo" where
  "override_query lib sg =
    (if dkiml_querymethod lib \<noteq> DKIM_QUERY_UNKNOWN then sg\<lparr>sig_query := dkiml_querymethod lib\<rparr> else sg)"

text \<open>"d=" and "s=", then the basic checks; the domain check may mark the handle.\<close>

definition sig_basics :: "env \<Rightarrow> dkim \<Rightarrow> dkim_set \<Rightarrow> siginfo \<Rightarrow> dkim \<times> sig_step" where
  "sig_basics e dk st sg =
    (let drift = dkiml_clockdrift (dkim_libhandle dk) in
     case dkim_param_get st ''d'' of
       None \<Rightarrow> (dk, sig_fail sg DKIM_SIGERROR_MISSING_D)
     | Some d \<Rightarrow> if d = [] then (dk, sig_fail sg DKIM_SIGERROR_EMPTY_D) else
    (let sg = sg\<lparr>sig_domain := Some d\<rparr> in
     case dkim_param_get st ''s'' of
       None \<Rightarrow> (dk, sig_fail sg DKIM_SIGERROR_MISSING_S)
     | Some s \<Rightarrow> if s = [] then (dk, sig_fail sg DKIM_SIGERROR_EMPTY_S) else
    (let sg = sg\<lparr>sig_selector := Some s\<rparr> in
     if \<not> dkim_sig_versionok dk st then (dk, sig_fail sg DKIM_SIGERROR_VERSION)
     else case dkim_sig_domainok dk st of (ok, dk) \<Rightarrow>
       if \<not> ok then (dk, sig_fail sg DKIM_SIGERROR_DOMAIN)
       else if dkim_sig_expired e st drift then (dk, sig_fail sg DKIM_SIGERROR_EXPIRED)
       else if dkim_sig_future e st drift then (dk, sig_fail sg DKIM_SIGERROR_FUTURE)
       else if \<not> dkim_sig_timestampsok st then (dk, sig_fail sg DKIM_SIGERROR_TIMESTAMPS)
       else (dk, Inr sg))))"

text \<open>"c=": \<open>Inl\<close> is the error code. Without a slash the body algorithm is "simple".\<close>

definition sig_canons :: "dkim_set \<Rightarrow> int + int \<times> int" where
  "sig_canons st =
    (case dkim_param_get st ''c'' of
       None \<Rightarrow> Inl DKIM_SIGERROR_MISSING_C
     | Some param \<Rightarrow>
        (let value = strlcpy param (BUFRSZ + 1);
             hdrcanon = dkim_name_to_code prv_canonicalizations (before value CHR ''/'') in
         if hdrcanon = - 1 then Inl DKIM_SIGERROR_INVALID_HC
         else (case strchr value CHR ''/'' of
             None \<Rightarrow> Inr (hdrcanon, DKIM_CANON_SIMPLE)
           | Some q \<Rightarrow>
              (let bodycanon = dkim_name_to_code prv_canonicalizations (tl q) in
               if bodycanon = - 1 then Inl DKIM_SIGERROR_INVALID_BC else Inr (hdrcanon, bodycanon)))))"

definition sig_algorithm :: "dkim_set \<Rightarrow> siginfo \<Rightarrow> sig_step" where
  "sig_algorithm st sg =
    (case dkim_param_get st ''a'' of
       None \<Rightarrow> sig_fail sg DKIM_SIGERROR_MISSING_A
     | Some param \<Rightarrow>
        (let signalg = dkim_name_to_code prv_algorithms param in
         if signalg = - 1 then sig_fail sg DKIM_SIGERROR_INVALID_A
         else Inr (sg\<lparr>sig_signalg := signalg,
           sig_hashtype := (if signalg = DKIM_SIGN_RSASHA1 then DKIM_HASHTYPE_SHA1 else DKIM_HASHTYPE_SHA256)\<rparr>)))"

definition sig_hdrlist :: "env \<Rightarrow> dkim_set \<Rightarrow> int + string" where
  "sig_hdrlist e st =
    (case dkim_param_get st ''h'' of
       None \<Rightarrow> Inl DKIM_SIGERROR_MISSING_H
     | Some param \<Rightarrow>
         if param = [] then Inl DKIM_SIGERROR_EMPTY_H
         else if \<not> dkim_sig_hdrlistok e param then Inl DKIM_SIGERROR_INVALID_H
         else Inr param)"

text \<open>
  "l=": whether it is valid, and the variable \<open>signlen\<close>, which is assigned even when it is not. The
  number is an \<open>unsigned long\<close> stored in a signed \<open>off_t\<close>.
\<close>

definition sig_length :: "dkim_set \<Rightarrow> int \<Rightarrow> bool \<times> int" where
  "sig_length st signlen =
    (case dkim_param_get st ''l'' of
       None \<Rightarrow> (True, signlen)
     | Some param \<Rightarrow>
         if param \<noteq> [] \<and> hd param = CHR ''-'' then (False, - 1)
         else (case dkim_strtoul param of (val, q, errno) \<Rightarrow>
           (val \<noteq> - 1 \<and> errno = None \<and> q = [], sint val)))"

text \<open>
  The loop over the query methods of "q=": \<open>bad_qo\<close> stays set once an option was not "txt", and an
  unknown method sets \<open>q\<close> back.
\<close>

fun query_loop :: "string list \<Rightarrow> int \<Rightarrow> bool \<Rightarrow> int \<times> bool" where
  "query_loop [] q bad_qo = (q, bad_qo)"
| "query_loop (p # ps) q bad_qo =
    (let opts = strchr p CHR ''/'';
         q = dkim_name_to_code prv_querytypes (before p CHR ''/'') in
     if q = - 1 then query_loop ps q bad_qo
     else if q = DKIM_QUERY_DNS \<and> opts \<noteq> None \<and> tl (the opts) \<noteq> ''txt'' then query_loop ps q True
     else (q, bad_qo))"

definition sig_querymethod :: "dkim_lib \<Rightarrow> dkim_set \<Rightarrow> siginfo \<Rightarrow> sig_step" where
  "sig_querymethod lib st sg =
    (case dkim_param_get st ''q'' of
       None \<Rightarrow> Inr (override_query lib sg)
     | Some param \<Rightarrow>
        (case query_loop (strtok CHR '':'' (strlcpy param (BUFRSZ + 1))) (- 1) False of (q, bad_qo) \<Rightarrow>
           if q = - 1 then sig_fail sg DKIM_SIGERROR_INVALID_Q
           else if bad_qo then sig_fail sg DKIM_SIGERROR_INVALID_QO
           else Inr (override_query lib (sg\<lparr>sig_query := q\<rparr>))))"

text \<open>"t=", "bh=" and the presence of "b=".\<close>

definition sig_values :: "dkim_set \<Rightarrow> siginfo \<Rightarrow> sig_step" where
  "sig_values st sg =
    (let sg = sg\<lparr>sig_timestamp := (case dkim_param_get st ''t'' of None \<Rightarrow> 0 | Some param \<Rightarrow> ull param)\<rparr> in
     case dkim_param_get st ''bh'' of
       None \<Rightarrow> sig_fail sg DKIM_SIGERROR_MISSING_BH
     | Some bh \<Rightarrow> if bh = [] then sig_fail sg DKIM_SIGERROR_EMPTY_BH else
    (case dkim_param_get st ''b'' of
       None \<Rightarrow> sig_fail sg DKIM_SIGERROR_MISSING_B
     | Some b \<Rightarrow> if b = [] then sig_fail sg DKIM_SIGERROR_EMPTY_B else Inr sg))"

subsection \<open>Accepting a signature\<close>

text \<open>
  The decoded signature and the two canonicalizations; \<open>Some status\<close> is an early return of the whole
  function.
\<close>

definition sig_handles ::
    "env \<Rightarrow> dkim \<Rightarrow> dkim_set \<Rightarrow> siginfo \<Rightarrow> int \<times> int \<Rightarrow> string \<Rightarrow> int \<Rightarrow> int option \<times> dkim \<times> siginfo" where
  "sig_handles e dk st sg canons hdrlist signlen =
    (case canons of (hdrcanon, bodycanon) \<Rightarrow>
     let param = the (dkim_param_get st ''b''); b64siglen = length param in
     if \<not> env_malloc e b64siglen then (Some DKIM_STAT_NORESOURCE, dk, sg)
     else case dkim_base64_decode param b64siglen of
       Inl err \<Rightarrow> (None, dk, sg\<lparr>sig_sig := Some [], sig_error := DKIM_SIGERROR_CORRUPT_B\<rparr>)
     | Inr bytes \<Rightarrow>
        (let sg = sg\<lparr>sig_sig := Some bytes, sig_siglen := length bytes\<rparr> in
         case dkim_add_canon e dk True hdrcanon (sig_hashtype sg) (Some hdrlist) (set_udata st) 0 of (status, hc, dk) \<Rightarrow>
         if status \<noteq> DKIM_STAT_OK then (Some status, dk, sg)
         else
        (let sg = sg\<lparr>sig_hdrcanon := hc, sig_hdrcanonalg := hdrcanon\<rparr> in
         case dkim_add_canon e dk False bodycanon (sig_hashtype sg) None None signlen of (status, bc, dk) \<Rightarrow>
         if status \<noteq> DKIM_STAT_OK then (Some status, dk, sg)
         else (None, dk, sg\<lparr>sig_bodycanon := bc, sig_bodycanonalg := bodycanon,
                            sig_bh := DKIM_SIGBH_UNTESTED, sig_flags := 0\<rparr>))))"

text \<open>The tags before "l=" and those after it.\<close>

definition sig_first_tags ::
    "env \<Rightarrow> dkim \<Rightarrow> dkim_set \<Rightarrow> siginfo \<Rightarrow> dkim \<times> (siginfo + siginfo \<times> (int \<times> int) \<times> string)" where
  "sig_first_tags e dk st sg =
    (case sig_basics e dk st sg of
       (dk, Inl sg) \<Rightarrow> (dk, Inl sg)
     | (dk, Inr sg) \<Rightarrow>
    (case sig_canons st of
       Inl err \<Rightarrow> (dk, sig_fail sg err)
     | Inr canons \<Rightarrow>
    (case sig_algorithm st sg of
       Inl sg \<Rightarrow> (dk, Inl sg)
     | Inr sg \<Rightarrow>
    (case sig_hdrlist e st of
       Inl err \<Rightarrow> (dk, sig_fail sg err)
     | Inr hdrlist \<Rightarrow> (dk, Inr (sg, canons, hdrlist))))))"

definition sig_last_tags :: "dkim_lib \<Rightarrow> dkim_set \<Rightarrow> siginfo \<Rightarrow> sig_step" where
  "sig_last_tags lib st sg =
    (case sig_querymethod lib st sg of Inl sg \<Rightarrow> Inl sg | Inr sg \<Rightarrow> sig_values st sg)"

text \<open>The body of the loop for one good set: a possible return, the handle, the element, \<open>signlen\<close>.\<close>

definition siglist_element ::
    "env \<Rightarrow> dkim \<Rightarrow> nat \<Rightarrow> siginfo \<Rightarrow> int \<Rightarrow> int option \<times> dkim \<times> siginfo \<times> int" where
  "siglist_element e dk k sg signlen =
    (let st = dkim_sets dk ! k; lib = dkim_libhandle dk;
         sg = override_query lib (sg\<lparr>sig_error := DKIM_SIGERROR_UNKNOWN, sig_taglist := Some k\<rparr>) in
     case sig_first_tags e dk st sg of
       (dk, Inl sg) \<Rightarrow> (None, dk, sg, signlen)
     | (dk, Inr (sg, canons, hdrlist)) \<Rightarrow>
    (case sig_length st signlen of (ok, signlen) \<Rightarrow>
     if \<not> ok then (None, dk, sg\<lparr>sig_error := DKIM_SIGERROR_INVALID_L\<rparr>, signlen)
     else case sig_last_tags lib st sg of
       Inl sg \<Rightarrow> (None, dk, sg, signlen)
     | Inr sg \<Rightarrow> (case sig_handles e dk st sg canons hdrlist signlen of (ret, dk, sg) \<Rightarrow> (ret, dk, sg, signlen))))"

text \<open>The loop over the signature sets; \<open>c\<close> does not move past a bad one.\<close>

fun siglist_loop :: "env \<Rightarrow> dkim \<Rightarrow> nat list \<Rightarrow> nat \<Rightarrow> int \<Rightarrow> int \<times> dkim" where
  "siglist_loop e dk [] c signlen = (DKIM_STAT_OK, dk)"
| "siglist_loop e dk (k # ks) c signlen =
    (if \<not> c < dkim_sigcount dk then (DKIM_STAT_OK, dk)
     else if set_bad (dkim_sets dk ! k) then siglist_loop e dk ks c signlen
     else case siglist_element e dk k (dkim_siglist dk ! c) signlen of (ret, dk, sg, signlen) \<Rightarrow>
       (let dk = dk\<lparr>dkim_siglist := (dkim_siglist dk)[c := sg]\<rparr> in
        case ret of Some status \<Rightarrow> (status, dk) | None \<Rightarrow> siglist_loop e dk ks (Suc c) signlen))"

text \<open>The indices that \<open>dkim_set_first\<close> and \<open>dkim_set_next\<close> visit.\<close>

definition signature_sets :: "dkim \<Rightarrow> nat list" where
  "signature_sets dk = filter (\<lambda>k. set_type (dkim_sets dk ! k) = DKIM_SETTYPE_SIGNATURE) [0 ..< length (dkim_sets dk)]"

definition dkim_siglist_setup :: "env \<Rightarrow> dkim \<Rightarrow> int \<times> dkim" where
  "dkim_siglist_setup e dk =
    (if \<not> env_malloc e (8 * dkim_sigcount dk) then (DKIM_STAT_NORESOURCE, dk)
     else if dkim_sigcount dk > 0 \<and> \<not> env_malloc e sizeof_struct then (DKIM_STAT_NORESOURCE, dk)
     else siglist_loop e (dk\<lparr>dkim_siglist := replicate (dkim_sigcount dk) siginfo0\<rparr>) (signature_sets dk) 0 (- 1))"


subsection \<open>What the stages guarantee\<close>

text \<open>The only change of the handle before the canonicalizations is the subdomain mark.\<close>

definition marked :: "dkim \<Rightarrow> dkim \<Rightarrow> bool" where
  "marked dk dk' \<longleftrightarrow> dk' = dk \<or> dk' = dk\<lparr>dkim_subdomain := True\<rparr>"

lemma domainok_marked: "marked dk (snd (dkim_sig_domainok dk st))"
  by (auto simp: dkim_sig_domainok_def marked_def Let_def split: option.splits)

lemma domainok_marks: "dkim_sig_domainok dk st = (ok, dk') \<Longrightarrow> marked dk dk'"
  using domainok_marked [of dk st] by simp

lemma basics_Inl:
  "sig_basics e dk st sg = (dk', Inl sg') \<Longrightarrow> marked dk dk' \<and> sig_error sg' \<noteq> DKIM_SIGERROR_UNKNOWN"
  using domainok_marked [of dk st]
  by (auto simp: sig_basics_def Let_def marked_def split: option.splits if_splits prod.splits)

lemma basics_Inr:
  assumes "sig_basics e dk st sg = (dk', Inr sg')"
  obtains d s where "dkim_param_get st ''d'' = Some d" "d \<noteq> []" "dkim_param_get st ''s'' = Some s" "s \<noteq> []"
    "sg' = sg\<lparr>sig_domain := Some d, sig_selector := Some s\<rparr>" "dkim_sig_versionok dk st"
    "dkim_sig_domainok dk st = (True, dk')" "\<not> dkim_sig_expired e st (dkiml_clockdrift (dkim_libhandle dk))"
    "\<not> dkim_sig_future e st (dkiml_clockdrift (dkim_libhandle dk))" "dkim_sig_timestampsok st"
  using assms by (auto simp: sig_basics_def Let_def split: option.splits if_splits prod.splits)

lemma canons_Inl: "sig_canons st = Inl err \<Longrightarrow> err \<noteq> DKIM_SIGERROR_UNKNOWN"
  by (auto simp: sig_canons_def Let_def split: option.splits if_splits)

lemma algorithm_Inl: "sig_algorithm st sg = Inl sg' \<Longrightarrow> sig_error sg' \<noteq> DKIM_SIGERROR_UNKNOWN"
  by (auto simp: sig_algorithm_def Let_def split: option.splits if_splits)

lemma algorithm_Inr:
  assumes "sig_algorithm st sg = Inr sg'"
  obtains a where "dkim_param_get st ''a'' = Some a" "dkim_name_to_code prv_algorithms a \<noteq> - 1"
    "sg' = sg\<lparr>sig_signalg := dkim_name_to_code prv_algorithms a,
      sig_hashtype := (if dkim_name_to_code prv_algorithms a = DKIM_SIGN_RSASHA1 then DKIM_HASHTYPE_SHA1
                       else DKIM_HASHTYPE_SHA256)\<rparr>"
  using assms by (auto simp: sig_algorithm_def Let_def split: option.splits if_splits)

lemma hdrlist_Inl: "sig_hdrlist e st = Inl err \<Longrightarrow> err \<noteq> DKIM_SIGERROR_UNKNOWN"
  by (auto simp: sig_hdrlist_def split: option.splits if_splits)

lemma hdrlist_Inr:
  "sig_hdrlist e st = Inr h \<longleftrightarrow> dkim_param_get st ''h'' = Some h \<and> h \<noteq> [] \<and> dkim_sig_hdrlistok e h"
  by (auto simp: sig_hdrlist_def split: option.splits if_splits)

lemma query_Inl: "sig_querymethod lib st sg = Inl sg' \<Longrightarrow> sig_error sg' \<noteq> DKIM_SIGERROR_UNKNOWN"
  by (auto simp: sig_querymethod_def split: option.splits if_splits prod.splits)

lemma query_Inr: "sig_querymethod lib st sg = Inr sg' \<Longrightarrow> \<exists>q. sg' = sg\<lparr>sig_query := q\<rparr>"
  by (auto simp: sig_querymethod_def override_query_def split: option.splits if_splits prod.splits)
    (metis siginfo.surjective siginfo.update_convs(11))+

lemma values_Inl: "sig_values st sg = Inl sg' \<Longrightarrow> sig_error sg' \<noteq> DKIM_SIGERROR_UNKNOWN"
  by (auto simp: sig_values_def Let_def split: option.splits if_splits)

lemma values_Inr:
  assumes "sig_values st sg = Inr sg'"
  obtains t bh b where "sg' = sg\<lparr>sig_timestamp := t\<rparr>" "dkim_param_get st ''bh'' = Some bh" "bh \<noteq> []"
    "dkim_param_get st ''b'' = Some b" "b \<noteq> []"
  using assms by (auto simp: sig_values_def Let_def split: option.splits if_splits)

lemma add_canon_OK:
  assumes "dkim_add_canon e dk hdr canon hashtype hdrlist sighdr len = (DKIM_STAT_OK, h, dk')"
  obtains i ext where "h = Some i" "dk' = dk\<lparr>dkim_canons := dkim_canons dk @ ext\<rparr>" "i < length (dkim_canons dk @ ext)"
    "canon_hdr ((dkim_canons dk @ ext) ! i) = hdr" "canon_canon ((dkim_canons dk @ ext) ! i) = canon"
    "canon_hashtype ((dkim_canons dk @ ext) ! i) = hashtype"
    "canon_length ((dkim_canons dk @ ext) ! i) = (if hdr then - 1 else len)"
    "hdr \<Longrightarrow> canon_hdrlist ((dkim_canons dk @ ext) ! i) = hdrlist \<and> canon_sigheader ((dkim_canons dk @ ext) ! i) = sighdr"
proof (cases "if \<not> hdr then find_canon 0 (dkim_canons dk) canon hashtype len else None")
  case (Some i)
  then have "\<not> hdr" "find_canon 0 (dkim_canons dk) canon hashtype len = Some i" by (auto split: if_splits)
  then show ?thesis
    using assms Some find_canon_Some [of 0 "dkim_canons dk" canon hashtype len i] that [of i "[]"]
    by (auto simp: dkim_add_canon_def)
next
  case None
  then show ?thesis
    using assms that [of "length (dkim_canons dk)" "[new_canon hdr canon hashtype hdrlist sighdr len]"]
    by (auto simp: dkim_add_canon_def new_canon_def split: if_splits)
qed


subsection \<open>Accepted signatures\<close>

text \<open>
  What an accepted element holds: its tags, the decoded signature, and two canonicalizations of its
  own algorithms and hash, the one of the headers reading its "h=" and its own header field.
\<close>

definition sig_linked :: "dkim \<Rightarrow> siginfo \<Rightarrow> bool" where
  "sig_linked dk sg \<longleftrightarrow> (\<exists>k d s h b sigbytes hc bc.
     sig_taglist sg = Some k \<and> sig_domain sg = Some d \<and> sig_selector sg = Some s \<and> sig_sig sg = Some sigbytes \<and>
     sig_hdrcanon sg = Some hc \<and> sig_bodycanon sg = Some bc \<and> sig_bh sg = DKIM_SIGBH_UNTESTED \<and> sig_flags sg = 0 \<and>
     (let st = dkim_sets dk ! k in
        dkim_param_get st ''d'' = Some d \<and> d \<noteq> [] \<and> dkim_param_get st ''s'' = Some s \<and> s \<noteq> [] \<and>
        dkim_param_get st ''h'' = Some h \<and> h \<noteq> [] \<and> dkim_param_get st ''b'' = Some b \<and>
        dkim_base64_decode b (length b) = Inr sigbytes \<and> dkim_param_get st ''bh'' \<noteq> None \<and>
        hc < length (dkim_canons dk) \<and> bc < length (dkim_canons dk) \<and>
        (let c = dkim_canons dk ! hc in
           canon_hdr c \<and> canon_hdrlist c = Some h \<and> canon_sigheader c = set_udata st \<and>
           canon_canon c = sig_hdrcanonalg sg \<and> canon_hashtype c = sig_hashtype sg) \<and>
        (let c = dkim_canons dk ! bc in
           \<not> canon_hdr c \<and> canon_canon c = sig_bodycanonalg sg \<and> canon_hashtype c = sig_hashtype sg)))"

text \<open>The checks an accepted element has passed.\<close>

definition sig_checked :: "env \<Rightarrow> dkim \<Rightarrow> siginfo \<Rightarrow> bool" where
  "sig_checked e dk sg \<longleftrightarrow>
    (let st = dkim_sets dk ! the (sig_taglist sg); drift = dkiml_clockdrift (dkim_libhandle dk) in
     dkim_sig_versionok dk st \<and> fst (dkim_sig_domainok dk st) \<and> \<not> dkim_sig_expired e st drift \<and>
     \<not> dkim_sig_future e st drift \<and> dkim_sig_timestampsok st \<and>
     dkim_sig_hdrlistok e (the (dkim_param_get st ''h'')))"

definition dk_extends :: "dkim \<Rightarrow> dkim \<Rightarrow> bool" where
  "dk_extends dk dk' \<longleftrightarrow> (\<exists>ext. dkim_canons dk' = dkim_canons dk @ ext) \<and> dkim_sets dk' = dkim_sets dk \<and>
     dkim_siglist dk' = dkim_siglist dk \<and> dkim_sigcount dk' = dkim_sigcount dk \<and>
     dkim_libhandle dk' = dkim_libhandle dk \<and> dkim_hdrs dk' = dkim_hdrs dk"

lemma extends_trans: "dk_extends a b \<Longrightarrow> dk_extends b c \<Longrightarrow> dk_extends a c"
  by (auto simp: dk_extends_def)

lemma extends_marked: "marked dk dk' \<Longrightarrow> dk_extends dk dk'"
  by (auto simp: dk_extends_def marked_def)

lemma extends_canons [simp]: "dk_extends dk (dk\<lparr>dkim_canons := dkim_canons dk @ ext\<rparr>)"
  by (simp add: dk_extends_def)

lemma linked_mono:
  assumes "sig_linked dk sg" "dkim_sets dk' = dkim_sets dk" "dkim_canons dk' = dkim_canons dk @ ext"
  shows "sig_linked dk' sg"
proof -
  have "k < length (dkim_canons dk) \<Longrightarrow> dkim_canons dk' ! k = dkim_canons dk ! k" for k
    using assms(3) by (simp add: nth_append)
  then show ?thesis
    using assms(1) unfolding sig_linked_def assms(2) Let_def by (fastforce simp: assms(3))
qed

lemma versionok_cong: "dkim_libhandle dk' = dkim_libhandle dk \<Longrightarrow> dkim_sig_versionok dk' st = dkim_sig_versionok dk st"
  by (simp add: dkim_sig_versionok_def)

lemma domainok_cong: "fst (dkim_sig_domainok dk' st) = fst (dkim_sig_domainok dk st)"
  by (simp add: dkim_sig_domainok_def Let_def split: option.splits)

lemma checked_mono: "sig_checked e dk sg \<Longrightarrow> dk_extends dk dk' \<Longrightarrow> sig_checked e dk' sg"
  unfolding sig_checked_def dk_extends_def Let_def
  using versionok_cong [of dk' dk] domainok_cong [of dk' _ dk] by simp

lemma handles_None:
  assumes "sig_handles e dk st sg canons h signlen = (None, dk', sg')"
    "dkim_param_get st ''b'' = Some b"
  shows "(dk' = dk \<and> sig_error sg' = DKIM_SIGERROR_CORRUPT_B) \<or>
    (dk_extends dk dk' \<and> (\<exists>bytes hc bc. dkim_base64_decode b (length b) = Inr bytes \<and>
        sg' = sg\<lparr>sig_sig := Some bytes, sig_siglen := length bytes, sig_hdrcanon := Some hc,
          sig_hdrcanonalg := fst canons, sig_bodycanon := Some bc, sig_bodycanonalg := snd canons,
          sig_bh := DKIM_SIGBH_UNTESTED, sig_flags := 0\<rparr> \<and>
        hc < length (dkim_canons dk') \<and> bc < length (dkim_canons dk') \<and>
        (let c = dkim_canons dk' ! hc in
           canon_hdr c \<and> canon_hdrlist c = Some h \<and> canon_sigheader c = set_udata st \<and>
           canon_canon c = fst canons \<and> canon_hashtype c = sig_hashtype sg) \<and>
        (let c = dkim_canons dk' ! bc in
           \<not> canon_hdr c \<and> canon_canon c = snd canons \<and> canon_hashtype c = sig_hashtype sg \<and>
           canon_length c = signlen)))"
proof (cases "dkim_base64_decode b (length b)")
  case (Inl err)
  then show ?thesis
    using assms by (auto simp: sig_handles_def Let_def split: prod.splits if_splits)
next
  case (Inr bytes)
  obtain hcan bcan where canons: "canons = (hcan, bcan)" by force
  have mem: "env_malloc e (length b)"
    using assms by (simp add: sig_handles_def canons Let_def split: if_splits)
  obtain st1 h1 dk1 where a1: "dkim_add_canon e dk True hcan (sig_hashtype sg) (Some h) (set_udata st) 0 = (st1, h1, dk1)"
    by (metis prod_cases3)
  with assms Inr mem have st1: "st1 = DKIM_STAT_OK"
    by (simp add: sig_handles_def canons Let_def split: if_splits)
  obtain hc ext1 where h1: "h1 = Some hc" "dk1 = dk\<lparr>dkim_canons := dkim_canons dk @ ext1\<rparr>"
    "hc < length (dkim_canons dk @ ext1)" "canon_hdr ((dkim_canons dk @ ext1) ! hc)"
    "canon_canon ((dkim_canons dk @ ext1) ! hc) = hcan" "canon_hashtype ((dkim_canons dk @ ext1) ! hc) = sig_hashtype sg"
    "canon_hdrlist ((dkim_canons dk @ ext1) ! hc) = Some h" "canon_sigheader ((dkim_canons dk @ ext1) ! hc) = set_udata st"
    by (rule add_canon_OK [OF a1 [unfolded st1]]) (rule that, (assumption | blast | simp)+)
  obtain st2 h2 dk2 where a2: "dkim_add_canon e dk1 False bcan (sig_hashtype sg) None None signlen = (st2, h2, dk2)"
    by (metis prod_cases3)
  with assms Inr mem a1 st1 have st2: "st2 = DKIM_STAT_OK"
    by (simp add: sig_handles_def canons Let_def split: if_splits)
  obtain bc ext2 where h2: "h2 = Some bc" "dk2 = dk1\<lparr>dkim_canons := dkim_canons dk1 @ ext2\<rparr>"
    "bc < length (dkim_canons dk1 @ ext2)" "canon_hdr ((dkim_canons dk1 @ ext2) ! bc) = False"
    "canon_canon ((dkim_canons dk1 @ ext2) ! bc) = bcan" "canon_hashtype ((dkim_canons dk1 @ ext2) ! bc) = sig_hashtype sg"
    "canon_length ((dkim_canons dk1 @ ext2) ! bc) = (if False then - 1 else signlen)"
    by (rule add_canon_OK [OF a2 [unfolded st2]])
  let ?sg = "sg\<lparr>sig_sig := Some bytes, sig_siglen := length bytes, sig_hdrcanon := Some hc,
      sig_hdrcanonalg := hcan, sig_bodycanon := Some bc, sig_bodycanonalg := bcan,
      sig_bh := DKIM_SIGBH_UNTESTED, sig_flags := 0\<rparr>"
  have "sig_handles e dk st sg canons h signlen = (None, dk2, ?sg)"
    by (simp add: sig_handles_def canons Let_def assms(2) Inr mem a1 a2 st1 st2 h1(1) h2(1))
  with assms(1) have res: "dk' = dk2" "sg' = ?sg" by simp_all
  have "(dkim_canons dk2) ! hc = (dkim_canons dk @ ext1) ! hc" "hc < length (dkim_canons dk2)"
    using h1(2,3) h2(2) by (simp_all add: nth_append)
  moreover have "dk_extends dk dk2" using h1(2) h2(2) by (simp add: dk_extends_def)
  ultimately show ?thesis
    unfolding res canons fst_conv snd_conv Let_def
    using h1(4-) h2(2-) Inr by (intro disjI2 conjI exI [of _ bytes] exI [of _ hc] exI [of _ bc]) simp_all
qed


lemma basics_marked: "sig_basics e dk st sg = (dk', r) \<Longrightarrow> marked dk dk'"
proof (cases r)
  case (Inr sg')
  assume "sig_basics e dk st sg = (dk', r)"
  with Inr show ?thesis using domainok_marks by (metis basics_Inr)
qed (use basics_Inl in blast)

lemma first_tags_extends: "sig_first_tags e dk st sg = (dk', r) \<Longrightarrow> dk_extends dk dk'"
proof -
  assume "sig_first_tags e dk st sg = (dk', r)"
  moreover obtain dk1 r1 where "sig_basics e dk st sg = (dk1, r1)" by force
  ultimately show "dk_extends dk dk'"
    using extends_marked [OF basics_marked] unfolding sig_first_tags_def
    by (simp split: sum.splits)
qed

lemma first_tags_Inl:
  "sig_first_tags e dk st sg = (dk', Inl sg') \<Longrightarrow> sig_error sg' \<noteq> DKIM_SIGERROR_UNKNOWN"
  unfolding sig_first_tags_def
  by (auto split: prod.splits sum.splits dest: basics_Inl canons_Inl algorithm_Inl hdrlist_Inl)

lemma first_tags_Inr:
  assumes "sig_first_tags e dk st sg = (dk', Inr (sg', canons, h))"
  shows "dk_extends dk dk' \<and> (\<exists>d s alg ht.
    dkim_param_get st ''d'' = Some d \<and> d \<noteq> [] \<and> dkim_param_get st ''s'' = Some s \<and> s \<noteq> [] \<and>
    sg' = sg\<lparr>sig_domain := Some d, sig_selector := Some s, sig_signalg := alg, sig_hashtype := ht\<rparr>) \<and>
    dkim_param_get st ''h'' = Some h \<and> h \<noteq> [] \<and>
    dkim_sig_versionok dk st \<and> fst (dkim_sig_domainok dk st) \<and>
    \<not> dkim_sig_expired e st (dkiml_clockdrift (dkim_libhandle dk)) \<and>
    \<not> dkim_sig_future e st (dkiml_clockdrift (dkim_libhandle dk)) \<and> dkim_sig_timestampsok st \<and>
    dkim_sig_hdrlistok e h"
proof -
  obtain sg1 where st: "sig_basics e dk st sg = (dk', Inr sg1)" "sig_algorithm st sg1 = Inr sg'"
      "sig_hdrlist e st = Inr h"
    using assms unfolding sig_first_tags_def by (auto split: prod.splits sum.splits)
  from basics_Inr [OF st(1)] obtain d s where ds: "dkim_param_get st ''d'' = Some d" "d \<noteq> []"
    "dkim_param_get st ''s'' = Some s" "s \<noteq> []" "sg1 = sg\<lparr>sig_domain := Some d, sig_selector := Some s\<rparr>"
    "dkim_sig_versionok dk st" "dkim_sig_domainok dk st = (True, dk')"
    "\<not> dkim_sig_expired e st (dkiml_clockdrift (dkim_libhandle dk))"
    "\<not> dkim_sig_future e st (dkiml_clockdrift (dkim_libhandle dk))" "dkim_sig_timestampsok st" by blast
  from algorithm_Inr [OF st(2)] obtain alg ht where "sg' = sg1\<lparr>sig_signalg := alg, sig_hashtype := ht\<rparr>"
    by blast
  then show ?thesis
    using ds st(3) first_tags_extends [OF assms] unfolding hdrlist_Inr by simp blast
qed

lemma last_tags_Inl: "sig_last_tags lib st sg = Inl sg' \<Longrightarrow> sig_error sg' \<noteq> DKIM_SIGERROR_UNKNOWN"
  unfolding sig_last_tags_def by (auto split: sum.splits dest: query_Inl values_Inl)

lemma last_tags_Inr:
  assumes "sig_last_tags lib st sg = Inr sg'"
  shows "\<exists>q t b. sg' = sg\<lparr>sig_query := q, sig_timestamp := t\<rparr> \<and> dkim_param_get st ''bh'' \<noteq> None \<and>
    dkim_param_get st ''b'' = Some b"
proof -
  obtain sg1 where st: "sig_querymethod lib st sg = Inr sg1" "sig_values st sg1 = Inr sg'"
    using assms unfolding sig_last_tags_def by (auto split: sum.splits)
  show ?thesis
    using query_Inr [OF st(1)] by (rule_tac values_Inr [OF st(2)]) auto
qed

lemma override_fields [simp]:
  "sig_error (override_query lib sg) = sig_error sg" "sig_taglist (override_query lib sg) = sig_taglist sg"
  by (simp_all add: override_query_def)

text \<open>One element: it fails with a code of its own, or is linked and checked and has the length.\<close>

lemma element_result:
  assumes el: "siglist_element e dk k sg0 signlen = (None, dk', sg, signlen')"
  shows "dk_extends dk dk' \<and> (sig_error sg = DKIM_SIGERROR_UNKNOWN \<longrightarrow>
      sig_linked dk' sg \<and> sig_checked e dk' sg \<and> sig_taglist sg = Some k \<and>
      sig_length (dkim_sets dk ! k) signlen = (True, signlen') \<and>
      canon_length (dkim_canons dk' ! the (sig_bodycanon sg)) = signlen')"
proof -
  let ?st = "dkim_sets dk ! k" and ?lib = "dkim_libhandle dk"
  let ?sg1 = "override_query ?lib (sg0\<lparr>sig_error := DKIM_SIGERROR_UNKNOWN, sig_taglist := Some k\<rparr>)"
  obtain dk1 r where r: "sig_first_tags e dk ?st ?sg1 = (dk1, r)" by force
  show ?thesis
  proof (cases r)
    case (Inl sgx)
    then show ?thesis
      using el r first_tags_Inl [of e dk ?st ?sg1 dk1 sgx] first_tags_extends [OF r]
      by (simp add: siglist_element_def)
  next
    case (Inr r2)
    then obtain sg2 canons h where f: "sig_first_tags e dk ?st ?sg1 = (dk1, Inr (sg2, canons, h))"
      using r by (cases r2) auto
    note F = first_tags_Inr [OF f]
    obtain ok len where len: "sig_length ?st signlen = (ok, len)" by force
    have el2: "(if \<not> ok then (None, dk1, sg2\<lparr>sig_error := DKIM_SIGERROR_INVALID_L\<rparr>, len)
       else case sig_last_tags ?lib ?st sg2 of
         Inl sg \<Rightarrow> (None, dk1, sg, len)
       | Inr sg \<Rightarrow> (case sig_handles e dk1 ?st sg canons h len of (ret, dk, sg) \<Rightarrow> (ret, dk, sg, len)))
       = (None, dk', sg, signlen')"
      using el unfolding siglist_element_def Let_def f len by simp
    show ?thesis
    proof (cases "\<exists>sg3. ok \<and> sig_last_tags ?lib ?st sg2 = Inr sg3")
      case False
      have "dk' = dk1 \<and> sig_error sg \<noteq> DKIM_SIGERROR_UNKNOWN"
      proof (cases ok)
        case True
        with False obtain sgx where "sig_last_tags ?lib ?st sg2 = Inl sgx"
          by (cases "sig_last_tags ?lib ?st sg2") auto
        then show ?thesis using el2 True last_tags_Inl [of ?lib ?st sg2 sgx] by simp
      next
        case False
        then show ?thesis using el2 by auto
      qed
      then show ?thesis using F by simp
    next
      case True
      then obtain sg3 where sg3: "ok" "sig_last_tags ?lib ?st sg2 = Inr sg3" by blast
      then have hd: "sig_handles e dk1 ?st sg3 canons h len = (None, dk', sg)" "signlen' = len"
        using el2 by (simp_all split: prod.splits)
      from last_tags_Inr [OF sg3(2)] obtain q t b where L: "sg3 = sg2\<lparr>sig_query := q, sig_timestamp := t\<rparr>"
        "dkim_param_get ?st ''bh'' \<noteq> None" "dkim_param_get ?st ''b'' = Some b" by blast
      from handles_None [OF hd(1) L(3)] show ?thesis
      proof
        assume "dk' = dk1 \<and> sig_error sg = DKIM_SIGERROR_CORRUPT_B"
        then show ?thesis using F by simp
      next
        assume H: "dk_extends dk1 dk' \<and> (\<exists>bytes hc bc. dkim_base64_decode b (length b) = Inr bytes \<and>
          sg = sg3\<lparr>sig_sig := Some bytes, sig_siglen := length bytes, sig_hdrcanon := Some hc,
            sig_hdrcanonalg := fst canons, sig_bodycanon := Some bc, sig_bodycanonalg := snd canons,
            sig_bh := DKIM_SIGBH_UNTESTED, sig_flags := 0\<rparr> \<and>
          hc < length (dkim_canons dk') \<and> bc < length (dkim_canons dk') \<and>
          (let c = dkim_canons dk' ! hc in
             canon_hdr c \<and> canon_hdrlist c = Some h \<and> canon_sigheader c = set_udata ?st \<and>
             canon_canon c = fst canons \<and> canon_hashtype c = sig_hashtype sg3) \<and>
          (let c = dkim_canons dk' ! bc in
             \<not> canon_hdr c \<and> canon_canon c = snd canons \<and> canon_hashtype c = sig_hashtype sg3 \<and>
             canon_length c = len))"
        then obtain bytes hc bc where H2: "dkim_base64_decode b (length b) = Inr bytes"
          "sg = sg3\<lparr>sig_sig := Some bytes, sig_siglen := length bytes, sig_hdrcanon := Some hc,
            sig_hdrcanonalg := fst canons, sig_bodycanon := Some bc, sig_bodycanonalg := snd canons,
            sig_bh := DKIM_SIGBH_UNTESTED, sig_flags := 0\<rparr>"
          "hc < length (dkim_canons dk')" "bc < length (dkim_canons dk')"
          "canon_hdr (dkim_canons dk' ! hc)" "canon_hdrlist (dkim_canons dk' ! hc) = Some h"
          "canon_sigheader (dkim_canons dk' ! hc) = set_udata ?st" "canon_canon (dkim_canons dk' ! hc) = fst canons"
          "canon_hashtype (dkim_canons dk' ! hc) = sig_hashtype sg3" "canon_hdr (dkim_canons dk' ! bc) = False"
          "canon_canon (dkim_canons dk' ! bc) = snd canons" "canon_hashtype (dkim_canons dk' ! bc) = sig_hashtype sg3"
          "canon_length (dkim_canons dk' ! bc) = len"
          unfolding Let_def by blast
        from F obtain d s alg ht where ds: "dkim_param_get ?st ''d'' = Some d" "d \<noteq> []"
          "dkim_param_get ?st ''s'' = Some s" "s \<noteq> []" "dkim_param_get ?st ''h'' = Some h" "h \<noteq> []"
          "sg2 = ?sg1\<lparr>sig_domain := Some d, sig_selector := Some s, sig_signalg := alg, sig_hashtype := ht\<rparr>"
          by blast
        have ext: "dk_extends dk dk'" using F H extends_trans by blast
        then have sets: "dkim_sets dk' = dkim_sets dk" by (simp add: dk_extends_def)
        have "sig_linked dk' sg"
          unfolding sig_linked_def Let_def sets
          by (rule exI [of _ k], rule exI [of _ d], rule exI [of _ s], rule exI [of _ h], rule exI [of _ b],
              rule exI [of _ bytes], rule exI [of _ hc], rule exI [of _ bc])
            (simp add: H2(1) H2(3-) ds(1-6) L H2(2) ds(7))
        moreover have "sig_taglist sg = Some k" "sig_bodycanon sg = Some bc"
          by (simp_all add: H2(2) L(1) ds(7))
        moreover have "sig_checked e dk sg"
          using F calculation(2) ds(5) by (simp add: sig_checked_def Let_def)
        then have "sig_checked e dk' sg" using ext by (rule checked_mono)
        ultimately show ?thesis using ext len sg3(1) hd(2) H2(13) by simp
      qed
    qed
  qed
qed


subsection \<open>The whole list\<close>

lemma set_search_filter:
  "set_search i sts t = (case filter (\<lambda>k. t = DKIM_SETTYPE_ANY \<or> set_type (sts ! (k - i)) = t) [i ..< i + length sts] of
     [] \<Rightarrow> None | k # _ \<Rightarrow> Some k)"
proof (induction sts arbitrary: i)
  case (Cons s sts)
  let ?F = "filter (\<lambda>k. t = DKIM_SETTYPE_ANY \<or> set_type ((s # sts) ! (k - i)) = t)"
  have tl: "?F [Suc i ..< i + length (s # sts)] =
      filter (\<lambda>k. t = DKIM_SETTYPE_ANY \<or> set_type (sts ! (k - Suc i)) = t) [Suc i ..< Suc i + length sts]"
    by (intro filter_cong) (auto simp: nth_Cons' Suc_diff_Suc)
  have ups: "[i ..< i + length (s # sts)] = i # [Suc i ..< i + length (s # sts)]"
    by (rule upt_conv_Cons) simp
  show ?case
  proof (cases "t = DKIM_SETTYPE_ANY \<or> set_type s = t")
    case True
    then show ?thesis unfolding ups by simp
  next
    case False
    then have "?F [i ..< i + length (s # sts)] = ?F [Suc i ..< i + length (s # sts)]"
      unfolding ups by simp
    with False tl show ?thesis using Cons.IH [of "Suc i"] by simp
  qed
qed simp

text \<open>The two iterators visit exactly the indices the loop runs over.\<close>

lemma signature_sets_first:
  "dkim_set_first dk DKIM_SETTYPE_SIGNATURE = (case signature_sets dk of [] \<Rightarrow> None | k # _ \<Rightarrow> Some k)"
  by (simp add: dkim_set_first_def set_search_filter signature_sets_def)

lemma signature_sets_next:
  assumes "signature_sets dk = ks @ k # ks'"
  shows "dkim_set_next dk k DKIM_SETTYPE_SIGNATURE = (case ks' of [] \<Rightarrow> None | k' # _ \<Rightarrow> Some k')"
proof -
  let ?P = "\<lambda>k. set_type (dkim_sets dk ! k) = DKIM_SETTYPE_SIGNATURE" and ?n = "length (dkim_sets dk)"
  have "k \<in> set (signature_sets dk)" using assms by simp
  then have k: "k < ?n" and P: "?P k" by (simp_all add: signature_sets_def)
  then have "[0 ..< ?n] = [0 ..< k] @ k # [Suc k ..< ?n]"
    by (metis less_imp_add_positive upt_conv_Cons upt_add_eq_append zero_le)
  with P have "ks @ k # ks' = filter ?P [0 ..< k] @ k # filter ?P [Suc k ..< ?n]"
    using assms by (simp add: signature_sets_def)
  moreover have "distinct (ks @ k # ks')" unfolding assms [symmetric] by (simp add: signature_sets_def)
  ultimately have "ks' = filter ?P [Suc k ..< ?n]"
    by (subst (asm) append_Cons_eq_iff) auto
  moreover have "filter (\<lambda>j. set_type (drop (Suc k) (dkim_sets dk) ! (j - Suc k)) = DKIM_SETTYPE_SIGNATURE) [Suc k ..< ?n]
      = filter ?P [Suc k ..< ?n]"
    using k by (intro filter_cong) auto
  moreover have len: "Suc k + length (drop (Suc k) (dkim_sets dk)) = ?n" using k by simp
  ultimately show ?thesis
    unfolding dkim_set_next_def set_search_filter len by (simp del: upt_Suc upt.simps nth_drop)
qed


definition siglist_inv :: "env \<Rightarrow> dkim \<Rightarrow> bool" where
  "siglist_inv e dk \<longleftrightarrow> (\<forall>sg\<in>set (dkim_siglist dk). sig_error sg = DKIM_SIGERROR_UNKNOWN \<longrightarrow>
     sig_linked dk sg \<and> sig_checked e dk sg)"

lemma siglist_inv_update:
  assumes "siglist_inv e dk" "dk_extends dk dk'" "sig_error sg = DKIM_SIGERROR_UNKNOWN \<Longrightarrow> sig_linked dk' sg \<and> sig_checked e dk' sg"
  shows "siglist_inv e (dk'\<lparr>dkim_siglist := (dkim_siglist dk')[c := sg]\<rparr>)"
  unfolding siglist_inv_def
proof (intro ballI impI)
  fix x
  let ?d = "dk'\<lparr>dkim_siglist := (dkim_siglist dk')[c := sg]\<rparr>"
  assume x: "x \<in> set (dkim_siglist ?d)" "sig_error x = DKIM_SIGERROR_UNKNOWN"
  have "sig_linked dk' x \<and> sig_checked e dk' x"
  proof (cases "x = sg")
    case False
    then have "x \<in> set (dkim_siglist dk)"
      using x(1) assms(2) set_update_subset_insert [of "dkim_siglist dk'" c sg] by (auto simp: dk_extends_def)
    with assms(1) x(2) have "sig_linked dk x" "sig_checked e dk x" by (simp_all add: siglist_inv_def)
    with assms(2) show ?thesis using linked_mono checked_mono by (metis dk_extends_def)
  qed (use assms(3) x(2) in simp)
  then show "sig_linked ?d x \<and> sig_checked e ?d x"
    using linked_mono [of dk' x ?d "[]"] domainok_cong [of ?d _ dk'] versionok_cong [of ?d dk']
    by (simp add: sig_checked_def Let_def)
qed

lemma handles_return:
  "sig_handles e dk st sg canons h signlen = (Some status, dk', sg') \<Longrightarrow> status \<noteq> DKIM_STAT_OK"
  by (auto simp: sig_handles_def Let_def split: prod.splits sum.splits if_splits)

lemma element_return:
  "siglist_element e dk k sg0 signlen = (Some status, dk', sg, signlen') \<Longrightarrow> status \<noteq> DKIM_STAT_OK"
  by (auto simp: siglist_element_def Let_def split: prod.splits sum.splits if_splits dest: handles_return)

lemma siglist_loop_inv:
  assumes "siglist_loop e dk ks c signlen = (DKIM_STAT_OK, dk')" "siglist_inv e dk"
  shows "siglist_inv e dk' \<and> length (dkim_siglist dk') = length (dkim_siglist dk) \<and>
    dkim_sets dk' = dkim_sets dk \<and> dkim_hdrs dk' = dkim_hdrs dk"
  using assms
proof (induction e dk ks c signlen rule: siglist_loop.induct)
  case (2 e dk k ks c signlen)
  obtain ret dk1 sg len where el: "siglist_element e dk k (dkim_siglist dk ! c) signlen = (ret, dk1, sg, len)"
    by (metis prod_cases4)
  let ?d = "dk1\<lparr>dkim_siglist := (dkim_siglist dk1)[c := sg]\<rparr>"
  consider "\<not> c < dkim_sigcount dk" | "c < dkim_sigcount dk" "set_bad (dkim_sets dk ! k)"
    | "c < dkim_sigcount dk" "\<not> set_bad (dkim_sets dk ! k)" by blast
  then show ?case
  proof cases
    case 3
    show ?thesis
    proof (cases ret)
      case None
      from element_result [OF el [unfolded None]]
      have ext: "dk_extends dk dk1" and ok: "sig_error sg = DKIM_SIGERROR_UNKNOWN \<Longrightarrow> sig_linked dk1 sg \<and> sig_checked e dk1 sg"
        by blast+
      have "siglist_loop e ?d ks (Suc c) len = (DKIM_STAT_OK, dk')"
        using "2.prems"(1) 3 el None by (simp add: Let_def)
      with "2.IH"(2) [OF _ _ el [symmetric]] 3 None siglist_inv_update [OF "2.prems"(2) ext ok]
      show ?thesis using ext by (simp add: dk_extends_def)
    next
      case (Some st)
      then have "st = DKIM_STAT_OK \<and> dk' = ?d" using "2.prems"(1) 3 el by (simp add: Let_def)
      then show ?thesis using element_return [OF el [unfolded Some]] by blast
    qed
  qed (use "2" in simp_all)
qed simp

lemma siglist_setup_inv:
  assumes "dkim_siglist_setup e dk = (DKIM_STAT_OK, dk')"
  shows "siglist_inv e dk' \<and> length (dkim_siglist dk') = dkim_sigcount dk \<and>
    dkim_sets dk' = dkim_sets dk \<and> dkim_hdrs dk' = dkim_hdrs dk"
proof -
  let ?d = "dk\<lparr>dkim_siglist := replicate (dkim_sigcount dk) siginfo0\<rparr>"
  have "siglist_inv e ?d" by (simp add: siglist_inv_def siginfo0_def)
  moreover have "siglist_loop e ?d (signature_sets dk) 0 (- 1) = (DKIM_STAT_OK, dk')"
    using assms by (simp add: dkim_siglist_setup_def split: if_splits)
  ultimately show ?thesis using siglist_loop_inv by fastforce
qed



text \<open>
  The length of the body that an accepted signature covers is its own "l=" (as a signed 64-bit
  number) when it has one; without "l=" it is whatever the variable \<open>signlen\<close> holds, which for a
  later signature is the "l=" of an earlier one rather than "the whole body".
\<close>
lemma siglist_length:
  assumes "siglist_element e dk k sg0 signlen = (None, dk', sg, signlen')"
    "sig_error sg = DKIM_SIGERROR_UNKNOWN"
  shows "canon_length (dkim_canons dk' ! the (sig_bodycanon sg)) = signlen' \<and>
    signlen' = (case dkim_param_get (dkim_sets dk ! k) ''l'' of None \<Rightarrow> signlen
      | Some l \<Rightarrow> sint (fst (dkim_strtoul l)))"
proof -
  have "sig_length (dkim_sets dk ! k) signlen = (True, signlen')"
    "canon_length (dkim_canons dk' ! the (sig_bodycanon sg)) = signlen'"
    using element_result [OF assms(1)] assms(2) by auto
  then show ?thesis
    by (auto simp: sig_length_def split: option.splits prod.splits if_splits)
qed

definition siglist_tags :: "(string \<times> string) list \<Rightarrow> dkim_set" where
  "siglist_tags extra = sig_set_of (extra @ [(''v'', ''1''), (''a'', ''rsa-sha1''), (''c'', ''simple''), (''d'', ''x''),
     (''s'', ''k''), (''h'', ''from''), (''bh'', ''QQ''), (''b'', ''QUFB'')])"

definition siglist_dk :: "(string \<times> string) list list \<Rightarrow> dkim" where
  "siglist_dk extras = (dkim_zero lib0)\<lparr>dkim_sets := map siglist_tags extras, dkim_sigcount := length extras,
     dkim_hdrs := []\<rparr>"

text \<open>The body lengths that the accepted signatures of a handle cover.\<close>

definition siglist_lengths :: "int \<times> dkim \<Rightarrow> (int \<times> int) list" where
  "siglist_lengths r = map (\<lambda>sg. (sig_error sg, canon_length (dkim_canons (snd r) ! the (sig_bodycanon sg))))
     (dkim_siglist (snd r))"

definition siglist_run2 :: "int \<times> dkim" where
  "siglist_run2 = dkim_siglist_setup env0 (siglist_dk [[(''l'', ''5'')], []])"

lemmas siglist_eval =
  dkim_siglist_setup_def signature_sets_def siglist_element_def sig_first_tags_def sig_last_tags_def
  sig_basics_def sig_canons_def sig_algorithm_def sig_hdrlist_def sig_length_def sig_querymethod_def
  sig_values_def sig_handles_def override_query_def dkim_sig_versionok_def dkim_sig_domainok_def
  dkim_sig_expired_def dkim_sig_future_def dkim_sig_timestampsok_def dkim_sig_hdrlistok_def
  required_signhdrs_def dkim_add_canon_def new_canon_def siglist_tags_def sig_set_of_def
  dkim_param_get_def strlcpy_id prv_canonicalizations_def prv_algorithms_def strcaseeq_def before_def

lemmas siglist_data_eval =
  siglist_dk_def dkim_zero_def lib0_def env0_def siginfo0_def Let_def dkim_strtoul_def dkim_base64_decode_def
  b64_decode_tail_def is_b64char_def decoder_def

lemma siglist_length_inherited:
  "fst siglist_run2 = DKIM_STAT_OK \<and> siglist_lengths siglist_run2 = [(DKIM_SIGERROR_UNKNOWN, 5), (DKIM_SIGERROR_UNKNOWN, 5)]"
  by (simp add: siglist_run2_def siglist_lengths_def siglist_data_eval siglist_eval char_eval cctype)


lemma siglist_length_witness:
  "\<exists>dk' sg. siglist_element env0 (siglist_dk [[]]) 0 siginfo0 7 = (None, dk', sg, 7) \<and>
     canon_length (dkim_canons dk' ! the (sig_bodycanon sg)) = 7"
proof -
  have "\<exists>dk' sg. siglist_element env0 (siglist_dk [[]]) 0 siginfo0 7 = (None, dk', sg, 7) \<and>
      sig_error sg = DKIM_SIGERROR_UNKNOWN"
    by (simp add: siglist_data_eval siglist_eval char_eval cctype)
  then show ?thesis using siglist_length by blast
qed

end
