(* ===== verification/Dkim_Keys.thy ===== *)
theory Dkim_Keys
  imports Dkim_Siglist
begin

text \<open>
  Getting a key: the queries of \<open>dkim-keys.c\<close> (a DNS TXT reply, or a line of a text file) and
  \<open>dkim_get_key\<close> of \<open>dkim.c\<close>, which takes the key of an earlier signature, the caller's callback or a
  query, parses the record and applies its restrictions.

  The record \<open>world\<close> holds what comes from outside: the callbacks, the resolver, the text of the key
  file, the regular expressions, the status of creating a temporary file, and RSA. \<open>res_query\<close> gives \<open>h_errno\<close> or a length and the bytes of
  \<open>ansbuf\<close>; the variant without the asynchronous resolver, unbound and the cache is modelled.

  The lemmas say what a returned key satisfies, that the payload is the concatenation of the
  character strings of the TXT record, and that the copy trusts their length bytes.
\<close>

record world =
  w_key_lookup :: "(dkim \<Rightarrow> siginfo \<Rightarrow> int \<times> string) option"
  w_prescreen :: "(dkim \<Rightarrow> int \<times> dkim) option"
  w_final :: "(dkim \<Rightarrow> int \<times> dkim) option"
  w_res_query :: "string \<Rightarrow> nat + nat \<times> string"
  w_dn_skipname :: dn_scan
  w_dn_expand :: dn_scan
  w_keyfile :: "string option"
  w_regcomp :: regex
  w_pubkey :: "string \<Rightarrow> nat option"
  w_tmpfile :: int
  w_rsa_verify :: "int \<Rightarrow> string \<Rightarrow> string \<Rightarrow> string \<Rightarrow> bool"

abbreviation (input) DKIM_QUERY_FILE :: int where "DKIM_QUERY_FILE \<equiv> 1"
abbreviation (input) HOST_NOT_FOUND :: nat where "HOST_NOT_FOUND \<equiv> 1"
abbreviation (input) NO_DATA :: nat where "NO_DATA \<equiv> 4"

subsection \<open>The DNS query\<close>

definition key_qname :: "siginfo \<Rightarrow> nat \<Rightarrow> string" where
  "key_qname sg n = take n (the (sig_selector sg) @ ''.'' @ DKIM_DNSKEYNAME @ ''.'' @ the (sig_domain sg))"

text \<open>
  The answers up to the first TXT record: a status, or the pointer where the loop stopped and
  whether \<open>ancount\<close> went below 0. A CNAME is skipped by expanding the name at the pointer after its
  TTL, and a failure of that moves the pointer back by one.
\<close>

fun key_answers :: "dn_scan \<Rightarrow> string \<Rightarrow> nat \<Rightarrow> nat \<Rightarrow> nat \<Rightarrow> int + nat \<times> bool" where
  "key_answers dn_expand buf eom 0 cp = Inr (cp, True)"
| "key_answers dn_expand buf eom (Suc ancount) cp =
    (if \<not> cp < eom then Inr (cp, False)
     else case dn_expand buf eom cp of
       None \<Rightarrow> Inl DKIM_STAT_KEYFAIL
     | Some n \<Rightarrow>
         (let cp = cp + n in
          if cp + 2 + 2 > eom then Inl DKIM_STAT_KEYFAIL
          else let typ = rd16 buf cp; cp = cp + 8 in
            if typ = T_CNAME then
              key_answers dn_expand buf eom ancount (case dn_expand buf eom cp of None \<Rightarrow> cp - 1 | Some n \<Rightarrow> cp + n)
            else if typ \<noteq> T_TXT then Inl DKIM_STAT_KEYFAIL
            else if ancount > 0 then Inl DKIM_STAT_MULTIDNSREPLY
            else Inr (cp, False)))"

text \<open>
  The two loops that copy the payload: \<open>room\<close> is \<open>eob - p\<close>, \<open>n\<close> the bytes of the record left. The
  inner loop ends with the length byte \<open>c\<close> or the room, not with \<open>n\<close>.
\<close>

fun txt_string :: "string \<Rightarrow> nat \<Rightarrow> nat \<Rightarrow> int \<Rightarrow> nat \<Rightarrow> string \<Rightarrow> nat \<times> int \<times> nat \<times> string" where
  "txt_string buf 0 cp n room out = (cp, n, room, out)"
| "txt_string buf (Suc c) cp n room out =
    (if room > 0 then txt_string buf c (cp + 1) (n - 1) (room - 1) (out @ [char_of (rd8 buf cp)])
     else (cp, n, room, out))"

lemma txt_string_n: "txt_string buf c cp n room out = (cp', n', room', out') \<Longrightarrow> n' \<le> n"
  by (induction buf c cp n room out rule: txt_string.induct) (auto split: if_splits)

function txt_payload :: "string \<Rightarrow> nat \<Rightarrow> int \<Rightarrow> nat \<Rightarrow> string \<Rightarrow> string" where
  "txt_payload buf cp n room out =
    (if n > 0 \<and> room > 0 then
       (case txt_string buf (rd8 buf cp) (cp + 1) (n - 1) room out of
          (cp, n, room, out) \<Rightarrow> txt_payload buf cp n room out)
     else out)"
  by pat_completeness auto
termination
  by (relation "measure (\<lambda>(buf, cp, n, room, out). nat n)")
    (auto split: prod.split dest!: txt_string_n)

declare txt_payload.simps [simp del]

text \<open>The status and the C string left in \<open>buf\<close>, of \<open>buflen\<close> bytes.\<close>

definition dkim_get_key_dns :: "world \<Rightarrow> siginfo \<Rightarrow> nat \<Rightarrow> int \<times> string" where
  "dkim_get_key_dns w sg buflen =
    (case w_res_query w (key_qname sg (DKIM_MAXHOSTNAMELEN + 1 - 2)) of
       Inl h_errno \<Rightarrow> (if h_errno = HOST_NOT_FOUND \<or> h_errno = NO_DATA then DKIM_STAT_NOKEY else DKIM_STAT_KEYFAIL, [])
     | Inr (anslen, ansbuf) \<Rightarrow>
    (case dns_questions (w_dn_skipname w) ansbuf anslen (rd16 ansbuf 4) HFIXEDSZ 65535 65535 of
       Inl r \<Rightarrow> (DKIM_STAT_KEYFAIL, [])
     | Inr (cp, typ, cls) \<Rightarrow>
         if typ \<noteq> T_TXT \<or> cls \<noteq> C_IN then (DKIM_STAT_KEYFAIL, [])
         else if rd8 ansbuf 3 mod 16 = NXDOMAIN then (DKIM_STAT_NOKEY, [])
         else if dkim_check_dns_reply (w_dn_skipname w) (w_dn_expand w) ansbuf anslen C_IN T_TXT = 1
         then (DKIM_STAT_KEYFAIL, [])
         else if rd16 ansbuf 6 = 0 then (DKIM_STAT_NOKEY, [])
         else case key_answers (w_dn_expand w) ansbuf anslen (rd16 ansbuf 6) cp of
             Inl status \<Rightarrow> (status, [])
           | Inr (cp, below) \<Rightarrow>
               if below then (DKIM_STAT_KEYFAIL, [])
               else if cp + 2 > anslen then (DKIM_STAT_KEYFAIL, [])
               else let n = rd16 ansbuf cp; cp = cp + 2 in
                 if cp + n > anslen then (DKIM_STAT_SYNTAX, [])
                 else (DKIM_STAT_OK, cstr (txt_payload ansbuf cp (int n) (buflen - 1) []))))"

subsection \<open>The key file\<close>

text \<open>\<open>fgets\<close>: at most \<open>n - 1\<close> bytes, through the first newline.\<close>

fun fgets :: "nat \<Rightarrow> string \<Rightarrow> string \<times> string" where
  "fgets 0 f = ([], f)"
| "fgets (Suc n) [] = ([], [])"
| "fgets (Suc n) (c # f) =
    (if c = LF then ([c], f) else (case fgets n f of (l, f') \<Rightarrow> (c # l, f')))"

text \<open>
  The scan of a line: the name is what precedes the first NUL written, \<open>p2\<close> what follows the last
  white space of the first run. A newline ends the line only if it comes before that.
\<close>

fun key_line :: "bool \<Rightarrow> string \<Rightarrow> string \<Rightarrow> string \<times> string option" where
  "key_line sp name [] = (name, if sp then Some [] else None)"
| "key_line sp name (p # s) =
    (if p = LF then (name, if sp then Some [] else None)
     else if isascii p \<and> isspace p then key_line True name s
     else if sp then (name, Some (p # s))
     else key_line False (name @ [p]) s)"

function key_file_scan :: "string \<Rightarrow> nat \<Rightarrow> string \<Rightarrow> int \<times> string" where
  "key_file_scan name buflen f =
    (if f = [] \<or> buflen < 2 then (DKIM_STAT_NOKEY, [])
     else (case fgets (buflen - 1) f of (line, f') \<Rightarrow>
       (case key_line False [] line of (buf, p2) \<Rightarrow>
          if strcaseeq name buf \<and> p2 \<noteq> None then (DKIM_STAT_OK, strlcpy (the p2) buflen)
          else key_file_scan name buflen f')))"
  by pat_completeness auto

lemma fgets_length: "fgets n f = (l, f') \<Longrightarrow> length l + length f' = length f"
  by (induction n f arbitrary: l f' rule: fgets.induct) (auto split: if_splits prod.splits)

lemma fgets_nonempty: "fgets n f = (l, f') \<Longrightarrow> f \<noteq> [] \<Longrightarrow> n > 0 \<Longrightarrow> l \<noteq> []"
  by (cases n; cases f) (auto split: if_splits prod.splits)

lemma fgets_shorter:
  "(l, f') = fgets (b - Suc 0) f \<Longrightarrow> f \<noteq> [] \<Longrightarrow> \<not> b < 2 \<Longrightarrow> length f' < length f"
  using fgets_length [of "b - Suc 0" f l f'] fgets_nonempty [of "b - Suc 0" f l f'] by (cases l) auto

termination key_file_scan
  by (relation "measure (\<lambda>(name, buflen, f). length f)") (auto dest: fgets_shorter)

declare key_file_scan.simps [simp del]

definition dkim_get_key_file :: "world \<Rightarrow> siginfo \<Rightarrow> nat \<Rightarrow> int \<times> string" where
  "dkim_get_key_file w sg buflen =
    (case w_keyfile w of None \<Rightarrow> (DKIM_STAT_KEYFAIL, [])
     | Some f \<Rightarrow> key_file_scan (key_qname sg BUFRSZ) buflen f)"


subsection \<open>The identity of the signer\<close>

text \<open>The status and the string left in the zeroed buffer; a negative length is a huge unsigned one.\<close>

definition dkim_sig_getidentity :: "dkim \<Rightarrow> siginfo option \<Rightarrow> nat \<Rightarrow> int \<times> string" where
  "dkim_sig_getidentity dk sg vallen =
    (case (case sg of Some s \<Rightarrow> Some s | None \<Rightarrow> map_option (\<lambda>i. dkim_siglist dk ! i) (dkim_signature dk)) of
       None \<Rightarrow> (DKIM_STAT_INVALID, [])
     | Some sg \<Rightarrow>
        (let st = dkim_sets dk ! the (sig_taglist sg) in
         case dkim_param_get st ''i'' of
           None \<Rightarrow>
             (case dkim_param_get st ''d'' of
                None \<Rightarrow> (DKIM_STAT_INTERNAL, [])
              | Some d \<Rightarrow> (if length d + 1 < vallen then DKIM_STAT_OK else DKIM_STAT_NORESOURCE,
                           strlcpy (CHR ''@'' # d) vallen))
         | Some i \<Rightarrow>
             (case dkim_qp_decode i vallen of
                QP_Error s \<Rightarrow> (DKIM_STAT_NORESOURCE, cstr s)
              | r \<Rightarrow> (if length (qp_written r) < vallen then DKIM_STAT_OK else DKIM_STAT_NORESOURCE, cstr (qp_written r)))))"

subsection \<open>\<open>dkim_get_key\<close>\<close>

text \<open>Another signature that was processed and has the same domain and selector.\<close>

definition key_source :: "siginfo list \<Rightarrow> nat \<Rightarrow> siginfo option" where
  "key_source sigs j =
    find (\<lambda>og. and (sig_flags og) DKIM_SIGFLAG_PROCESSED \<noteq> 0 \<and> sig_domain og = sig_domain (sigs ! j) \<and>
            sig_selector og = sig_selector (sigs ! j))
      (take j sigs @ drop (Suc j) sigs)"

text \<open>
  Copying from it: \<open>Inl\<close> is a return; otherwise the element with \<open>gotkey\<close>. As many bytes are copied
  as the other's "p=" was long, a length that is not copied with them.
\<close>

definition key_copy :: "env \<Rightarrow> siginfo option \<Rightarrow> siginfo \<Rightarrow> int + bool \<times> siginfo" where
  "key_copy e src sg =
    (case src of None \<Rightarrow> Inr (False, sg)
     | Some og \<Rightarrow>
        (case (case sig_key og of
             None \<Rightarrow> Inr (False, sg)
           | Some key \<Rightarrow> if \<not> env_malloc e (sig_b64keylen og) then Inl DKIM_STAT_NORESOURCE
               else Inr (True, sg\<lparr>sig_key := Some (take (sig_b64keylen og) key), sig_keylen := sig_keylen og\<rparr>)) of
           Inl st \<Rightarrow> Inl st
         | Inr (gotkey, sg) \<Rightarrow>
             Inr (gotkey, if sig_keytaglist og \<noteq> None then sg\<lparr>sig_keytaglist := sig_keytaglist og\<rparr> else sg)))"

text \<open>The record: \<open>Inl\<close> is a return; the callback is asked unless the key was copied.\<close>

definition key_lookup :: "world \<Rightarrow> dkim \<Rightarrow> siginfo \<Rightarrow> bool \<Rightarrow> bool \<Rightarrow> int + string" where
  "key_lookup w dk sg gotkey gotset =
    (let query = (if gotset then Inr []
         else (case (if sig_query sg = DKIM_QUERY_DNS then dkim_get_key_dns w sg (BUFRSZ + 1)
                     else dkim_get_key_file w sg (BUFRSZ + 1)) of
             (status, buf) \<Rightarrow> if status \<noteq> DKIM_STAT_OK then Inl status else Inr buf)) in
     if gotkey then query
     else case w_key_lookup w of
       None \<Rightarrow> query
     | Some f \<Rightarrow> (case f dk sg of (cbstatus, buf) \<Rightarrow>
         if cbstatus = DKIM_CBSTAT_CONTINUE then Inr (strlcpy buf (BUFRSZ + 1))
         else if cbstatus = DKIM_CBSTAT_REJECT then Inl DKIM_STAT_CBREJECT
         else if cbstatus = DKIM_CBSTAT_TRYAGAIN then Inl DKIM_STAT_CBTRYAGAIN
         else if cbstatus = DKIM_CBSTAT_NOTFOUND then Inl DKIM_STAT_NOKEY
         else if cbstatus = DKIM_CBSTAT_ERROR then Inl DKIM_STAT_CBERROR
         else Inl DKIM_STAT_CBINVALID))"

text \<open>"decode the payload": the set just parsed is the last key set.\<close>

definition key_sets :: "dkim \<Rightarrow> nat list" where
  "key_sets dk = filter (\<lambda>k. set_type (dkim_sets dk ! k) = DKIM_SETTYPE_KEY) [0 ..< length (dkim_sets dk)]"

definition key_parse :: "env \<Rightarrow> dkim \<Rightarrow> siginfo \<Rightarrow> bool \<Rightarrow> string \<Rightarrow> int \<times> dkim \<times> siginfo" where
  "key_parse e dk sg gotset buf =
    (if gotset then (DKIM_STAT_OK, dk, sg)
     else if buf = [] then (DKIM_STAT_SYNTAX, dk, sg)
     else case dkim_process_set e dk DKIM_SETTYPE_KEY buf (length buf) None False of (status, dk) \<Rightarrow>
       if status \<noteq> DKIM_STAT_OK then (status, dk, sg)
       else (DKIM_STAT_OK, dk, sg\<lparr>sig_keytaglist := Some (last (key_sets dk))\<rparr>))"

text \<open>The restrictions of the record: a refusal is a status and the error code, if it sets one.\<close>

definition key_refusal :: "world \<Rightarrow> dkim \<Rightarrow> siginfo \<Rightarrow> dkim_set \<Rightarrow> (int \<times> int) option" where
  "key_refusal w dk sg st =
    (let v = dkim_param_get st ''v''; h = dkim_param_get st ''h''; g = dkim_param_get st ''g'';
         k = dkim_param_get st ''k'' in
     if v \<noteq> None \<and> v \<noteq> Some DKIM_VERSION_KEY then Some (DKIM_STAT_SYNTAX, DKIM_SIGERROR_KEYVERSION)
     else if \<not> dkim_key_hashesok h then Some (DKIM_STAT_SYNTAX, DKIM_SIGERROR_KEYUNKNOWNHASH)
     else if \<not> dkim_key_hashok sg h then Some (DKIM_STAT_CANTVRFY, DKIM_SIGERROR_KEYHASHMISMATCH)
     else if \<not> dkim_key_smtp st then Some (DKIM_STAT_CANTVRFY, DKIM_SIGERROR_NOTEMAILKEY)
     else if (case g of None \<Rightarrow> False
              | Some p \<Rightarrow> \<not> dkim_key_granok (w_regcomp w) dk v p
                  (before (snd (dkim_sig_getidentity dk (Some sg) (BUFRSZ + 1))) CHR ''@''))
     then Some (DKIM_STAT_CANTVRFY, DKIM_SIGERROR_GRANULARITY)
     else case k of
       None \<Rightarrow> Some (DKIM_STAT_SYNTAX, DKIM_SIGERROR_KEYTYPEMISSING)
     | Some p \<Rightarrow> if dkim_name_to_code prv_keytypes p = - 1 then Some (DKIM_STAT_SYNTAX, DKIM_SIGERROR_KEYTYPEUNKNOWN)
                 else None)"

definition key_decode :: "env \<Rightarrow> siginfo \<Rightarrow> dkim_set \<Rightarrow> int \<times> siginfo" where
  "key_decode e sg st =
    (case dkim_param_get st ''p'' of
       None \<Rightarrow> (DKIM_STAT_SYNTAX, sg\<lparr>sig_b64key := None\<rparr>)
     | Some p \<Rightarrow>
        (let sg = sg\<lparr>sig_b64key := Some p\<rparr> in
         if p = [] then (DKIM_STAT_REVOKED, sg)
         else let sg = sg\<lparr>sig_b64keylen := length p\<rparr> in
           if \<not> env_malloc e (length p) then (DKIM_STAT_NORESOURCE, sg\<lparr>sig_key := None\<rparr>)
           else case dkim_base64_decode p (length p) of
             Inl err \<Rightarrow> (DKIM_STAT_SYNTAX, sg\<lparr>sig_key := Some []\<rparr>)
           | Inr key \<Rightarrow> (DKIM_STAT_OK, sg\<lparr>sig_key := Some key, sig_keylen := length key\<rparr>)))"

definition key_flags :: "dkim_set \<Rightarrow> siginfo \<Rightarrow> siginfo" where
  "key_flags st sg =
    (case dkim_param_get st ''t'' of None \<Rightarrow> sg
     | Some p \<Rightarrow> fold (\<lambda>t sg. let flag = dkim_name_to_code prv_keyflags t in
           if flag \<noteq> - 1 then sg\<lparr>sig_flags := or (sig_flags sg) (word_of_int flag)\<rparr> else sg)
         (strtok CHR '':'' (strlcpy p (BUFRSZ + 1))) sg)"

text \<open>The whole function on the \<open>j\<close>-th element, which it updates in the list.\<close>

definition get_key_sig :: "world \<Rightarrow> env \<Rightarrow> dkim \<Rightarrow> nat \<Rightarrow> int \<times> dkim \<times> siginfo" where
  "get_key_sig w e dk j =
    (let sg = dkim_siglist dk ! j in
     case key_copy e (key_source (dkim_siglist dk) j) sg of
       Inl st \<Rightarrow> (st, dk, sg)
     | Inr (gotkey, sg1) \<Rightarrow>
        (let gotset = (map_option (\<lambda>og. sig_keytaglist og \<noteq> None) (key_source (dkim_siglist dk) j) = Some True) in
         case key_lookup w dk sg1 gotkey gotset of
           Inl st \<Rightarrow> (st, dk, sg1)
         | Inr buf \<Rightarrow> (case key_parse e dk sg1 gotset buf of (st, dk1, sg2) \<Rightarrow>
             if st \<noteq> DKIM_STAT_OK then (st, dk1, sg2)
             else (let kset = dkim_sets dk1 ! the (sig_keytaglist sg2) in
               case key_refusal w dk1 sg2 kset of
                 Some (st, err) \<Rightarrow> (st, dk1, sg2\<lparr>sig_error := err\<rparr>)
               | None \<Rightarrow> (case (if gotkey then (DKIM_STAT_OK, sg2) else key_decode e sg2 kset) of (st, sg3) \<Rightarrow>
                   if st \<noteq> DKIM_STAT_OK then (st, dk1, sg3)
                   else (DKIM_STAT_OK, dk1, key_flags kset sg3))))))"

definition dkim_get_key :: "world \<Rightarrow> env \<Rightarrow> dkim \<Rightarrow> nat \<Rightarrow> int \<times> dkim" where
  "dkim_get_key w e dk j =
    (case get_key_sig w e dk j of (st, dk1, sg) \<Rightarrow> (st, dk1\<lparr>dkim_siglist := (dkim_siglist dk1)[j := sg]\<rparr>))"


subsection \<open>The payload of a TXT record\<close>

definition txt_rdata :: "string list \<Rightarrow> string" where
  "txt_rdata strs = concat (map (\<lambda>s. char_of (length s) # s) strs)"

lemma txt_string_enough:
  "c \<le> room \<Longrightarrow> txt_string buf c cp n room out =
    (cp + c, n - int c, room - c, out @ map (\<lambda>i. char_of (rd8 buf i)) [cp ..< cp + c])"
  by (induction c arbitrary: cp n room out) (auto simp: upt_conv_Cons simp del: upt_Suc)

lemma rd8_slice:
  "map (\<lambda>i. char_of (rd8 (pre @ s @ post) i)) [length pre ..< length pre + length s] = s"
  by (rule nth_equalityI) (auto simp: rd8_def nth_append)

lemma txt_payload_strings:
  assumes "\<forall>s\<in>set strs. length s < 256" "length (concat strs) \<le> room"
  shows "txt_payload (pre @ txt_rdata strs @ post) (length pre) (int (length (txt_rdata strs))) room out = out @ concat strs"
  using assms
proof (induction strs arbitrary: pre room out)
  case Nil
  then show ?case by (simp add: txt_payload.simps txt_rdata_def)
next
  case (Cons s strs)
  let ?buf = "pre @ txt_rdata (s # strs) @ post" and ?n = "int (length (txt_rdata (s # strs)))"
  let ?pre = "pre @ char_of (length s) # s"
  have buf: "?buf = ?pre @ txt_rdata strs @ post" by (simp add: txt_rdata_def)
  have c: "rd8 ?buf (length pre) = length s"
    using Cons.prems(1) by (simp add: rd8_def txt_rdata_def nth_append)
  have bytes: "map (\<lambda>i. char_of (rd8 ?buf i)) [length pre + 1 ..< length pre + 1 + length s] = s"
    using rd8_slice [of "pre @ [char_of (length s)]" s "txt_rdata strs @ post"]
    by (simp add: txt_rdata_def)
  show ?case
  proof (cases "room = 0")
    case True
    then show ?thesis using Cons.prems(2) by (simp add: txt_payload.simps)
  next
    case False
    have "txt_string ?buf (length s) (length pre + 1) (?n - 1) room out
        = (length ?pre, int (length (txt_rdata strs)), room - length s, out @ s)"
      using Cons.prems(2) bytes by (subst txt_string_enough) (simp_all add: txt_rdata_def)
    then have "txt_payload ?buf (length pre) ?n room out =
        txt_payload ?buf (length ?pre) (int (length (txt_rdata strs))) (room - length s) (out @ s)"
      using False c by (subst txt_payload.simps) (simp add: txt_rdata_def)
    also have "\<dots> = (out @ s) @ concat strs"
      unfolding buf using Cons.prems by (intro Cons.IH) auto
    finally show ?thesis by simp
  qed
qed

text \<open>
  C34: from a TXT record made of character strings, the key query copies exactly their
  concatenation, up to the size of the buffer it was given.
\<close>
theorem txt_payload_spec:
  assumes "\<forall>s\<in>set strs. length s < 256" "length (concat strs) \<le> room"
  shows "txt_payload (pre @ txt_rdata strs @ post) (length pre) (int (length (txt_rdata strs))) room [] = concat strs"
  using txt_payload_strings [OF assms, of pre post "[]"] by simp

lemma txt_payload_spec_witness:
  "txt_payload (''zz'' @ txt_rdata [''v=DKIM1; '', ''p=QQ''] @ ''x'') 2 15 1024 [] = ''v=DKIM1; p=QQ''"
  using txt_payload_spec [of "[''v=DKIM1; '', ''p=QQ'']" 1024 "''zz''" "''x''"]
  by (simp add: txt_rdata_def numeral_2_eq_2)

text \<open>A length byte beyond the record is obeyed: bytes after the answer are copied.\<close>

lemma txt_payload_overread: "txt_payload (CHR 0x01 # ''b'') 0 1 1024 [] = ''b''"
  by (simp add: rd8_def txt_payload.simps, code_simp)

subsection \<open>What a key satisfies\<close>

lemma key_copy_frame:
  assumes "key_copy e src sg = Inr (gotkey, sg')"
  shows "\<exists>key len kt. sg' = sg\<lparr>sig_key := key, sig_keylen := len, sig_keytaglist := kt\<rparr>"
proof (cases src)
  case None
  then have "sg' = sg\<lparr>sig_key := sig_key sg, sig_keylen := sig_keylen sg, sig_keytaglist := sig_keytaglist sg\<rparr>"
    using assms by (simp add: key_copy_def)
  then show ?thesis by blast
next
  case (Some og)
  let ?sg = "if sig_key og = None then sg else sg\<lparr>sig_key := map_option (take (sig_b64keylen og)) (sig_key og), sig_keylen := sig_keylen og\<rparr>"
  have "sg' = (if sig_keytaglist og \<noteq> None then ?sg\<lparr>sig_keytaglist := sig_keytaglist og\<rparr> else ?sg)"
    using assms Some by (auto simp: key_copy_def split: option.splits if_splits sum.splits prod.splits)
  then have "sg' = sg\<lparr>sig_key := sig_key sg', sig_keylen := sig_keylen sg', sig_keytaglist := sig_keytaglist sg'\<rparr>"
    by simp
  then show ?thesis by blast
qed

lemma process_set_frame:
  "dkim_process_set e d type str len u sx = (st, d') \<Longrightarrow> \<exists>sts. d' = d\<lparr>dkim_sets := dkim_sets d @ sts\<rparr>"
  by (auto simp: dkim_process_set_def split: if_splits prod.splits intro: exI [of _ "[]"])

lemma key_parse_frame:
  assumes "key_parse e dk sg gotset buf = (st, dk', sg')"
  shows "\<exists>sts kt. dk' = dk\<lparr>dkim_sets := dkim_sets dk @ sts\<rparr> \<and> sg' = sg\<lparr>sig_keytaglist := kt\<rparr>"
proof (cases "gotset \<or> buf = []")
  case True
  then have "dk' = dk\<lparr>dkim_sets := dkim_sets dk @ []\<rparr> \<and> sg' = sg\<lparr>sig_keytaglist := sig_keytaglist sg\<rparr>"
    using assms by (auto simp: key_parse_def split: if_splits)
  then show ?thesis by blast
next
  case False
  obtain st1 dk1 where p: "dkim_process_set e dk DKIM_SETTYPE_KEY buf (length buf) None False = (st1, dk1)" by force
  then obtain sts where "dk1 = dk\<lparr>dkim_sets := dkim_sets dk @ sts\<rparr>" using process_set_frame by blast
  moreover have "dk' = dk1" "sg' = sg\<lparr>sig_keytaglist := sig_keytaglist sg'\<rparr>"
    using assms False p by (auto simp: key_parse_def split: if_splits)
  ultimately show ?thesis by blast
qed


lemma key_decode_frame:
  "key_decode e sg kset = (st, sg') \<Longrightarrow>
   \<exists>bk bl key kl. sg' = sg\<lparr>sig_b64key := bk, sig_b64keylen := bl, sig_key := key, sig_keylen := kl\<rparr>"
proof -
  assume "key_decode e sg kset = (st, sg')"
  then have "sg' = sg\<lparr>sig_b64key := sig_b64key sg', sig_b64keylen := sig_b64keylen sg', sig_key := sig_key sg',
      sig_keylen := sig_keylen sg'\<rparr>"
    by (auto simp: key_decode_def Let_def split: option.splits if_splits sum.splits)
  then show ?thesis by blast
qed

lemma key_decode_OK:
  "key_decode e sg kset = (DKIM_STAT_OK, sg') \<Longrightarrow>
   \<exists>p key. dkim_param_get kset ''p'' = Some p \<and> p \<noteq> [] \<and> dkim_base64_decode p (length p) = Inr key \<and> sig_key sg' = Some key"
  by (auto simp: key_decode_def Let_def split: option.splits if_splits sum.splits)

text \<open>The flags a key can set are those of its table, so "passed" and "ignore" are never among them.\<close>

lemma keyflag_values: "dkim_name_to_code prv_keyflags t \<in> {- 1, DKIM_SIGFLAG_TESTKEY, DKIM_SIGFLAG_NOSUBDOMAIN}"
  by (simp add: prv_keyflags_def)

definition flags_extend :: "32 word \<Rightarrow> 32 word \<Rightarrow> bool" where
  "flags_extend f g \<longleftrightarrow> (\<exists>m \<in> {0, 8, 16, 24}. g = or f m)"

lemma flags_extend_refl [simp]: "flags_extend f f"
  by (auto simp: flags_extend_def)

lemma flags_extend_or: "flags_extend f g \<Longrightarrow> m = 8 \<or> m = 16 \<Longrightarrow> flags_extend f (or g m)"
  by (auto simp: flags_extend_def or.assoc)

lemma flags_extend_bits:
  assumes "flags_extend f g"
  shows "and g DKIM_SIGFLAG_PASSED = and f DKIM_SIGFLAG_PASSED" "and g DKIM_SIGFLAG_IGNORE = and f DKIM_SIGFLAG_IGNORE"
    "and g DKIM_SIGFLAG_PROCESSED = and f DKIM_SIGFLAG_PROCESSED"
  using assms by (auto simp: flags_extend_def bit.conj_disj_distrib2)

lemma key_flags_frame: "\<exists>g. key_flags kset sg = sg\<lparr>sig_flags := g\<rparr> \<and> flags_extend (sig_flags sg) g"
proof -
  let ?f = "\<lambda>t sg. let flag = dkim_name_to_code prv_keyflags t in
     if flag \<noteq> - 1 then sg\<lparr>sig_flags := or (sig_flags sg) (word_of_int flag)\<rparr> else sg"
  have "\<exists>g. fold ?f ts s = sg\<lparr>sig_flags := g\<rparr> \<and> flags_extend (sig_flags sg) g"
    if "\<exists>g. s = sg\<lparr>sig_flags := g\<rparr> \<and> flags_extend (sig_flags sg) g" for ts s
    using that
  proof (induction ts arbitrary: s)
    case (Cons t ts)
    then obtain g where g: "s = sg\<lparr>sig_flags := g\<rparr>" "flags_extend (sig_flags sg) g" by blast
    have "\<exists>g. ?f t s = sg\<lparr>sig_flags := g\<rparr> \<and> flags_extend (sig_flags sg) g"
      using keyflag_values [of t] flags_extend_or [OF g(2)] g by (auto simp: Let_def)
    then show ?case using Cons.IH by simp
  qed simp
  moreover have base: "\<exists>g. sg = sg\<lparr>sig_flags := g\<rparr> \<and> flags_extend (sig_flags sg) g"
    by (intro exI [of _ "sig_flags sg"]) simp
  ultimately have "\<exists>g. fold ?f ts sg = sg\<lparr>sig_flags := g\<rparr> \<and> flags_extend (sig_flags sg) g" for ts
    by blast
  with base show ?thesis by (cases "dkim_param_get kset ''t''") (simp_all add: key_flags_def)
qed

lemma getidentity_cong:
  assumes "sig_taglist s = sig_taglist s'"
  shows "dkim_sig_getidentity dk (Some s) n = dkim_sig_getidentity dk (Some s') n"
  by (simp add: dkim_sig_getidentity_def assms)

lemma key_refusal_cong:
  assumes "sig_taglist s = sig_taglist s'" "sig_hashtype s = sig_hashtype s'"
  shows "key_refusal w dk s kset = key_refusal w dk s' kset"
  unfolding key_refusal_def getidentity_cong [OF assms(1)] dkim_key_hashok_def assms(2) ..

text \<open>All paths of \<open>dkim_get_key\<close> change only key fields, the error code and the flags of the table.\<close>

definition key_fields :: "siginfo \<Rightarrow> siginfo \<Rightarrow> bool" where
  "key_fields sg sg' \<longleftrightarrow> (\<exists>err key kl bk bl kt fl. flags_extend (sig_flags sg) fl \<and>
     sg' = sg\<lparr>sig_error := err, sig_key := key, sig_keylen := kl, sig_b64key := bk, sig_b64keylen := bl,
              sig_keytaglist := kt, sig_flags := fl\<rparr>)"


lemma key_fieldsI:
  assumes "flags_extend (sig_flags sg) (sig_flags sg')"
    "sg' = sg\<lparr>sig_error := sig_error sg', sig_key := sig_key sg', sig_keylen := sig_keylen sg',
      sig_b64key := sig_b64key sg', sig_b64keylen := sig_b64keylen sg', sig_keytaglist := sig_keytaglist sg',
      sig_flags := sig_flags sg'\<rparr>"
  shows "key_fields sg sg'"
  using assms unfolding key_fields_def by blast

lemma key_copy_fields: "key_copy e src sg = Inr (gotkey, sg') \<Longrightarrow> key_fields sg sg'"
  by (drule key_copy_frame, elim exE) (rule key_fieldsI, simp_all)

lemma key_fields_trans: "key_fields a b \<Longrightarrow> key_fields b c \<Longrightarrow> key_fields a c"
proof -
  assume a: "key_fields a b" and b: "key_fields b c"
  then have "flags_extend (sig_flags a) (sig_flags b)" "flags_extend (sig_flags b) (sig_flags c)"
    by (auto simp: key_fields_def)
  then have "flags_extend (sig_flags a) (sig_flags c)"
    by (auto simp: flags_extend_def or.assoc)
  with a b show ?thesis by (intro key_fieldsI) (auto simp: key_fields_def)
qed

lemma key_fields_keep:
  assumes "key_fields sg sg'"
  shows "sig_taglist sg' = sig_taglist sg" "sig_hashtype sg' = sig_hashtype sg" "sig_hdrcanon sg' = sig_hdrcanon sg"
    "sig_bodycanon sg' = sig_bodycanon sg" "sig_sig sg' = sig_sig sg" "sig_bh sg' = sig_bh sg"
    "sig_domain sg' = sig_domain sg" "sig_selector sg' = sig_selector sg"
    "flags_extend (sig_flags sg) (sig_flags sg')"
  using assms by (auto simp: key_fields_def)

text \<open>The stages of a call that got as far as the restrictions.\<close>

lemma get_key_stages:
  assumes "get_key_sig w e dk j = (st, dk', sg')"
  shows "(\<exists>sts. dk' = dk\<lparr>dkim_sets := dkim_sets dk @ sts\<rparr>) \<and> key_fields (dkim_siglist dk ! j) sg' \<and>
    (st = DKIM_STAT_OK \<longrightarrow> (\<exists>gotkey sg1 sg2 sg3. key_copy e (key_source (dkim_siglist dk) j) (dkim_siglist dk ! j) = Inr (gotkey, sg1) \<and>
       sig_key sg2 = sig_key sg1 \<and> sig_error sg2 = sig_error (dkim_siglist dk ! j) \<and> key_fields sg1 sg2 \<and>
       (let kset = dkim_sets dk' ! the (sig_keytaglist sg2) in
        key_refusal w dk' sg2 kset = None \<and>
        (if gotkey then (DKIM_STAT_OK, sg2) else key_decode e sg2 kset) = (DKIM_STAT_OK, sg3) \<and>
        sg' = key_flags kset sg3)))"
proof (cases "key_copy e (key_source (dkim_siglist dk) j) (dkim_siglist dk ! j)")
  let ?sg = "dkim_siglist dk ! j" and ?src = "key_source (dkim_siglist dk) j"
  have self: "\<exists>sts. dk = dk\<lparr>dkim_sets := dkim_sets dk @ sts\<rparr>" by (intro exI [of _ "[]"]) simp
  {
    case (Inl st1)
    then have "st = st1 \<and> dk' = dk \<and> sg' = ?sg" "st1 \<noteq> DKIM_STAT_OK"
      using assms by (auto simp: get_key_sig_def key_copy_def split: option.splits if_splits sum.splits prod.splits)
    then show ?thesis using self by (auto intro: key_fieldsI)
  next
    case (Inr r)
    then obtain gotkey sg1 where cp: "key_copy e ?src ?sg = Inr (gotkey, sg1)" by (cases r) auto
    let ?gs = "map_option (\<lambda>og. sig_keytaglist og \<noteq> None) ?src = Some True"
    have f1: "key_fields ?sg sg1" using cp by (rule key_copy_fields)
    have e1: "sig_error sg1 = sig_error ?sg" using key_copy_frame [OF cp] by auto
    show ?thesis
    proof (cases "key_lookup w dk sg1 gotkey ?gs")
      case (Inl st1)
      then have "st = st1 \<and> dk' = dk \<and> sg' = sg1" "st1 \<noteq> DKIM_STAT_OK"
        using assms cp by (auto simp: get_key_sig_def key_lookup_def Let_def split: option.splits if_splits prod.splits)
      then show ?thesis using self f1 by auto
    next
      case (Inr buf)
      obtain st1 dk1 sg2 where ps: "key_parse e dk sg1 ?gs buf = (st1, dk1, sg2)" by (metis prod_cases3)
      note kp = key_parse_frame [OF ps]
      then have f2: "key_fields sg1 sg2" "sig_key sg2 = sig_key sg1" "sig_error sg2 = sig_error ?sg"
        using e1 by (auto intro: key_fieldsI)
      let ?kset = "dkim_sets dk1 ! the (sig_keytaglist sg2)"
      have rest: "(if st1 \<noteq> DKIM_STAT_OK then (st1, dk1, sg2) else
          case key_refusal w dk1 sg2 ?kset of Some (st, err) \<Rightarrow> (st, dk1, sg2\<lparr>sig_error := err\<rparr>)
          | None \<Rightarrow> (case (if gotkey then (DKIM_STAT_OK, sg2) else key_decode e sg2 ?kset) of (st, sg3) \<Rightarrow>
              if st \<noteq> DKIM_STAT_OK then (st, dk1, sg3) else (DKIM_STAT_OK, dk1, key_flags ?kset sg3))) = (st, dk', sg')"
        using assms unfolding get_key_sig_def Let_def cp sum.case prod.case Inr ps .
      show ?thesis
      proof (cases "st1 = DKIM_STAT_OK \<and> key_refusal w dk1 sg2 ?kset = None")
        case False
        then have "dk' = dk1 \<and> (\<exists>err. sg' = sg2\<lparr>sig_error := err\<rparr>) \<and> st \<noteq> DKIM_STAT_OK"
          using rest
          by (auto simp: key_refusal_def Let_def split: if_splits option.splits intro: exI [of _ "sig_error sg2"])
        moreover have "key_fields sg2 (sg2\<lparr>sig_error := err\<rparr>)" for err by (rule key_fieldsI) simp_all
        ultimately show ?thesis using kp f1 f2 key_fields_trans by blast
      next
        case True
        obtain st2 sg3 where dec: "(if gotkey then (DKIM_STAT_OK, sg2) else key_decode e sg2 ?kset) = (st2, sg3)" by force
        have f3: "key_fields sg2 sg3"
        proof (cases gotkey)
          case True
          then show ?thesis using dec by (auto intro: key_fieldsI)
        next
          case False
          then have "key_decode e sg2 ?kset = (st2, sg3)" using dec by simp
          from key_decode_frame [OF this] show ?thesis by (elim exE) (rule key_fieldsI, simp_all)
        qed
        obtain g where "key_flags ?kset sg3 = sg3\<lparr>sig_flags := g\<rparr>" "flags_extend (sig_flags sg3) g"
          using key_flags_frame by blast
        then have f4: "key_fields sg3 (key_flags ?kset sg3)" by (intro key_fieldsI) simp_all
        have res: "dk' = dk1" "st = st2" "sg' = (if st2 = DKIM_STAT_OK then key_flags ?kset sg3 else sg3)"
          using rest True dec by (auto split: if_splits)
        have "key_fields ?sg sg'" unfolding res(3) using f1 f2(1) f3 f4 key_fields_trans by (metis (full_types))
        then show ?thesis
          using kp res True dec cp f2 unfolding Let_def by auto
      qed
    qed
  }
qed


text \<open>The key set of an element is one of the handle's, and a key that was got has one.\<close>

lemma process_set_appends:
  assumes "dkim_process_set e d type str len u False = (DKIM_STAT_OK, d')"
  shows "\<exists>st. d' = d\<lparr>dkim_sets := dkim_sets d @ [st]\<rparr> \<and> set_type st = type"
proof -
  let ?st = "\<lparr>set_bad = False, set_type = type, set_udata = u, set_plist = []\<rparr>"
  obtain status st where p: "parse_set e ?st (strlcpy str (len + 1)) False = (status, st)" by force
  then have "set_type st = type" using parse_set_inv by (fastforce simp: set_inv_def)
  with p assms show ?thesis by (auto simp: dkim_process_set_def split: if_splits)
qed

definition keytag_ok :: "dkim \<Rightarrow> siginfo \<Rightarrow> bool" where
  "keytag_ok dk sg \<longleftrightarrow> (\<forall>kt. sig_keytaglist sg = Some kt \<longrightarrow> kt < length (dkim_sets dk))"

lemma key_parse_taglist:
  assumes "key_parse e dk sg gotset buf = (st, dk', sg')" "keytag_ok dk sg" "gotset \<Longrightarrow> sig_keytaglist sg \<noteq> None"
  shows "keytag_ok dk' sg' \<and> (st = DKIM_STAT_OK \<longrightarrow> sig_keytaglist sg' \<noteq> None)"
proof (cases "gotset \<or> st \<noteq> DKIM_STAT_OK")
  case True
  have same: "sg' = sg"
  proof (cases "gotset \<or> buf = []")
    case True
    then show ?thesis using assms(1) by (auto simp: key_parse_def split: if_splits)
  next
    case False
    with True assms(1) show ?thesis by (cases "dkim_process_set e dk DKIM_SETTYPE_KEY buf (length buf) None False")
      (auto simp: key_parse_def split: if_splits)
  qed
  obtain sts where "dk' = dk\<lparr>dkim_sets := dkim_sets dk @ sts\<rparr>" using key_parse_frame [OF assms(1)] by blast
  then have "length (dkim_sets dk) \<le> length (dkim_sets dk')" by simp
  then have "keytag_ok dk' sg" using assms(2) unfolding keytag_ok_def by (metis order.strict_trans2)
  then show ?thesis unfolding same using assms(3) True by blast
next
  case False
  obtain st1 dk1 where ps: "dkim_process_set e dk DKIM_SETTYPE_KEY buf (length buf) None False = (st1, dk1)" by force
  have p: "st1 = DKIM_STAT_OK" "dk' = dk1" "sig_keytaglist sg' = Some (last (key_sets dk1))"
    using assms(1) False ps by (auto simp: key_parse_def split: if_splits)
  from process_set_appends [OF ps [unfolded p(1)]] obtain s1 where "dk1 = dk\<lparr>dkim_sets := dkim_sets dk @ [s1]\<rparr>"
    "set_type s1 = DKIM_SETTYPE_KEY" by blast
  then have "last (key_sets dk1) = length (dkim_sets dk) \<and> length (dkim_sets dk1) = length (dkim_sets dk) + 1"
    by (simp add: key_sets_def)
  then show ?thesis using p by (simp add: keytag_ok_def)
qed

lemma find_mem: "find P xs = Some x \<Longrightarrow> x \<in> set xs"
  by (induction xs) (auto split: if_splits)

lemma key_source_mem: "key_source sigs j = Some og \<Longrightarrow> og \<in> set sigs"
proof -
  assume "key_source sigs j = Some og"
  then have "og \<in> set (take j sigs @ drop (Suc j) sigs)"
    unfolding key_source_def by (rule find_mem)
  then show "og \<in> set sigs" by (auto dest: in_set_takeD in_set_dropD)
qed

lemma key_copy_taglist:
  assumes "key_copy e src sg = Inr (gotkey, sg')" "keytag_ok dk sg" "\<And>og. src = Some og \<Longrightarrow> keytag_ok dk og"
  shows "keytag_ok dk sg' \<and> (map_option (\<lambda>og. sig_keytaglist og \<noteq> None) src = Some True \<longrightarrow> sig_keytaglist sg' \<noteq> None)"
proof (cases src)
  case (Some og)
  have "sig_keytaglist sg' = (if sig_keytaglist og \<noteq> None then sig_keytaglist og else sig_keytaglist sg)"
  proof (cases "sig_key og")
    case None
    then show ?thesis using assms(1) Some by (auto simp: key_copy_def)
  next
    case (Some k)
    with assms(1) \<open>src = Some og\<close> show ?thesis by (auto simp: key_copy_def split: if_splits)
  qed
  then show ?thesis using assms(2,3) Some by (auto simp: keytag_ok_def split: if_splits)
qed (use assms in \<open>simp add: key_copy_def\<close>)

lemma key_copy_error: "key_copy e src sg = Inl st \<Longrightarrow> st \<noteq> DKIM_STAT_OK"
  by (auto simp: key_copy_def split: option.splits if_splits sum.splits)

lemma key_lookup_error: "key_lookup w dk sg gotkey gotset = Inl st \<Longrightarrow> st \<noteq> DKIM_STAT_OK"
  by (auto simp: key_lookup_def Let_def split: option.splits if_splits prod.splits)

lemma get_key_taglist:
  assumes "get_key_sig w e dk j = (st, dk', sg')" "\<forall>sg\<in>set (dkim_siglist dk). keytag_ok dk sg" "j < length (dkim_siglist dk)"
  shows "keytag_ok dk' sg' \<and> (st = DKIM_STAT_OK \<longrightarrow> sig_keytaglist sg' \<noteq> None)"
proof -
  let ?sg = "dkim_siglist dk ! j" and ?src = "key_source (dkim_siglist dk) j"
  let ?gs = "map_option (\<lambda>og. sig_keytaglist og \<noteq> None) ?src = Some True"
  have sg: "keytag_ok dk ?sg" using assms(2,3) by simp
  show ?thesis
  proof (cases "\<exists>gotkey sg1 buf. key_copy e ?src ?sg = Inr (gotkey, sg1) \<and> key_lookup w dk sg1 gotkey ?gs = Inr buf")
    case True
    then obtain gotkey sg1 buf where cp: "key_copy e ?src ?sg = Inr (gotkey, sg1)" and lk: "key_lookup w dk sg1 gotkey ?gs = Inr buf"
      by blast
    obtain st1 dk1 sg2 where ps: "key_parse e dk sg1 ?gs buf = (st1, dk1, sg2)" by (metis prod_cases3)
    have "keytag_ok dk sg1 \<and> (?gs \<longrightarrow> sig_keytaglist sg1 \<noteq> None)"
      using key_copy_taglist [OF cp sg] key_source_mem assms(2) by blast
    with key_parse_taglist [OF ps] have k2: "keytag_ok dk1 sg2 \<and> (st1 = DKIM_STAT_OK \<longrightarrow> sig_keytaglist sg2 \<noteq> None)" by blast
    let ?kset = "dkim_sets dk1 ! the (sig_keytaglist sg2)"
    have rest: "(if st1 \<noteq> DKIM_STAT_OK then (st1, dk1, sg2) else
        case key_refusal w dk1 sg2 ?kset of Some (st, err) \<Rightarrow> (st, dk1, sg2\<lparr>sig_error := err\<rparr>)
        | None \<Rightarrow> (case (if gotkey then (DKIM_STAT_OK, sg2) else key_decode e sg2 ?kset) of (st, sg3) \<Rightarrow>
            if st \<noteq> DKIM_STAT_OK then (st, dk1, sg3) else (DKIM_STAT_OK, dk1, key_flags ?kset sg3))) = (st, dk', sg')"
      using assms(1) unfolding get_key_sig_def Let_def cp sum.case prod.case lk ps .
    have fl: "sig_keytaglist (key_flags k s) = sig_keytaglist s" for k s
    proof -
      obtain g where "key_flags k s = s\<lparr>sig_flags := g\<rparr>" using key_flags_frame by blast
      then show ?thesis by simp
    qed
    have dec: "key_decode e sg2 k = (t, s) \<Longrightarrow> sig_keytaglist s = sig_keytaglist sg2" for k t s
      using key_decode_frame [of e sg2 k t s] by auto
    have "dk' = dk1 \<and> sig_keytaglist sg' = sig_keytaglist sg2 \<and> (st = DKIM_STAT_OK \<longrightarrow> st1 = DKIM_STAT_OK)"
      using rest by (auto simp: fl split: if_splits option.splits prod.splits dest: dec)
    then show ?thesis using k2 by (simp add: keytag_ok_def)
  next
    case False
    have "dk' = dk \<and> st \<noteq> DKIM_STAT_OK \<and> (sg' = ?sg \<or> (\<exists>gotkey. key_copy e ?src ?sg = Inr (gotkey, sg')))"
    proof (cases "key_copy e ?src ?sg")
      case (Inl st1)
      then show ?thesis using assms(1) key_copy_error [OF Inl] by (auto simp: get_key_sig_def)
    next
      case (Inr r)
      then obtain gotkey sg1 where cp: "key_copy e ?src ?sg = Inr (gotkey, sg1)" by (cases r) auto
      with False obtain st1 where lk: "key_lookup w dk sg1 gotkey ?gs = Inl st1"
        by (cases "key_lookup w dk sg1 gotkey ?gs") auto
      have "(st1, dk, sg1) = (st, dk', sg')"
        using assms(1) unfolding get_key_sig_def Let_def cp sum.case prod.case lk .
      then show ?thesis using key_lookup_error [OF lk] cp by auto
    qed
    then show ?thesis using sg key_copy_taglist [OF _ sg] key_source_mem assms(2) by blast
  qed
qed


text \<open>A world in which a callback knows one key, and every signature over a text ending in it passes.\<close>

definition world0 :: world where
  "world0 = \<lparr>w_key_lookup = Some (\<lambda>dk sg. (DKIM_CBSTAT_CONTINUE, ''k=rsa;p=QUJD'')), w_prescreen = None, w_final = None,
     w_res_query = (\<lambda>q. Inl 2), w_dn_skipname = (\<lambda>b n i. None), w_dn_expand = (\<lambda>b n i. None), w_keyfile = None,
     w_regcomp = (\<lambda>p. None), w_pubkey = (\<lambda>k. if k = ''ABC'' then Some 128 else None),
     w_tmpfile = DKIM_STAT_OK, w_rsa_verify = (\<lambda>nid digest sig key. digest = sig)\<rparr>"

definition key_dk :: dkim where
  "key_dk = (siglist_dk [[]])\<lparr>dkim_siglist := [siginfo0\<lparr>sig_domain := Some ''x'', sig_selector := Some ''k'',
     sig_taglist := Some 0\<rparr>]\<rparr>"

lemmas process_eval =
  dkim_process_set_def parse_set_def scan_byte_def scan_store_def scan_end_def dkim_add_plist_def set_check_def
  dkim_collapse_def

lemma get_key_run: "\<exists>dk' sg'. get_key_sig world0 env0 key_dk 0 = (DKIM_STAT_OK, dk', sg') \<and> sig_key sg' = Some ''ABC''"
  by (simp add: get_key_sig_def world0_def key_dk_def key_copy_def key_source_def key_lookup_def key_parse_def
      process_eval siglist_data_eval siglist_eval char_eval cctype key_sets_def key_refusal_def key_decode_def
      key_flags_def dkim_key_hashesok_def dkim_key_hashok_def dkim_key_smtp_def dkim_key_granok_def strtok_def
      dkim_sig_getidentity_def prv_keytypes_def char_of_def bit_0)


end
