(* ===== verification/Dkim_Canon_Headers.thy ===== *)
theory Dkim_Canon_Headers
  imports Dkim_Canon_Handles
begin

text \<open>
  Header canonicalization in \<open>dkim-canon.c\<close>: one field (\<open>dkim_canon_header\<close>), the choice of the
  fields named in a header list (\<open>dkim_canon_selecthdrs\<close>), the run over all header
  canonicalizations (\<open>dkim_canon_runheaders\<close>) and the signature field when signing
  (\<open>dkim_canon_signature\<close>).

  A field is canonicalized into the dynamic string \<open>dkim_canonbuf\<close> through the 1024-byte buffer
  \<open>tmpbuf\<close>, whose contents is the second component of the writer's state. A failed append ends the
  function with \<open>DKIM_STAT_NORESOURCE\<close>: the writer's result is then the dynamic string alone.
\<close>

subsection \<open>One field\<close>

type_synonym hdr_writer = "dstring + dstring \<times> string"

definition hw_put :: "(nat \<Rightarrow> bool) \<Rightarrow> dstring \<times> string \<Rightarrow> byte \<Rightarrow> hdr_writer" where
  "hw_put mk w x =
    (let (d, tmp) = w; tmp = tmp @ [x] in
     if length tmp = BUFRSZ - 1 then
       (case dkim_dstring_catn mk d tmp (length tmp) of (False, d) \<Rightarrow> Inl d | (True, d) \<Rightarrow> Inr (d, []))
     else Inr (d, tmp))"

text \<open>The name up to the colon: white space discarded, upper case lowered.\<close>

fun hdr_name_loop :: "(nat \<Rightarrow> bool) \<Rightarrow> dstring \<times> string \<Rightarrow> string \<Rightarrow> hdr_writer \<times> string" where
  "hdr_name_loop mk w [] = (Inr w, [])"
| "hdr_name_loop mk w (c # p) =
    (if isascii c \<and> isspace c then hdr_name_loop mk w p
     else
       (case hw_put mk w (if isascii c \<and> isupper c then tolower c else c) of
          Inl d \<Rightarrow> (Inl d, p)
        | Inr w \<Rightarrow> if c = CHR '':'' then (Inr w, p) else hdr_name_loop mk w p))"

text \<open>The value: a run of white space before a word becomes one space.\<close>

fun hdr_value_loop :: "(nat \<Rightarrow> bool) \<Rightarrow> dstring \<times> string \<Rightarrow> bool \<Rightarrow> string \<Rightarrow> hdr_writer" where
  "hdr_value_loop mk w space [] = Inr w"
| "hdr_value_loop mk w space (c # p) =
    (if isascii c \<and> isspace c then hdr_value_loop mk w True p
     else
       (case (if space then hw_put mk w SPACE else Inr w) of
          Inl d \<Rightarrow> Inl d
        | Inr w \<Rightarrow>
            (case hw_put mk w c of
               Inl d \<Rightarrow> Inl d
             | Inr w \<Rightarrow> hdr_value_loop mk w False p)))"

definition hw_flush :: "(nat \<Rightarrow> bool) \<Rightarrow> dstring \<times> string \<Rightarrow> bool \<times> dstring" where
  "hw_flush mk w =
    (let (d, tmp) = w in if tmp \<noteq> [] then dkim_dstring_catn mk d tmp (length tmp) else (True, d))"

definition hdr_relaxed :: "(nat \<Rightarrow> bool) \<Rightarrow> dstring \<Rightarrow> string \<Rightarrow> bool \<times> dstring" where
  "hdr_relaxed mk d text =
    (case hdr_name_loop mk (d, []) text of
       (Inl d, _) \<Rightarrow> (False, d)
     | (Inr w, p) \<Rightarrow>
         (case hdr_value_loop mk w False (dropWhile (\<lambda>c. isascii c \<and> isspace c) p) of
            Inl d \<Rightarrow> (False, d)
          | Inr w \<Rightarrow> hw_flush mk w))"

definition dkim_canon_header :: "env \<Rightarrow> dkim \<Rightarrow> canon \<Rightarrow> header \<Rightarrow> bool \<Rightarrow> int \<times> dkim \<times> canon" where
  "dkim_canon_header env dkim canon hdr crlf =
    (let mk = env_malloc env in
     case (case dkim_canonbuf dkim of
             None \<Rightarrow> dkim_dstring_new mk (int (hdr_textlen hdr)) 0
           | Some d \<Rightarrow> Some (dkim_dstring_blank d)) of
       None \<Rightarrow> (DKIM_STAT_NORESOURCE, dkim, canon)
     | Some d \<Rightarrow>
         (let canon = dkim_canon_buffer canon [];
              (ok, d) = (if canon_canon canon = DKIM_CANON_SIMPLE
                         then dkim_dstring_catn mk d (hdr_text hdr) (hdr_textlen hdr)
                         else hdr_relaxed mk d (hdr_text hdr));
              (ok, d) = (if ok \<and> crlf then dkim_dstring_catn mk d CRLF 2 else (ok, d));
              dkim = dkim\<lparr>dkim_canonbuf := Some d\<rparr> in
          if \<not> ok then (DKIM_STAT_NORESOURCE, dkim, canon)
          else (DKIM_STAT_OK, dkim, dkim_canon_buffer canon (ds_content d))))"

subsection \<open>The relaxed form of a field\<close>

fun join_words :: "string list \<Rightarrow> string" where
  "join_words [] = []"
| "join_words [w] = w"
| "join_words (w # ws) = w @ SPACE # join_words ws"

fun hdr_words :: "string \<Rightarrow> string \<Rightarrow> string list" where
  "hdr_words w [] = (if w = [] then [] else [w])"
| "hdr_words w (c # s) =
    (if isspace c then (if w = [] then hdr_words [] s else w # hdr_words [] s) else hdr_words (w @ [c]) s)"

definition relaxed_name :: "string \<Rightarrow> string" where
  "relaxed_name s = map tolower (filter (\<lambda>c. \<not> isspace c) s)"

text \<open>RFC 4871, 3.4.2: lowered name, colon, the words of the value with single spaces.\<close>

definition relaxed_field :: "string \<Rightarrow> string" where
  "relaxed_field s =
    (case strchr s (CHR '':'') of
       None \<Rightarrow> relaxed_name s
     | Some t \<Rightarrow> relaxed_name (before s (CHR '':'')) @ CHR '':'' # join_words (hdr_words [] (tl t)))"

fun value_out :: "bool \<Rightarrow> string \<Rightarrow> string" where
  "value_out sp [] = []"
| "value_out sp (c # s) =
    (if isspace c then value_out True s else (if sp then [SPACE] else []) @ c # value_out False s)"

lemma ascii_space [simp]: "isascii c \<and> isspace c \<longleftrightarrow> isspace c"
  using isspace_ascii by blast

lemma ascii_upper [simp]: "(if isascii c \<and> isupper c then tolower c else c) = tolower c"
  by (auto simp: tolower_not_ascii tolower_not_upper)

lemma name_loop_Cons:
  "hdr_name_loop mk w (c # p) =
    (if isspace c then hdr_name_loop mk w p
     else (case hw_put mk w (tolower c) of
          Inl d \<Rightarrow> (Inl d, p)
        | Inr w \<Rightarrow> if c = CHR '':'' then (Inr w, p) else hdr_name_loop mk w p))"
  by simp

lemma value_loop_Cons:
  "hdr_value_loop mk w space (c # p) =
    (if isspace c then hdr_value_loop mk w True p
     else
       (case (if space then hw_put mk w SPACE else Inr w) of
          Inl d \<Rightarrow> Inl d
        | Inr w \<Rightarrow>
            (case hw_put mk w c of
               Inl d \<Rightarrow> Inl d
             | Inr w \<Rightarrow> hdr_value_loop mk w False p)))"
  by simp

declare hdr_name_loop.simps(2) [simp del] hdr_value_loop.simps(2) [simp del]

lemma hdr_words_nonempty: "[] \<notin> set (hdr_words w s)"
  by (induction w s rule: hdr_words.induct) auto

lemma hdr_words_Cons: "w \<noteq> [] \<Longrightarrow> hdr_words w s \<noteq> []"
  by (induction w s rule: hdr_words.induct) auto

lemma join_Cons: "ws \<noteq> [] \<Longrightarrow> join_words (w # ws) = w @ SPACE # join_words ws"
  by (cases ws) auto

lemma value_out_words:
  "w \<noteq> [] \<Longrightarrow> w @ value_out False s = join_words (hdr_words w s)"
  "w \<noteq> [] \<Longrightarrow> w @ value_out True s = join_words (w # hdr_words [] s)"
proof (induction s arbitrary: w)
  case (Cons c s)
  {
    case 1
    then show ?case
      using Cons.IH(1) [of "w @ [c]"] Cons.IH(2) [of w] by simp
  next
    case 2
    have "\<not> isspace c \<Longrightarrow> hdr_words [c] s \<noteq> []" by (rule hdr_words_Cons) simp
    then show ?case
      using Cons.IH(1) [of "[c]"] Cons.IH(2) [of w] 2 by (auto simp: join_Cons)
  }
qed auto

lemma hdr_words_drop: "hdr_words [] (dropWhile isspace s) = hdr_words [] s"
  by (induction s) auto

lemma value_out_drop: "value_out False (dropWhile isspace s) = join_words (hdr_words [] s)"
proof (cases "dropWhile isspace s")
  case Nil
  then have "hdr_words [] s = []" by (metis hdr_words.simps(1) hdr_words_drop)
  then show ?thesis unfolding Nil by simp
next
  case (Cons c t)
  then have "\<not> isspace c" by (metis dropWhile_eq_Cons_conv)
  then show ?thesis
    using value_out_words(1) [of "[c]" t] hdr_words_drop [of s] Cons by simp
qed

subsection \<open>The loops write the relaxed form\<close>

definition hw_text :: "dstring \<times> string \<Rightarrow> string" where
  "hw_text w = ds_content (fst w) @ snd w"

lemma hw_put_Inr: "hw_put mk w x = Inr w' \<Longrightarrow> ds_wf (fst w) \<Longrightarrow>
    ds_wf (fst w') \<and> ds_max (fst w') = ds_max (fst w) \<and> hw_text w' = hw_text w @ [x]"
  by (cases w) (auto simp: hw_put_def hw_text_def Let_def split: if_splits prod.splits bool.splits dest: catn_True)

lemma name_loop_Inr:
  "hdr_name_loop mk w s = (Inr w', p) \<Longrightarrow> ds_wf (fst w) \<Longrightarrow> ds_wf (fst w') \<and> ds_max (fst w') = ds_max (fst w) \<and>
    hw_text w' = hw_text w @ relaxed_name (before s (CHR '':'')) @ (if CHR '':'' \<in> set s then '':'' else []) \<and>
    p = (case strchr s (CHR '':'') of None \<Rightarrow> [] | Some t \<Rightarrow> tl t)"
proof (induction s arbitrary: w)
  case Nil
  then show ?case by (simp add: relaxed_name_def before_def)
next
  case (Cons c s)
  have colon: "\<not> isspace (CHR '':'')" "tolower (CHR '':'') = CHR '':''" by (simp_all add: cctype tolower_def)
  show ?case
  proof (cases "isspace c")
    case True
    then have "c \<noteq> CHR '':''" using colon by auto
    with True Cons show ?thesis by (simp add: name_loop_Cons relaxed_name_def before_def)
  next
    case False
    then obtain w1 where w1: "hw_put mk w (tolower c) = Inr w1"
      and rest: "(if c = CHR '':'' then (Inr w1, s) else hdr_name_loop mk w1 s) = (Inr w', p)"
      using Cons.prems(1) by (auto simp: name_loop_Cons split: sum.splits)
    note put = hw_put_Inr [OF w1 Cons.prems(2)]
    show ?thesis
    proof (cases "c = CHR '':''")
      case True
      then show ?thesis using put rest colon by (auto simp: relaxed_name_def before_def)
    next
      case nc: False
      then have "hdr_name_loop mk w1 s = (Inr w', p)" using rest by simp
      from Cons.IH [OF this] put False nc show ?thesis by (auto simp: relaxed_name_def before_def)
    qed
  qed
qed

lemma value_loop_Inr:
  "hdr_value_loop mk w sp s = Inr w' \<Longrightarrow> ds_wf (fst w) \<Longrightarrow>
    ds_wf (fst w') \<and> ds_max (fst w') = ds_max (fst w) \<and> hw_text w' = hw_text w @ value_out sp s"
proof (induction s arbitrary: w sp)
  case (Cons c s)
  show ?case
  proof (cases "isspace c")
    case True
    then show ?thesis using Cons by (simp add: value_loop_Cons)
  next
    case False
    then obtain w1 w2 where w1: "(if sp then hw_put mk w SPACE else Inr w) = Inr w1"
      and w2: "hw_put mk w1 c = Inr w2" and rest: "hdr_value_loop mk w2 False s = Inr w'"
      using Cons.prems(1) by (auto simp: value_loop_Cons split: sum.splits)
    have "ds_wf (fst w1) \<and> ds_max (fst w1) = ds_max (fst w) \<and> hw_text w1 = hw_text w @ (if sp then [SPACE] else [])"
      using w1 hw_put_Inr [of mk w SPACE w1] Cons.prems(2) by (auto split: if_splits)
    then show ?thesis
      using hw_put_Inr [OF w2] Cons.IH [OF rest] False by auto
  qed
qed simp

lemma strchr_set: "strchr s c = None \<Longrightarrow> before s c = s"
  by (induction s) (auto simp: before_def split: if_splits)

lemma hdr_relaxed_True:
  assumes "hdr_relaxed mk d s = (True, d')" "ds_wf d"
  shows "ds_wf d' \<and> ds_max d' = ds_max d \<and> ds_content d' = ds_content d @ relaxed_field s"
proof -
  obtain w p w2 where 1: "hdr_name_loop mk (d, []) s = (Inr w, p)"
    and 2: "hdr_value_loop mk w False (dropWhile isspace p) = Inr w2" and 3: "hw_flush mk w2 = (True, d')"
    using assms(1) by (auto simp: hdr_relaxed_def split: prod.splits sum.splits)
  note n = name_loop_Inr [OF 1]
  have v: "ds_wf (fst w2)" "ds_max (fst w2) = ds_max d" "hw_text w2 = hw_text w @ join_words (hdr_words [] p)"
    using value_loop_Inr [OF 2] n assms(2) by (auto simp: value_out_drop)
  have "ds_wf d' \<and> ds_max d' = ds_max (fst w2) \<and> ds_content d' = hw_text w2"
    using 3 v(1) by (cases w2) (auto simp: hw_flush_def hw_text_def split: if_splits dest: catn_True)
  then show ?thesis
    using v n assms(2) strchr_None [of s "CHR '':''"] strchr_set [of s "CHR '':''"]
    by (auto simp: relaxed_field_def hw_text_def split: option.splits)
qed

definition canon_field :: "int \<Rightarrow> header \<Rightarrow> string" where
  "canon_field alg hdr =
    (if alg = DKIM_CANON_SIMPLE then take (hdr_textlen hdr) (hdr_text hdr) else relaxed_field (hdr_text hdr))"

definition canonbuf_ok :: "dkim \<Rightarrow> bool" where
  "canonbuf_ok dkim \<longleftrightarrow> (\<forall>d. dkim_canonbuf dkim = Some d \<longrightarrow> ds_wf d \<and> ds_max d = 0)"

lemma canonbuf_start:
  assumes "canonbuf_ok dkim" "(case dkim_canonbuf dkim of None \<Rightarrow> dkim_dstring_new mk n 0
       | Some d \<Rightarrow> Some (dkim_dstring_blank d)) = Some d0"
  shows "ds_wf d0 \<and> ds_content d0 = [] \<and> ds_max d0 = 0"
proof (cases "dkim_canonbuf dkim")
  case (Some d)
  then show ?thesis
    using assms blank_wf [of d] by (auto simp: canonbuf_ok_def dkim_dstring_blank_def)
qed (use assms(2) new_wf in auto)

text \<open>What a successful call adds to the canonicalization.\<close>

lemma canon_header_result:
  assumes "dkim_canon_header env dkim c hdr crlf = (DKIM_STAT_OK, dkim', c')"
    "canon_wf c" "canonbuf_ok dkim" "hdr_textlen hdr \<le> length (hdr_text hdr)"
  shows "canon_wf c' \<and> canonbuf_ok dkim' \<and>
    canon_view c' = sv_put (canon_view c) (canon_field (canon_canon c) hdr @ (if crlf then CRLF else []))"
proof -
  obtain d0 where d0: "(case dkim_canonbuf dkim of
             None \<Rightarrow> dkim_dstring_new (env_malloc env) (int (hdr_textlen hdr)) 0
           | Some d \<Rightarrow> Some (dkim_dstring_blank d)) = Some d0"
    using assms(1) by (auto simp: dkim_canon_header_def Let_def split: option.splits)
  then have wf0: "ds_wf d0" "ds_content d0 = []" "ds_max d0 = 0"
    using assms(3) canonbuf_start by blast+
  define r where "r = (if canon_canon c = DKIM_CANON_SIMPLE
       then dkim_dstring_catn (env_malloc env) d0 (hdr_text hdr) (hdr_textlen hdr)
       else hdr_relaxed (env_malloc env) d0 (hdr_text hdr))"
  define r2 where "r2 = (if fst r \<and> crlf then dkim_dstring_catn (env_malloc env) (snd r) CRLF 2 else r)"
  have ok: "fst r2" and eq: "dkim' = dkim\<lparr>dkim_canonbuf := Some (snd r2)\<rparr>"
    "c' = dkim_canon_buffer (dkim_canon_buffer c []) (ds_content (snd r2))"
    using assms(1) d0 by (auto simp: dkim_canon_header_def Let_def r_def r2_def case_prod_beta split: if_splits)
  then have fr: "fst r" by (auto simp: r2_def split: if_splits)
  then have "r = (True, snd r)" by (cases r) auto
  then have c1: "ds_wf (snd r) \<and> ds_max (snd r) = 0 \<and> ds_content (snd r) = canon_field (canon_canon c) hdr"
    using wf0 assms(4) hdr_relaxed_True [of "env_malloc env" d0 "hdr_text hdr" "snd r"]
      catn_True [of "env_malloc env" d0 "hdr_text hdr" "hdr_textlen hdr" "snd r"]
    by (auto simp: r_def canon_field_def split: if_splits)
  have "r2 = (True, snd r2)" using ok by (cases r2) auto
  then have c2: "ds_wf (snd r2) \<and> ds_max (snd r2) = 0 \<and> ds_content (snd r2) = canon_field (canon_canon c) hdr @ (if crlf then CRLF else [])"
    using c1 fr catn_True [of "env_malloc env" "snd r" CRLF 2 "snd r2"] by (cases crlf) (auto simp: r2_def)
  then show ?thesis
    using assms(2) by (auto simp: eq canonbuf_ok_def cb.put_wf cb.put_view)
qed

lemma hdr_words_chars: "c \<in> set (concat (hdr_words w s)) \<Longrightarrow> c \<in> set w \<or> \<not> isspace c"
proof (induction s arbitrary: w)
  case (Cons x s)
  show ?case
  proof (cases "isspace x")
    case True
    then show ?thesis using Cons.prems Cons.IH [of "[]"] by (cases "w = []") auto
  next
    case False
    then show ?thesis using Cons.prems Cons.IH [of "w @ [x]"] by auto
  qed
qed (simp split: if_splits)

lemma hdr_words_no_space: "x \<in> set (hdr_words [] s) \<Longrightarrow> \<forall>c\<in>set x. \<not> isspace c"
  using hdr_words_chars [of _ "[]" s] by auto

lemma hdr_words_word: "\<forall>c\<in>set u. \<not> isspace c \<Longrightarrow> hdr_words w (u @ s) = hdr_words (w @ u) s"
  by (induction u arbitrary: w) simp_all

lemma isspace_SPACE [simp]: "isspace SPACE"
  by (simp add: isspace_def)

lemma hdr_words_join:
  "\<forall>x\<in>set ws. x \<noteq> [] \<and> (\<forall>c\<in>set x. \<not> isspace c) \<Longrightarrow> hdr_words [] (join_words ws) = ws"
proof (induction ws rule: join_words.induct)
  case (2 w)
  then show ?case using hdr_words_word [of w "[]" "[]"] by simp
next
  case (3 w v ws)
  then show ?case using hdr_words_word [of w "[]" "SPACE # join_words (v # ws)"] by simp
qed simp

lemma words_of_words [simp]: "hdr_words [] (join_words (hdr_words [] s)) = hdr_words [] s"
  using hdr_words_nonempty [of "[]" s] hdr_words_no_space [of _ s] by (intro hdr_words_join) auto

lemma relaxed_name_idem [simp]: "relaxed_name (relaxed_name s) = relaxed_name s"
  by (auto simp: relaxed_name_def filter_map o_def)

lemma colon_lower: "tolower c = CHR '':'' \<longleftrightarrow> c = CHR '':''"
proof (cases "isupper c")
  case True
  then have "ord (tolower c) \<noteq> ord (CHR '':'')" "c \<noteq> CHR '':''"
    by (auto simp: tolower_def isupper_def of_char_of)
  then show ?thesis by auto
qed (simp add: tolower_not_upper)

lemma relaxed_name_colon: "CHR '':'' \<in> set (relaxed_name s) \<longleftrightarrow> CHR '':'' \<in> set s"
proof -
  have "\<not> isspace (CHR '':'')" by (simp add: isspace_def)
  moreover have "CHR '':'' = tolower c \<longleftrightarrow> c = CHR '':''" for c using colon_lower [of c] by metis
  ultimately show ?thesis by (auto simp: relaxed_name_def image_iff)
qed

lemma strchr_first: "c \<notin> set a \<Longrightarrow> strchr (a @ c # b) c = Some (c # b) \<and> before (a @ c # b) c = a"
  by (induction a) (auto simp: before_def)

lemma relaxed_field_colon:
  "CHR '':'' \<notin> set n \<Longrightarrow> relaxed_field (n @ CHR '':'' # v) = relaxed_name n @ CHR '':'' # join_words (hdr_words [] v)"
  by (simp add: relaxed_field_def strchr_first)



subsection \<open>Choosing the fields\<close>

definition hdr_trim :: "string \<Rightarrow> string" where
  "hdr_trim tok = rev (dropWhile (\<lambda>c. isascii c \<and> isspace c) (rev (take DKIM_MAXHEADER tok)))"

definition hdr_matches :: "string \<Rightarrow> header \<Rightarrow> bool" where
  "hdr_matches nm h \<longleftrightarrow> length nm = hdr_namelen h \<and> strncaseeq (hdr_text h) nm (length nm)"

text \<open>The scan for the last unused field with a name; the last assignment to \<open>lhdrs[shcnt]\<close> wins.\<close>

fun scan_last :: "string \<Rightarrow> nat \<Rightarrow> header list \<Rightarrow> nat option \<Rightarrow> nat option" where
  "scan_last nm i [] found = found"
| "scan_last nm i (h # hs) found =
    scan_last nm (i + 1) hs (if hdr_signed h then found else if hdr_matches nm h then Some i else found)"

text \<open>
  The loop over the names, with the headers' flags, \<open>lhdrs\<close>, and whether \<open>lhdrs[shcnt] = NULL\<close> was
  stored at an index outside the array of \<open>dkim_hdrcnt\<close> pointers.
\<close>

fun select_loop :: "header list \<Rightarrow> nat list \<Rightarrow> bool \<Rightarrow> string list \<Rightarrow> header list \<times> nat list \<times> bool" where
  "select_loop hs lhdrs oob [] = (hs, lhdrs, oob)"
| "select_loop hs lhdrs oob (tok # toks) =
    (let oob = (oob \<or> length lhdrs \<ge> length hs) in
     case scan_last (hdr_trim tok) 0 hs None of
       None \<Rightarrow> select_loop hs lhdrs oob toks
     | Some i \<Rightarrow> select_loop (hs[i := (hs ! i)\<lparr>hdr_signed := True\<rparr>]) (lhdrs @ [i]) oob toks)"

text \<open>\<open>None\<close> is the return value -1; the array \<open>ptrs\<close> is the list of header indices.\<close>

definition dkim_canon_selecthdrs ::
    "env \<Rightarrow> dkim \<Rightarrow> string option \<Rightarrow> nat \<Rightarrow> nat list option \<times> bool \<times> dkim" where
  "dkim_canon_selecthdrs env dkim hdrlist nptrs =
    (case hdrlist of
       None \<Rightarrow>
         if length (dkim_hdrs dkim) > nptrs then (None, False, dkim)
         else (Some [0..<length (dkim_hdrs dkim)], False, dkim)
     | Some list \<Rightarrow>
         if dkim_hdrlist_buf dkim = None \<and> \<not> env_malloc env DKIM_MAXHEADER then (None, False, dkim)
         else
           (let buf = strlcpy list DKIM_MAXHEADER;
                hs = map (\<lambda>h. h\<lparr>hdr_signed := False\<rparr>) (dkim_hdrs dkim);
                dkim = dkim\<lparr>dkim_hdrlist_buf := Some buf, dkim_hdrs := hs\<rparr> in
            if \<not> env_malloc env (8 * length hs) then (None, False, dkim)
            else if \<not> env_malloc env (8 * (length (filter (\<lambda>c. c = CHR '':'') buf) + 1)) then (None, False, dkim)
            else
              (let (hs, lhdrs, oob) = select_loop hs [] False (strtok (CHR '':'') buf);
                   dkim = dkim\<lparr>dkim_hdrs := hs\<rparr> in
               if length lhdrs > nptrs then (None, oob, dkim) else (Some lhdrs, oob, dkim))))"

subsection \<open>The choice is bottom-up\<close>

definition hdr_key :: "header \<Rightarrow> string" where
  "hdr_key h = map tolower (take (hdr_namelen h) (hdr_text h))"

definition hdr_wf :: "header \<Rightarrow> bool" where
  "hdr_wf h \<longleftrightarrow> hdr_namelen h \<le> hdr_textlen h \<and> hdr_textlen h = length (hdr_text h)"

definition instances :: "header list \<Rightarrow> string \<Rightarrow> nat list" where
  "instances hs nm = rev (filter (\<lambda>i. hdr_key (hs ! i) = map tolower nm) [0..<length hs])"

definition occurrences :: "string list \<Rightarrow> string \<Rightarrow> nat" where
  "occurrences prev nm = length (filter (\<lambda>m. strcaseeq m nm) prev)"

text \<open>The k-th mention of a name takes the k-th field of that name, counted from the bottom.\<close>

fun picks :: "header list \<Rightarrow> string list \<Rightarrow> string list \<Rightarrow> nat list" where
  "picks hs prev [] = []"
| "picks hs prev (nm # nms) =
    (let inst = instances hs nm; k = occurrences prev nm in
     (if k < length inst then [inst ! k] else []) @ picks hs (prev @ [nm]) nms)"

lemma hdr_matches_key: "hdr_wf h \<Longrightarrow> hdr_matches nm h \<longleftrightarrow> hdr_key h = map tolower nm"
proof -
  assume wf: "hdr_wf h"
  have "hdr_key h = map tolower nm \<Longrightarrow> hdr_namelen h = length nm"
    using wf by (metis (no_types, lifting) hdr_key_def hdr_wf_def length_map length_take min.absorb2)
  then show ?thesis
    by (auto simp: hdr_matches_def hdr_key_def strncaseeq_def)
qed

lemma scan_last_spec:
  "scan_last nm n hs f =
    (let is = filter (\<lambda>i. \<not> hdr_signed (hs ! i) \<and> hdr_matches nm (hs ! i)) [0..<length hs] in
     if is = [] then f else Some (n + last is))"
proof (induction hs arbitrary: n f)
  case (Cons h hs)
  have "[0..<length (h # hs)] = 0 # map Suc [0..<length hs]"
    by (simp add: upt_conv_Cons map_Suc_upt del: upt_Suc)
  then have "filter (\<lambda>i. \<not> hdr_signed ((h # hs) ! i) \<and> hdr_matches nm ((h # hs) ! i)) [0..<length (h # hs)] =
      (if \<not> hdr_signed h \<and> hdr_matches nm h then [0] else []) @
      map Suc (filter (\<lambda>i. \<not> hdr_signed (hs ! i) \<and> hdr_matches nm (hs ! i)) [0..<length hs])"
    by (simp add: filter_map o_def)
  then show ?case using Cons by (auto simp: Let_def last_map)
qed simp

lemma filter_not_take: "distinct xs \<Longrightarrow> filter (\<lambda>x. x \<notin> set (take k xs)) xs = drop k xs"
proof -
  assume d: "distinct xs"
  then have disj: "set (take k xs) \<inter> set (drop k xs) = {}" by (rule set_take_disj_set_drop_if_distinct) simp
  have "filter (\<lambda>x. x \<notin> set (take k xs)) (take k xs) = []" by (simp add: filter_empty_conv)
  moreover have "filter (\<lambda>x. x \<notin> set (take k xs)) (drop k xs) = drop k xs"
    using disj by (auto simp: filter_id_conv)
  ultimately show ?thesis by (metis append_Nil append_take_drop_id filter_append)
qed

definition sel_inv :: "header list \<Rightarrow> header list \<Rightarrow> string list \<Rightarrow> bool" where
  "sel_inv hs0 hs prev \<longleftrightarrow> length hs = length hs0 \<and> (\<forall>i<length hs0. hdr_key (hs ! i) = hdr_key (hs0 ! i) \<and> hdr_wf (hs ! i)) \<and>
    (\<forall>nm. \<forall>i\<in>set (instances hs0 nm). hdr_signed (hs ! i) \<longleftrightarrow> i \<in> set (take (occurrences prev nm) (instances hs0 nm)))"

lemma instances_props:
  "distinct (instances hs nm)" "i \<in> set (instances hs nm) \<longleftrightarrow> i < length hs \<and> hdr_key (hs ! i) = map tolower nm"
  by (auto simp: instances_def)

lemma occurrences_snoc: "occurrences (prev @ [m]) nm = occurrences prev nm + (if strcaseeq m nm then 1 else 0)"
  by (simp add: occurrences_def)

lemma occurrences_eq: "strcaseeq m nm \<Longrightarrow> occurrences prev m = occurrences prev nm"
  by (simp add: occurrences_def strcaseeq_def)

lemma instances_eq: "strcaseeq m nm \<Longrightarrow> instances hs m = instances hs nm"
  by (simp add: instances_def strcaseeq_def)

lemma scan_picks:
  assumes inv: "sel_inv hs0 hs prev"
  shows "scan_last nm 0 hs None =
    (if occurrences prev nm < length (instances hs0 nm) then Some (instances hs0 nm ! occurrences prev nm) else None)"
proof -
  let ?I = "instances hs0 nm" and ?k = "occurrences prev nm"
  have len: "length hs = length hs0" and key: "\<And>i. i < length hs0 \<Longrightarrow> hdr_matches nm (hs ! i) \<longleftrightarrow> hdr_key (hs0 ! i) = map tolower nm"
    using inv hdr_matches_key by (auto simp: sel_inv_def)
  have "filter (\<lambda>i. \<not> hdr_signed (hs ! i) \<and> hdr_matches nm (hs ! i)) [0..<length hs] =
      filter (\<lambda>i. \<not> hdr_signed (hs ! i)) (rev ?I)"
    unfolding instances_def rev_rev_ident filter_filter len using key by (intro filter_cong) auto
  also have "\<dots> = rev (filter (\<lambda>i. i \<notin> set (take ?k ?I)) ?I)"
    using inv by (auto simp: rev_filter sel_inv_def intro!: filter_cong)
  also have "\<dots> = rev (drop ?k ?I)"
    using filter_not_take [OF instances_props(1), of ?k hs0 nm] by simp
  finally show ?thesis
    by (simp add: scan_last_spec Let_def last_rev hd_drop_conv_nth)
qed

lemma sel_inv_mark:
  assumes inv: "sel_inv hs0 hs prev" and k: "occurrences prev nm < length (instances hs0 nm)"
    and i: "i = instances hs0 nm ! occurrences prev nm"
  shows "sel_inv hs0 (hs[i := (hs ! i)\<lparr>hdr_signed := True\<rparr>]) (prev @ [nm])"
proof -
  let ?h = "hs[i := (hs ! i)\<lparr>hdr_signed := True\<rparr>]"
  have il: "i < length hs0" and ikey: "hdr_key (hs0 ! i) = map tolower nm"
    using k i instances_props(2) nth_mem by metis+
  have len: "length hs = length hs0" using inv by (simp add: sel_inv_def)
  have "hdr_signed (?h ! j) \<longleftrightarrow> j \<in> set (take (occurrences (prev @ [nm]) m) (instances hs0 m))"
    if j: "j \<in> set (instances hs0 m)" for j m
  proof (cases "strcaseeq nm m")
    case True
    then have eq: "instances hs0 m = instances hs0 nm" "occurrences prev m = occurrences prev nm"
      using instances_eq occurrences_eq by metis+
    have "take (occurrences (prev @ [nm]) m) (instances hs0 m) = take (occurrences prev nm) (instances hs0 nm) @ [i]"
      using True k i by (simp add: occurrences_snoc eq take_Suc_conv_app_nth)
    then show ?thesis
      using inv j eq il len by (auto simp: sel_inv_def nth_list_update)
  next
    case False
    then have "j \<noteq> i" using j ikey by (auto simp: instances_props strcaseeq_def)
    with False show ?thesis
      using inv j by (simp add: sel_inv_def occurrences_snoc)
  qed
  moreover have "hdr_key (?h ! j) = hdr_key (hs0 ! j) \<and> hdr_wf (?h ! j)" if "j < length hs0" for j
    using inv that il by (auto simp: sel_inv_def nth_list_update hdr_key_def hdr_wf_def)
  ultimately show ?thesis using len by (simp add: sel_inv_def)
qed

lemma sel_inv_skip:
  assumes inv: "sel_inv hs0 hs prev" and k: "\<not> occurrences prev nm < length (instances hs0 nm)"
  shows "sel_inv hs0 hs (prev @ [nm])"
proof -
  have "take (occurrences (prev @ [nm]) m) (instances hs0 m) = take (occurrences prev m) (instances hs0 m)" for m
    using k instances_eq [of nm m hs0] occurrences_eq [of nm m prev] by (auto simp: occurrences_snoc)
  then show ?thesis using inv by (simp add: sel_inv_def)
qed

lemma select_loop_picks:
  "sel_inv hs0 hs prev \<Longrightarrow> \<exists>hs' oob'. select_loop hs acc oob toks = (hs', acc @ picks hs0 prev (map hdr_trim toks), oob') \<and>
     sel_inv hs0 hs' (prev @ map hdr_trim toks)"
proof (induction toks arbitrary: hs acc oob prev)
  case (Cons tok toks)
  let ?nm = "hdr_trim tok"
  show ?case
  proof (cases "occurrences prev ?nm < length (instances hs0 ?nm)")
    case True
    note inv' = sel_inv_mark [OF Cons.prems True refl]
    show ?thesis
      using Cons.IH [OF inv', of "acc @ [instances hs0 ?nm ! occurrences prev ?nm]" "oob \<or> length acc \<ge> length hs"]
        scan_picks [OF Cons.prems, of ?nm] True by (auto simp: Let_def)
  next
    case False
    show ?thesis
      using Cons.IH [OF sel_inv_skip [OF Cons.prems False], of acc "oob \<or> length acc \<ge> length hs"]
        scan_picks [OF Cons.prems, of ?nm] False by (auto simp: Let_def)
  qed
qed simp

definition clear_signed :: "header \<Rightarrow> header" where
  "clear_signed h = h\<lparr>hdr_signed := False\<rparr>"

lemma sel_inv_init: "\<forall>h\<in>set hs. hdr_wf h \<Longrightarrow> sel_inv hs (map clear_signed hs) []"
  by (auto simp: sel_inv_def clear_signed_def hdr_key_def hdr_wf_def occurrences_def instances_props all_set_conv_all_nth)

lemma picks_in: "i \<in> set (picks hs prev nms) \<Longrightarrow> i < length hs"
proof (induction nms arbitrary: prev)
  case (Cons nm nms)
  then show ?case
    using nth_mem [of "occurrences prev nm" "instances hs nm"] instances_props(2)
    by (auto simp: Let_def split: if_splits)
qed simp

lemma picks_fresh:
  "i \<in> set (picks hs prev nms) \<Longrightarrow> i \<in> set (instances hs m) \<Longrightarrow> i \<notin> set (take (occurrences prev m) (instances hs m))"
proof (induction nms arbitrary: prev)
  case (Cons nm nms)
  show ?case
  proof (cases "i \<in> set (picks hs (prev @ [nm]) nms)")
    case True
    have "set (take (occurrences prev m) (instances hs m)) \<subseteq> set (take (occurrences (prev @ [nm]) m) (instances hs m))"
      by (intro set_take_subset_set_take) (simp add: occurrences_snoc)
    with Cons.IH [OF True Cons.prems(2)] show ?thesis by blast
  next
    case False
    let ?k = "occurrences prev nm"
    have k: "?k < length (instances hs nm)" "i = instances hs nm ! ?k"
      using False Cons.prems(1) by (auto simp: Let_def split: if_splits)
    have "strcaseeq nm m"
      using Cons.prems(2) k nth_mem [of ?k "instances hs nm"] by (auto simp: instances_props strcaseeq_def)
    then have eq: "instances hs m = instances hs nm" "occurrences prev m = ?k"
      using instances_eq occurrences_eq by metis+
    show ?thesis
      using k instances_props(1) [of hs nm] unfolding eq by (auto simp: in_set_conv_nth nth_eq_iff_index_eq)
  qed
qed simp

lemma picks_distinct: "distinct (picks hs prev nms)"
proof (induction nms arbitrary: prev)
  case (Cons nm nms)
  let ?k = "occurrences prev nm"
  have "instances hs nm ! ?k \<notin> set (picks hs (prev @ [nm]) nms)" if "?k < length (instances hs nm)"
    using picks_fresh [of "instances hs nm ! ?k" hs "prev @ [nm]" nms nm] that
    by (auto simp: occurrences_snoc take_Suc_conv_app_nth)
  with Cons show ?case by (auto simp: Let_def)
qed simp

lemma picks_length: "length (picks hs prev nms) \<le> length hs"
proof -
  have "card (set (picks hs prev nms)) \<le> card {..<length hs}"
    using picks_in by (intro card_mono) auto
  then show ?thesis using picks_distinct [of hs prev nms] by (simp add: distinct_card)
qed

definition header_names :: "string \<Rightarrow> string list" where
  "header_names hdrlist = map hdr_trim (strtok (CHR '':'') (strlcpy hdrlist DKIM_MAXHEADER))"

text \<open>
  C10: \<open>dkim_canon_selecthdrs\<close> takes, for the k-th mention of a name in the \<open>h=\<close> list (compared
  without case), the k-th field of that name counted from the bottom of the header block, and skips
  mentions beyond the number of fields; each field is taken at most once, and with memory the call
  never fails for the pointers the callers pass.
\<close>
theorem dkim_canon_selecthdrs_spec:
  assumes "\<forall>n. env_malloc env n" "\<forall>h\<in>set (dkim_hdrs dkim). hdr_wf h" "length (dkim_hdrs dkim) \<le> nptrs"
  shows "fst (dkim_canon_selecthdrs env dkim (Some hdrlist) nptrs) =
      Some (picks (dkim_hdrs dkim) [] (header_names hdrlist)) \<and>
    distinct (picks (dkim_hdrs dkim) [] (header_names hdrlist))"
proof -
  obtain hs' oob' where "select_loop (map clear_signed (dkim_hdrs dkim)) [] False (strtok (CHR '':'') (strlcpy hdrlist DKIM_MAXHEADER)) =
      (hs', picks (dkim_hdrs dkim) [] (header_names hdrlist), oob')"
    using select_loop_picks [OF sel_inv_init [OF assms(2)], of "[]" False "strtok (CHR '':'') (strlcpy hdrlist DKIM_MAXHEADER)"]
    by (auto simp: header_names_def)
  then show ?thesis
    using assms(1,3) picks_length [of "dkim_hdrs dkim" "[]" "header_names hdrlist"] picks_distinct
    by (simp add: dkim_canon_selecthdrs_def clear_signed_def [abs_def] Let_def)
qed

definition hdr_of :: "string \<Rightarrow> nat \<Rightarrow> header" where
  "hdr_of text n = \<lparr>hdr_signed = False, hdr_textlen = length text, hdr_namelen = n, hdr_text = text, hdr_colon = Some n\<rparr>"

definition dkim_hdrs0 :: dkim where
  "dkim_hdrs0 = (dkim_zero lib0)\<lparr>dkim_hdrs := [hdr_of ''Received: b'' 8, hdr_of ''From: x'' 4, hdr_of ''received: a'' 8]\<rparr>"

lemma dkim_canon_selecthdrs_spec_witness:
  "fst (dkim_canon_selecthdrs env0 dkim_hdrs0 (Some ''from:RECEIVED:to:received:received'') 3) = Some [1, 2, 0]"
proof -
  have "picks (dkim_hdrs dkim_hdrs0) [] (header_names ''from:RECEIVED:to:received:received'') = [1, 2, 0]"
    by (simp add: header_names_def strlcpy_def strtok_def hdr_trim_def isspace_def dkim_hdrs0_def hdr_of_def
        instances_def hdr_key_def occurrences_def strcaseeq_def upt_rec Let_def char_eval)
  moreover have "\<forall>h\<in>set (dkim_hdrs dkim_hdrs0). hdr_wf h"
    by (simp add: dkim_hdrs0_def hdr_of_def hdr_wf_def)
  ultimately show ?thesis
    using dkim_canon_selecthdrs_spec [of env0 dkim_hdrs0 3 "''from:RECEIVED:to:received:received''"]
    by (simp add: env0_def dkim_hdrs0_def)
qed

text \<open>
  \<open>lhdrs\<close> has one pointer per header field, but each round first stores \<open>lhdrs[shcnt] = NULL\<close>:
  a list that names every field of the message and then one name more makes the store fall outside
  the array.
\<close>
lemma selecthdrs_store_out_of_bounds:
  "fst (snd (dkim_canon_selecthdrs env0 dkim_hdrs0 (Some ''from:received:received:to'') 3))"
  by (simp add: dkim_canon_selecthdrs_def env0_def strlcpy_def strtok_def hdr_trim_def isspace_def dkim_hdrs0_def hdr_of_def
      hdr_matches_def strncaseeq_def Let_def dkim_zero_def char_eval)

end
