(* ===== verification/Dkim_Canon_Run.thy ===== *)
theory Dkim_Canon_Run
  imports Dkim_Canon_Headers
begin

text \<open>
  \<open>dkim_canon_runheaders\<close> and \<open>dkim_canon_signature\<close> of \<open>dkim-canon.c\<close>: every open header
  canonicalization is fed the fields its list names, then the signature field with the value of its
  \<open>b=\<close> tag left out, and is closed.

  When verifying, the main result is the data-hash input of RFC 4871, 3.7, as a function of the
  header block, the \<open>h=\<close> list and the signature field.
\<close>

subsection \<open>Canonicalizing a field succeeds with memory\<close>

lemma hw_put_succeeds:
  assumes "\<forall>n. mk n" "ds_wf (fst w)" "ds_max (fst w) = 0" "length (hw_text w) + 1 < 2 ^ 30"
  shows "\<exists>w'. hw_put mk w x = Inr w'"
proof -
  obtain d tmp where w: "w = (d, tmp)" by (cases w)
  have len: "length (hw_text w) = ds_len d + length tmp"
    using ds_content_length assms(2) by (simp add: w hw_text_def)
  have "fst (dkim_dstring_catn mk d (tmp @ [x]) (length (tmp @ [x])))"
    using assms len by (intro catn_succeeds) (auto simp: w)
  then show ?thesis by (auto simp: hw_put_def w Let_def split: prod.splits bool.splits)
qed

lemma name_loop_succeeds:
  "\<forall>n. mk n \<Longrightarrow> ds_wf (fst w) \<Longrightarrow> ds_max (fst w) = 0 \<Longrightarrow> length (hw_text w) + length s < 2 ^ 30 \<Longrightarrow>
   \<exists>w' p. hdr_name_loop mk w s = (Inr w', p) \<and> length (hw_text w') + length p \<le> length (hw_text w) + length s"
proof (induction s arbitrary: w)
  case (Cons c s)
  show ?case
  proof (cases "isspace c")
    case True
    then show ?thesis using Cons.IH [OF Cons.prems(1-3)] Cons.prems(4) by (fastforce simp: name_loop_Cons)
  next
    case False
    obtain w1 where w1: "hw_put mk w (tolower c) = Inr w1"
      using hw_put_succeeds [OF Cons.prems(1-3)] Cons.prems(4) by fastforce
    have p: "ds_wf (fst w1)" "ds_max (fst w1) = 0" "length (hw_text w1) = length (hw_text w) + 1"
      using hw_put_Inr [OF w1 Cons.prems(2)] Cons.prems(3) by auto
    then have "length (hw_text w1) + length s < 2 ^ 30" using Cons.prems(4) by simp
    from Cons.IH [OF Cons.prems(1) p(1,2) this] w1 p(3) False show ?thesis
      by (cases "c = CHR '':''") (auto simp: name_loop_Cons)
  qed
qed simp

lemma value_loop_succeeds:
  "\<forall>n. mk n \<Longrightarrow> ds_wf (fst w) \<Longrightarrow> ds_max (fst w) = 0 \<Longrightarrow> length (hw_text w) + 2 * length s < 2 ^ 30 \<Longrightarrow>
   \<exists>w'. hdr_value_loop mk w sp s = Inr w' \<and> length (hw_text w') \<le> length (hw_text w) + 2 * length s"
proof (induction s arbitrary: w sp)
  case (Cons c s)
  show ?case
  proof (cases "isspace c")
    case True
    then show ?thesis using Cons.IH [OF Cons.prems(1-3), of True] Cons.prems(4) by (fastforce simp: value_loop_Cons)
  next
    case False
    obtain w1 where w1: "(if sp then hw_put mk w SPACE else Inr w) = Inr w1"
      using hw_put_succeeds [OF Cons.prems(1-3), of SPACE] Cons.prems(4) by fastforce
    have p1: "ds_wf (fst w1)" "ds_max (fst w1) = 0" "length (hw_text w1) \<le> length (hw_text w) + 1"
      using w1 hw_put_Inr [of mk w SPACE w1] Cons.prems(2,3) by (auto split: if_splits)
    obtain w2 where w2: "hw_put mk w1 c = Inr w2"
      using hw_put_succeeds [OF Cons.prems(1) p1(1,2), of c] p1(3) Cons.prems(4) by fastforce
    have p2: "ds_wf (fst w2)" "ds_max (fst w2) = 0" "length (hw_text w2) \<le> length (hw_text w) + 2"
      using hw_put_Inr [OF w2 p1(1)] p1 by auto
    then have "length (hw_text w2) + 2 * length s < 2 ^ 30" using Cons.prems(4) by simp
    from Cons.IH [OF Cons.prems(1) p2(1,2) this, of False] w1 w2 p2(3) False show ?thesis
      by (auto simp: value_loop_Cons)
  qed
qed simp

lemma hdr_relaxed_succeeds:
  assumes "\<forall>n. mk n" "ds_wf d" "ds_max d = 0" "ds_len d + 2 * length s < 2 ^ 30"
  shows "fst (hdr_relaxed mk d s)"
proof -
  have len: "length (hw_text (d, [])) = ds_len d" using ds_content_length [OF assms(2)] by (simp add: hw_text_def)
  obtain w p where 1: "hdr_name_loop mk (d, []) s = (Inr w, p)"
    "length (hw_text w) + length p \<le> ds_len d + length s"
    using name_loop_succeeds [OF assms(1), of "(d, [])" s] assms(2-4) len by fastforce
  have w: "ds_wf (fst w)" "ds_max (fst w) = 0" and p: "p = (case strchr s (CHR '':'') of None \<Rightarrow> [] | Some t \<Rightarrow> tl t)"
    using name_loop_Inr [OF 1(1)] assms by auto
  have "length p \<le> length s" using p strchr_Some [of s "CHR '':''"] by (auto split: option.splits dest!: arg_cong [of _ _ length])
  moreover have "length (dropWhile isspace p) \<le> length p" by (rule dropWhile_length_le)
  ultimately have "length (hw_text w) + 2 * length (dropWhile isspace p) < 2 ^ 30" using 1(2) assms(4) by linarith
  then obtain w2 where 2: "hdr_value_loop mk w False (dropWhile isspace p) = Inr w2"
    "length (hw_text w2) \<le> length (hw_text w) + 2 * length (dropWhile isspace p)"
    using value_loop_succeeds [OF assms(1) w, of "dropWhile isspace p" False] by blast
  have w2: "ds_wf (fst w2)" "ds_max (fst w2) = 0" using value_loop_Inr [OF 2(1) w(1)] w by auto
  obtain d2 tmp where d2: "w2 = (d2, tmp)" by (cases w2)
  have "ds_len d2 + length tmp < 2 ^ 30"
    using 2(2) \<open>length (hw_text w) + 2 * length (dropWhile isspace p) < 2 ^ 30\<close> ds_content_length w2(1)
    by (simp add: d2 hw_text_def)
  then have "fst (hw_flush mk w2)"
    using catn_succeeds [OF _ , of mk d2 "length tmp" tmp] assms(1) w2 by (auto simp: hw_flush_def d2)
  then show ?thesis using 1(1) 2(1) by (simp add: hdr_relaxed_def)
qed

lemma join_words_length: "length (join_words (hdr_words w s)) \<le> length w + length s"
proof (induction s arbitrary: w)
  case (Cons c s)
  show ?case
  proof (cases "isspace c \<and> w \<noteq> []")
    case True
    then show ?thesis using Cons.IH [of "[]"] by (cases "hdr_words [] s") auto
  next
    case False
    then show ?thesis using Cons.IH [of "w @ [c]"] Cons.IH [of "[]"] by auto
  qed
qed simp

lemma relaxed_name_length: "length (relaxed_name s) \<le> length s"
  by (simp add: relaxed_name_def)

lemma relaxed_field_length: "length (relaxed_field s) \<le> length s"
proof (cases "strchr s (CHR '':'')")
  case None
  then show ?thesis by (simp add: relaxed_field_def relaxed_name_length)
next
  case (Some t)
  have "length s = length (before s (CHR '':'')) + length t" "t \<noteq> []"
    using strchr_Some [OF Some] by (metis length_append)+
  then show ?thesis
    using relaxed_name_length [of "before s (CHR '':'')"] join_words_length [of "[]" "tl t"] Some
    by (cases t) (auto simp: relaxed_field_def)
qed

lemma dkim_canon_header_succeeds:
  assumes "\<forall>n. env_malloc env n" "canonbuf_ok dkim" "hdr_textlen hdr = length (hdr_text hdr)"
    "length (hdr_text hdr) < 2 ^ 28"
  shows "fst (dkim_canon_header env dkim c hdr crlf) = DKIM_STAT_OK"
proof -
  obtain d0 where d0: "(case dkim_canonbuf dkim of
             None \<Rightarrow> dkim_dstring_new (env_malloc env) (int (hdr_textlen hdr)) 0
           | Some d \<Rightarrow> Some (dkim_dstring_blank d)) = Some d0"
    using assms(1) by (cases "dkim_canonbuf dkim") (simp_all add: dkim_dstring_new_def Let_def)
  note wf0 = canonbuf_start [OF assms(2) d0]
  then have len0: "ds_len d0 = 0" using ds_content_length [of d0] by simp
  define r where "r = (if canon_canon c = DKIM_CANON_SIMPLE
       then dkim_dstring_catn (env_malloc env) d0 (hdr_text hdr) (hdr_textlen hdr)
       else hdr_relaxed (env_malloc env) d0 (hdr_text hdr))"
  have "fst r"
    using catn_succeeds [of "env_malloc env" d0 "hdr_textlen hdr" "hdr_text hdr"] hdr_relaxed_succeeds [of "env_malloc env" d0 "hdr_text hdr"]
      assms wf0 len0 by (auto simp: r_def)
  then have "r = (True, snd r)" by (cases r) auto
  then have r: "ds_wf (snd r) \<and> ds_max (snd r) = 0 \<and> ds_content (snd r) = canon_field (canon_canon c) hdr"
    using wf0 assms(3) hdr_relaxed_True [of "env_malloc env" d0 "hdr_text hdr" "snd r"]
      catn_True [of "env_malloc env" d0 "hdr_text hdr" "hdr_textlen hdr" "snd r"]
    by (auto simp: r_def canon_field_def split: if_splits)
  have "length (canon_field (canon_canon c) hdr) \<le> 2 * length (hdr_text hdr)"
    using relaxed_field_length [of "hdr_text hdr"] assms(3) by (simp add: canon_field_def)
  then have "ds_len (snd r) + 2 < 2 ^ 30" using ds_content_length [of "snd r"] r assms(4) by simp
  then have "fst (dkim_dstring_catn (env_malloc env) (snd r) CRLF 2)"
    using r assms(1) by (intro catn_succeeds) auto
  then show ?thesis
    using d0 \<open>fst r\<close> unfolding dkim_canon_header_def Let_def d0
    by (auto simp: r_def [symmetric] case_prod_beta)
qed

text \<open>
  C12: with memory and a field below 256 MB, \<open>dkim_canon_header\<close> succeeds, and what it has added to
  the canonicalization is exactly the field as it is ("simple"), or its relaxed form of RFC 4871
  (lowered name without white space, the words of the value separated by single spaces, folding and
  trailing space gone), with CRLF if asked.
\<close>
theorem dkim_canon_header_spec:
  assumes "\<forall>n. env_malloc env n" "canonbuf_ok dkim" "canon_wf c" "hdr_textlen hdr = length (hdr_text hdr)"
    "length (hdr_text hdr) < 2 ^ 28"
  shows "\<exists>dkim' c'. dkim_canon_header env dkim c hdr crlf = (DKIM_STAT_OK, dkim', c') \<and>
    canon_view c' = sv_put (canon_view c)
      ((if canon_canon c = DKIM_CANON_SIMPLE then hdr_text hdr else relaxed_field (hdr_text hdr)) @
       (if crlf then CRLF else []))"
proof -
  obtain st dkim' c' where r: "dkim_canon_header env dkim c hdr crlf = (st, dkim', c')" by (metis surj_pair)
  have "st = DKIM_STAT_OK" using dkim_canon_header_succeeds [OF assms(1,2,4,5), of c crlf] r by simp
  then show ?thesis
    using canon_header_result [of env dkim c hdr crlf dkim' c'] r assms by (simp add: canon_field_def)
qed

lemma dkim_canon_header_spec_witness:
  "\<exists>d c'. dkim_canon_header env0 (dkim_zero lib0) (canon0\<lparr>canon_canon := 1\<rparr>) (hdr_of ''To:  a  b '' 2) True =
      (DKIM_STAT_OK, d, c') \<and>
    canon_view c' = sv_put (canon_view (canon0\<lparr>canon_canon := 1\<rparr>)) (''to:a b'' @ CRLF)"
proof -
  have "relaxed_field ''To:  a  b '' = ''to:a b''"
    by (simp add: relaxed_field_def relaxed_name_def before_def isspace_def char_eval)
  then show ?thesis
    using dkim_canon_header_spec [of env0 "dkim_zero lib0" "canon0\<lparr>canon_canon := 1\<rparr>" "hdr_of ''To:  a  b '' 2" True]
    by (simp add: env0_def canonbuf_ok_def dkim_zero_def hdr_of_def canon0_def canon_wf_def)
qed

subsection \<open>The run\<close>

text \<open>
  The copy of the signature field without the value of \<open>b=\<close>: \<open>inn\<close> is the last byte of the tag name
  while its value is copied (NUL before the \<open>=\<close>), \<open>lst\<close> the previous byte. \<open>Inl\<close> is a failed append.
\<close>

fun strip_b_loop :: "(nat \<Rightarrow> bool) \<Rightarrow> dstring \<times> string \<Rightarrow> byte \<Rightarrow> byte \<Rightarrow> string \<Rightarrow> hdr_writer \<times> byte" where
  "strip_b_loop mk w inn lst [] = (Inr w, lst)"
| "strip_b_loop mk w inn lst (c # p) =
    (let inn = (if c = CHR '';'' then NUL else inn) in
     if inn = CHR ''b'' then strip_b_loop mk w inn c p
     else
       (let inn = (if inn = NUL \<and> c = CHR ''='' then lst else inn) in
        case hw_put mk w c of
          Inl d \<Rightarrow> (Inl d, lst)
        | Inr w \<Rightarrow> strip_b_loop mk w inn c p))"

text \<open>The names of the fields to sign, colon-separated, in \<open>dkim_hdrbuf\<close>; results are ignored.\<close>

fun signed_names :: "env \<Rightarrow> dkim_lib \<Rightarrow> header list \<Rightarrow> dstring \<Rightarrow> dstring" where
  "signed_names env lib [] d = d"
| "signed_names env lib (h # hs) d =
    (if \<not> dkiml_signre lib \<or> env_hdrre env (take (hdr_namelen h) (hdr_text h)) then
       (let d = (if dkim_dstring_get d \<noteq> [] then snd (dkim_dstring_cat1 (env_malloc env) d (CHR '':'')) else d) in
        signed_names env lib hs (snd (dkim_dstring_catn (env_malloc env) d (hdr_text h) (hdr_namelen h))))
     else signed_names env lib hs d)"

text \<open>The selected fields, each followed by CRLF.\<close>

fun canon_selected :: "env \<Rightarrow> dkim \<Rightarrow> canon \<Rightarrow> nat list \<Rightarrow> int \<times> dkim \<times> canon" where
  "canon_selected env dkim cur [] = (DKIM_STAT_OK, dkim, cur)"
| "canon_selected env dkim cur (i # is) =
    (if hdr_signed (dkim_hdrs dkim ! i) then
       (let (st, dkim, cur) = dkim_canon_header env dkim cur (dkim_hdrs dkim ! i) True in
        if st \<noteq> DKIM_STAT_OK then (st, dkim, cur) else canon_selected env dkim cur is)
     else canon_selected env dkim cur is)"

text \<open>
  The tail of a round when verifying: the signature field without its \<open>b=\<close> value, lowered up to the
  colon for relaxed, without CRLF. The status of that last call is not looked at.
\<close>

definition canon_sigfield :: "env \<Rightarrow> dkim \<Rightarrow> canon \<Rightarrow> byte \<Rightarrow> int \<times> dkim \<times> canon \<times> byte" where
  "canon_sigfield env dkim cur lst =
    (let mk = env_malloc env;
         sigheader = dkim_hdrs dkim ! the (canon_sigheader cur);
         d = dkim_dstring_blank (the (dkim_hdrbuf dkim)) in
     case strip_b_loop mk (d, []) NUL lst (hdr_text sigheader) of
       (Inl d, lst) \<Rightarrow> (DKIM_STAT_NORESOURCE, dkim\<lparr>dkim_hdrbuf := Some d\<rparr>, cur, lst)
     | (Inr w, lst) \<Rightarrow>
         (case hw_flush mk w of
            (False, d) \<Rightarrow> (DKIM_STAT_NORESOURCE, dkim\<lparr>dkim_hdrbuf := Some d\<rparr>, cur, lst)
          | (True, d) \<Rightarrow>
              (let text = dkim_dstring_get d;
                   text = (if canon_canon cur = DKIM_CANON_RELAXED then dkim_lowerhdr text else text);
                   tmphdr = \<lparr>hdr_signed = False, hdr_textlen = dkim_dstring_len d,
                             hdr_namelen = hdr_namelen sigheader, hdr_text = text,
                             hdr_colon = hdr_colon sigheader\<rparr>;
                   (_, dkim, cur) = dkim_canon_header env (dkim\<lparr>dkim_hdrbuf := Some d\<rparr>) cur tmphdr False in
               (DKIM_STAT_OK, dkim, (dkim_canon_buffer cur [])\<lparr>canon_done := True\<rparr>, lst))))"

record run_state =
  rs_dkim :: dkim
  rs_hdrset :: "nat list"
  rs_last :: byte

text \<open>One round of the loop over the canonicalizations; \<open>Inl\<close> is an early return.\<close>

definition run_round :: "env \<Rightarrow> bool \<Rightarrow> nat \<Rightarrow> run_state \<Rightarrow> int \<times> run_state" where
  "run_round env signing i rs =
    (let dkim = rs_dkim rs; cur = dkim_canons dkim ! i; n = length (dkim_hdrs dkim) in
     if canon_done cur \<or> \<not> canon_hdr cur then (DKIM_STAT_OK, rs)
     else
       (let (sel, dkim) =
          (if \<not> signing then
             (case canon_hdrlist cur of
                None \<Rightarrow> (Some (rs_hdrset rs), dkim\<lparr>dkim_hdrs := map (\<lambda>h. h\<lparr>hdr_signed := True\<rparr>) (dkim_hdrs dkim)\<rparr>)
              | Some l \<Rightarrow>
                  (let (sel, _, dkim) = dkim_canon_selecthdrs env
                     (dkim\<lparr>dkim_hdrs := map (\<lambda>h. h\<lparr>hdr_signed := False\<rparr>) (dkim_hdrs dkim)\<rparr>) (Some l) n in (sel, dkim)))
           else
             (let d = signed_names env (dkim_libhandle dkim) (dkim_hdrs dkim) (the (dkim_hdrbuf dkim));
                  (sel, _, dkim) = dkim_canon_selecthdrs env (dkim\<lparr>dkim_hdrbuf := Some d\<rparr>)
                    (Some (dkim_dstring_get d)) n in (sel, dkim))) in
        case sel of
          None \<Rightarrow> (DKIM_STAT_INTERNAL, rs\<lparr>rs_dkim := dkim\<rparr>)
        | Some hdrset \<Rightarrow>
            (let (st, dkim, cur) = canon_selected env dkim cur hdrset;
                 put = (\<lambda>dkim cur. dkim\<lparr>dkim_canons := (dkim_canons dkim)[i := cur]\<rparr>) in
             if st \<noteq> DKIM_STAT_OK then (st, \<lparr>rs_dkim = put dkim cur, rs_hdrset = hdrset, rs_last = rs_last rs\<rparr>)
             else if signing then (DKIM_STAT_OK, \<lparr>rs_dkim = put dkim cur, rs_hdrset = hdrset, rs_last = rs_last rs\<rparr>)
             else
               (let (st, dkim, cur, lst) = canon_sigfield env dkim cur (rs_last rs) in
                (st, \<lparr>rs_dkim = put dkim cur, rs_hdrset = hdrset, rs_last = lst\<rparr>)))))"

fun run_rounds :: "env \<Rightarrow> bool \<Rightarrow> nat list \<Rightarrow> run_state \<Rightarrow> int \<times> run_state" where
  "run_rounds env signing [] rs = (DKIM_STAT_OK, rs)"
| "run_rounds env signing (i # is) rs =
    (let (st, rs) = run_round env signing i rs in
     if st \<noteq> DKIM_STAT_OK then (st, rs) else run_rounds env signing is rs)"

definition dkim_canon_runheaders :: "env \<Rightarrow> dkim \<Rightarrow> bool \<Rightarrow> int \<times> dkim" where
  "dkim_canon_runheaders env dkim signing =
    (if \<not> env_malloc env (8 * length (dkim_hdrs dkim)) then (DKIM_STAT_NORESOURCE, dkim)
     else case (case dkim_hdrbuf dkim of
                  None \<Rightarrow> dkim_dstring_new (env_malloc env) (int BUFRSZ) (int MAXBUFRSZ)
                | Some d \<Rightarrow> Some (dkim_dstring_blank d)) of
       None \<Rightarrow> (DKIM_STAT_NORESOURCE, dkim)
     | Some d \<Rightarrow>
         (let (st, rs) = run_rounds env signing [0..<length (dkim_canons dkim)]
                \<lparr>rs_dkim = dkim\<lparr>dkim_hdrbuf := Some d\<rparr>, rs_hdrset = [], rs_last = NUL\<rparr> in
          (st, rs_dkim rs)))"

text \<open>Signing: the new signature field closes every open header canonicalization.\<close>

fun signature_canons :: "env \<Rightarrow> header \<Rightarrow> dkim \<Rightarrow> nat list \<Rightarrow> int \<times> dkim" where
  "signature_canons env hdr dkim [] = (DKIM_STAT_OK, dkim)"
| "signature_canons env hdr dkim (i # is) =
    (let cur = dkim_canons dkim ! i in
     if canon_done cur \<or> \<not> canon_hdr cur then signature_canons env hdr dkim is
     else
       (let (_, d) = dkim_dstring_copy (env_malloc env) (the (dkim_hdrbuf dkim)) (hdr_text hdr);
            text = dkim_dstring_get d;
            text = (if canon_canon cur = DKIM_CANON_RELAXED then dkim_lowerhdr text else text);
            tmphdr = hdr\<lparr>hdr_signed := False, hdr_textlen := dkim_dstring_len d, hdr_text := text\<rparr>;
            (st, dkim, cur) = dkim_canon_header env (dkim\<lparr>dkim_hdrbuf := Some d\<rparr>) cur tmphdr False in
        if st \<noteq> DKIM_STAT_OK then (st, dkim\<lparr>dkim_canons := (dkim_canons dkim)[i := cur]\<rparr>)
        else signature_canons env hdr
          (dkim\<lparr>dkim_canons := (dkim_canons dkim)[i := (dkim_canon_buffer cur [])\<lparr>canon_done := True\<rparr>]\<rparr>) is))"

definition dkim_canon_signature :: "env \<Rightarrow> dkim \<Rightarrow> header \<Rightarrow> int \<times> dkim" where
  "dkim_canon_signature env dkim hdr =
    (case (case dkim_hdrbuf dkim of
             None \<Rightarrow> dkim_dstring_new (env_malloc env) (int DKIM_MAXHEADER) 0
           | Some d \<Rightarrow> Some (dkim_dstring_blank d)) of
       None \<Rightarrow> (DKIM_STAT_NORESOURCE, dkim)
     | Some d \<Rightarrow>
         signature_canons env hdr (dkim\<lparr>dkim_hdrbuf := Some d\<rparr>) [0..<length (dkim_canons dkim)])"

subsection \<open>Leaving out the b= value\<close>

fun strip_b :: "byte \<Rightarrow> byte \<Rightarrow> string \<Rightarrow> string" where
  "strip_b inn lst [] = []"
| "strip_b inn lst (c # p) =
    (let inn = (if c = CHR '';'' then NUL else inn) in
     if inn = CHR ''b'' then strip_b inn c p
     else c # strip_b (if inn = NUL \<and> c = CHR ''='' then lst else inn) c p)"

lemma strip_b_loop_Inr:
  "strip_b_loop mk w inn lst s = (Inr w', l) \<Longrightarrow> ds_wf (fst w) \<Longrightarrow>
   ds_wf (fst w') \<and> ds_max (fst w') = ds_max (fst w) \<and> hw_text w' = hw_text w @ strip_b inn lst s"
proof (induction s arbitrary: w inn lst)
  case (Cons c s)
  show ?case
  proof (cases "(if c = CHR '';'' then NUL else inn) = CHR ''b''")
    case True
    then show ?thesis using Cons by (auto simp: Let_def split: if_splits)
  next
    case False
    obtain w1 where w1: "hw_put mk w c = Inr w1"
      and rest: "strip_b_loop mk w1 (if (if c = CHR '';'' then NUL else inn) = NUL \<and> c = CHR ''='' then lst
         else (if c = CHR '';'' then NUL else inn)) c s = (Inr w', l)"
      using Cons.prems(1) False by (auto simp: Let_def split: sum.splits if_splits)
    from Cons.IH [OF rest] hw_put_Inr [OF w1 Cons.prems(2)] False show ?thesis by (auto simp: Let_def)
  qed
qed simp

lemma strip_b_until_sep:
  "CHR '';'' \<notin> set v \<Longrightarrow> rest = [] \<or> hd rest = CHR '';'' \<Longrightarrow> \<exists>l. strip_b (CHR ''b'') lst (v @ rest) = strip_b NUL l rest"
proof (induction v arbitrary: lst)
  case Nil
  then show ?case by (cases rest) (auto simp: Let_def)
next
  case (Cons c v)
  then show ?case using Cons.IH [of c] by (auto simp: Let_def)
qed

lemma strip_b_sep: "strip_b NUL l (CHR '';'' # r) = CHR '';'' # strip_b NUL (CHR '';'') r"
  by simp

lemma strip_b_rest: "rest = [] \<or> hd rest = CHR '';'' \<Longrightarrow> strip_b NUL l rest = strip_b NUL l' rest"
  by (cases rest) auto

lemma strip_b_length: "length (strip_b inn lst s) \<le> length s"
  by (induction inn lst s rule: strip_b.induct) (auto simp: Let_def split: if_splits)

text \<open>
  The text that is hashed for the signature field does not depend on the signature: two fields
  that differ only in the value of their \<open>b=\<close> tag (values without \<open>;\<close>), the tag being directly
  followed by its \<open>=\<close>, are stripped to the same text, the one with an empty \<open>b=\<close>. It is thus the
  text the signer hashed before the value existed.
\<close>
lemma strip_b_value_independent:
  assumes "CHR '';'' \<notin> set v" "rest = [] \<or> hd rest = CHR '';''" "CHR ''='' \<notin> set pre"
  shows "strip_b NUL l (front @ '';'' @ pre @ ''b='' @ v @ rest) = strip_b NUL l (front @ '';'' @ pre @ ''b='' @ rest)"
proof -
  have body: "strip_b (CHR ''b'') (CHR ''='') (v @ rest) = strip_b (CHR ''b'') (CHR ''='') rest"
    using strip_b_until_sep [OF assms(1,2), of "CHR ''=''"] strip_b_until_sep [of "[]" rest "CHR ''=''"] assms(2)
      strip_b_rest [OF assms(2)] by fastforce
  have pre: "strip_b NUL l' (pre @ ''b='' @ v @ rest) = strip_b NUL l' (pre @ ''b='' @ rest)" for l'
    using assms(3)
  proof (induction pre arbitrary: l')
    case Nil
    then show ?case using body by simp
  next
    case (Cons c pre)
    then show ?case by (auto simp: Let_def)
  qed
  have "strip_b inn l' (front @ '';'' @ pre @ ''b='' @ v @ rest) = strip_b inn l' (front @ '';'' @ pre @ ''b='' @ rest)" for inn l'
  proof (induction front arbitrary: inn l')
    case Nil
    then show ?case using pre by (simp add: Let_def)
  qed (simp add: Let_def)
  then show ?thesis by blast
qed

subsection \<open>What a verifying run hashes\<close>

definition hdr_bare :: "header \<Rightarrow> header" where
  "hdr_bare h = h\<lparr>hdr_signed := False\<rparr>"

lemma hdr_bare_eq: "hdr_bare h = hdr_bare h' \<Longrightarrow> hdr_text h = hdr_text h' \<and> hdr_textlen h = hdr_textlen h' \<and>
    hdr_namelen h = hdr_namelen h' \<and> hdr_key h = hdr_key h' \<and> hdr_wf h = hdr_wf h'"
  by (cases h; cases h') (simp add: hdr_bare_def hdr_key_def hdr_wf_def)

lemma hdr_bare_signed [simp]: "hdr_bare (h\<lparr>hdr_signed := b\<rparr>) = hdr_bare h"
  by (simp add: hdr_bare_def)

lemma bare_nth: "map hdr_bare hs = map hdr_bare hs' \<Longrightarrow> i < length hs \<Longrightarrow> hdr_bare (hs ! i) = hdr_bare (hs' ! i)"
  by (metis length_map nth_map)

lemma bare_update: "map hdr_bare (hs[i := (hs ! i)\<lparr>hdr_signed := b\<rparr>]) = map hdr_bare hs"
  by (cases "i < length hs") (auto simp: map_update list_update_same_conv list_update_beyond)

lemma select_loop_bare: "select_loop hs acc oob toks = (hs', acc', oob') \<Longrightarrow> map hdr_bare hs' = map hdr_bare hs"
proof (induction toks arbitrary: hs acc oob)
  case (Cons tok toks)
  then show ?case
    by (cases "scan_last (hdr_trim tok) 0 hs None") (auto simp: Let_def bare_update dest!: Cons.IH)
qed simp

lemma picks_bare:
  assumes "map hdr_bare hs = map hdr_bare hs'"
  shows "picks hs prev nms = picks hs' prev nms"
proof -
  have len: "length hs = length hs'" using assms by (metis length_map)
  have "instances hs nm = instances hs' nm" for nm
    unfolding instances_def len using bare_nth [OF assms] hdr_bare_eq len
    by (intro arg_cong [of _ _ rev] filter_cong refl) (metis atLeastLessThan_iff set_upt)
  then show ?thesis by (induction nms arbitrary: prev) (simp_all add: Let_def)
qed

lemma picks_taken:
  "i \<in> set (picks hs prev nms) \<Longrightarrow>
   \<exists>nm. i \<in> set (instances hs nm) \<and> i \<in> set (take (occurrences (prev @ nms) nm) (instances hs nm))"
proof (induction nms arbitrary: prev)
  case (Cons nm nms)
  show ?case
  proof (cases "i \<in> set (picks hs (prev @ [nm]) nms)")
    case True
    then show ?thesis using Cons.IH [of "prev @ [nm]"] by simp
  next
    case False
    let ?k = "occurrences prev nm"
    have k: "?k < length (instances hs nm)" "i = instances hs nm ! ?k"
      using False Cons.prems by (auto simp: Let_def split: if_splits)
    have "?k < occurrences (prev @ nm # nms) nm" by (simp add: occurrences_def)
    then have "i \<in> set (take (occurrences (prev @ nm # nms) nm) (instances hs nm))"
      using k by (auto simp: in_set_conv_nth intro!: exI [of _ ?k])
    then show ?thesis using k by (intro exI [of _ nm]) auto
  qed
qed simp

lemma selecthdrs_verify:
  assumes "\<forall>n. env_malloc env n" "\<forall>h\<in>set (dkim_hdrs dkim). hdr_wf h" "length (dkim_hdrs dkim) \<le> n"
  shows "\<exists>hs' oob b. dkim_canon_selecthdrs env dkim (Some l) n =
      (Some (picks (dkim_hdrs dkim) [] (header_names l)), oob, dkim\<lparr>dkim_hdrlist_buf := b, dkim_hdrs := hs'\<rparr>) \<and>
    map hdr_bare hs' = map hdr_bare (dkim_hdrs dkim) \<and>
    (\<forall>i\<in>set (picks (dkim_hdrs dkim) [] (header_names l)). hdr_signed (hs' ! i))"
proof -
  let ?hs = "map clear_signed (dkim_hdrs dkim)" and ?toks = "strtok (CHR '':'') (strlcpy l DKIM_MAXHEADER)"
  obtain hs' oob' where sel: "select_loop ?hs [] False ?toks = (hs', picks (dkim_hdrs dkim) [] (header_names l), oob')"
    and inv: "sel_inv (dkim_hdrs dkim) hs' (header_names l)"
    using select_loop_picks [OF sel_inv_init [OF assms(2)], of "[]" False ?toks] by (auto simp: header_names_def)
  have "hdr_signed (hs' ! i)" if i: "i \<in> set (picks (dkim_hdrs dkim) [] (header_names l))" for i
    using picks_taken [OF i] inv by (auto simp: sel_inv_def)
  moreover have "map hdr_bare hs' = map hdr_bare (dkim_hdrs dkim)"
    using select_loop_bare [OF sel] by (simp add: clear_signed_def hdr_bare_def o_def)
  ultimately show ?thesis
    using sel assms(1,3) picks_length [of "dkim_hdrs dkim" "[]" "header_names l"]
    by (auto simp: dkim_canon_selecthdrs_def clear_signed_def [abs_def] Let_def)
qed

lemma canon_header_frame:
  "dkim_canon_header env dkim c hdr crlf = (st, dkim', c') \<Longrightarrow>
   (\<exists>b. dkim' = dkim\<lparr>dkim_canonbuf := b\<rparr>) \<and> kept c' = kept c \<and> canon_hdrlist c' = canon_hdrlist c \<and>
   canon_sigheader c' = canon_sigheader c"
  by (cases dkim) (auto simp: dkim_canon_header_def Let_def split: option.splits if_splits prod.splits)

definition small_hdr :: "header \<Rightarrow> bool" where
  "small_hdr h \<longleftrightarrow> hdr_wf h \<and> is_cstring (hdr_text h) \<and> length (hdr_text h) < MAXBUFRSZ"

lemma canon_header_ok:
  assumes "\<forall>n. env_malloc env n" "canonbuf_ok dkim" "canon_wf c" "hdr_textlen hdr = length (hdr_text hdr)"
    "length (hdr_text hdr) < 2 ^ 28"
  shows "\<exists>b c'. dkim_canon_header env dkim c hdr crlf = (DKIM_STAT_OK, dkim\<lparr>dkim_canonbuf := b\<rparr>, c') \<and>
    canonbuf_ok (dkim\<lparr>dkim_canonbuf := b\<rparr>) \<and> canon_wf c' \<and>
    canon_view c' = sv_put (canon_view c) (canon_field (canon_canon c) hdr @ (if crlf then CRLF else [])) \<and>
    kept c' = kept c \<and> canon_hdrlist c' = canon_hdrlist c \<and> canon_sigheader c' = canon_sigheader c"
proof -
  obtain st dkim' c' where r: "dkim_canon_header env dkim c hdr crlf = (st, dkim', c')"
    by (metis surj_pair)
  have "st = DKIM_STAT_OK" using dkim_canon_header_succeeds [OF assms(1,2,4,5), of c crlf] r by simp
  then show ?thesis
    using canon_header_frame [OF r] canon_header_result [of env dkim c hdr crlf dkim' c'] r assms by auto
qed

lemma canon_selected_ok:
  assumes "\<forall>n. env_malloc env n" "\<forall>i\<in>set is. hdr_signed (dkim_hdrs dkim ! i) \<and> small_hdr (dkim_hdrs dkim ! i)"
    "canonbuf_ok dkim" "canon_wf c"
  shows "\<exists>b c'. canon_selected env dkim c is = (DKIM_STAT_OK, dkim\<lparr>dkim_canonbuf := b\<rparr>, c') \<and>
    canonbuf_ok (dkim\<lparr>dkim_canonbuf := b\<rparr>) \<and> canon_wf c' \<and> kept c' = kept c \<and>
    canon_hdrlist c' = canon_hdrlist c \<and> canon_sigheader c' = canon_sigheader c \<and>
    canon_view c' = sv_put (canon_view c)
      (concat (map (\<lambda>i. canon_field (canon_canon c) (dkim_hdrs dkim ! i) @ CRLF) is))"
  using assms(2-4)
proof (induction "is" arbitrary: dkim c)
  case Nil
  then show ?case by (intro exI [of _ "dkim_canonbuf dkim"] exI [of _ c]) auto
next
  case (Cons i "is")
  let ?h = "dkim_hdrs dkim ! i"
  have h: "hdr_textlen ?h = length (hdr_text ?h)" "length (hdr_text ?h) < 2 ^ 28"
    using Cons.prems(1) by (auto simp: small_hdr_def hdr_wf_def)
  obtain b c1 where 1: "dkim_canon_header env dkim c ?h True = (DKIM_STAT_OK, dkim\<lparr>dkim_canonbuf := b\<rparr>, c1)"
    "canonbuf_ok (dkim\<lparr>dkim_canonbuf := b\<rparr>)" "canon_wf c1" "kept c1 = kept c"
    "canon_view c1 = sv_put (canon_view c) (canon_field (canon_canon c) ?h @ CRLF)"
    "canon_hdrlist c1 = canon_hdrlist c" "canon_sigheader c1 = canon_sigheader c"
    using canon_header_ok [OF assms(1) Cons.prems(2,3) h, of True] by auto
  have "canon_canon c1 = canon_canon c" using 1(4) by (simp add: kept_def)
  moreover obtain b2 c2 where "canon_selected env (dkim\<lparr>dkim_canonbuf := b\<rparr>) c1 is =
       (DKIM_STAT_OK, dkim\<lparr>dkim_canonbuf := b2\<rparr>, c2)"
    "canonbuf_ok (dkim\<lparr>dkim_canonbuf := b2\<rparr>)" "canon_wf c2" "kept c2 = kept c1"
    "canon_hdrlist c2 = canon_hdrlist c1" "canon_sigheader c2 = canon_sigheader c1"
    "canon_view c2 = sv_put (canon_view c1) (concat (map (\<lambda>i. canon_field (canon_canon c1) (dkim_hdrs dkim ! i) @ CRLF) is))"
    using Cons.IH [OF _ 1(2,3)] Cons.prems(1) by auto
  ultimately show ?case
    using 1 Cons.prems(1) sv_put_append [OF cb.view_ok [OF Cons.prems(3)]]
    by (intro exI [of _ b2] exI [of _ c2]) simp
qed

definition hdrbuf_ok :: "dkim \<Rightarrow> bool" where
  "hdrbuf_ok dkim \<longleftrightarrow> (\<exists>d. dkim_hdrbuf dkim = Some d \<and> ds_wf d \<and> ds_max d = MAXBUFRSZ)"

lemma hw_put_succeeds_max:
  assumes "\<forall>n. mk n" "ds_wf (fst w)" "length (hw_text w) + 1 < ds_max (fst w)" "ds_max (fst w) \<le> 2 ^ 30"
  shows "\<exists>w'. hw_put mk w x = Inr w'"
proof -
  obtain d tmp where w: "w = (d, tmp)" by (cases w)
  have len: "length (hw_text w) = ds_len d + length tmp"
    using ds_content_length assms(2) by (simp add: w hw_text_def)
  have "fst (dkim_dstring_catn mk d (tmp @ [x]) (length (tmp @ [x])))"
    using assms len by (intro catn_succeeds) (auto simp: w)
  then show ?thesis by (auto simp: hw_put_def w Let_def split: prod.splits bool.splits)
qed

lemma strip_b_loop_succeeds:
  "\<forall>n. mk n \<Longrightarrow> ds_wf (fst w) \<Longrightarrow> length (hw_text w) + length s < ds_max (fst w) \<Longrightarrow> ds_max (fst w) \<le> 2 ^ 30 \<Longrightarrow>
   \<exists>w' l. strip_b_loop mk w inn lst s = (Inr w', l)"
proof (induction s arbitrary: w inn lst)
  case (Cons c s)
  obtain w1 where w1: "hw_put mk w c = Inr w1"
    using hw_put_succeeds_max [OF Cons.prems(1,2) _ Cons.prems(4)] Cons.prems(3) by fastforce
  have p: "ds_wf (fst w1)" "length (hw_text w1) + length s < ds_max (fst w1)" "ds_max (fst w1) \<le> 2 ^ 30"
    using hw_put_Inr [OF w1 Cons.prems(2)] Cons.prems(3,4) by auto
  have "length (hw_text w) + length s < ds_max (fst w)" using Cons.prems(3) by simp
  note IH1 = Cons.IH [OF Cons.prems(1,2) this Cons.prems(4)] and IH2 = Cons.IH [OF Cons.prems(1) p]
  show ?case
    using w1 IH1 [of "CHR ''b''" c] IH2 by (auto simp: Let_def simp del: hw_put_def)
qed simp

lemma lowerhdr_name: "CHR '':'' \<notin> set n \<Longrightarrow> dkim_lowerhdr (n @ CHR '':'' # v) = map tolower n @ CHR '':'' # v"
  by (induction n) (auto simp: tolower_not_ascii tolower_not_upper)

lemma relaxed_name_lower: "relaxed_name (map tolower n) = relaxed_name n"
  by (simp add: relaxed_name_def filter_map o_def)

lemma lowerhdr_no_colon: "CHR '':'' \<notin> set n \<Longrightarrow> dkim_lowerhdr n = map tolower n"
  by (induction n) (auto simp: tolower_not_ascii tolower_not_upper)

lemma relaxed_lowerhdr: "relaxed_field (dkim_lowerhdr s) = relaxed_field s"
proof (cases "strchr s (CHR '':'')")
  case None
  then have "CHR '':'' \<notin> set s" by (simp add: strchr_None)
  moreover have "CHR '':'' \<notin> set (map tolower s)" using calculation colon_lower by force
  ultimately show ?thesis
    using strchr_None [of "map tolower s" "CHR '':''"] None
    by (simp add: relaxed_field_def lowerhdr_no_colon relaxed_name_lower)
next
  case (Some t)
  define n where "n = before s (CHR '':'')"
  have n: "CHR '':'' \<notin> set n" by (auto simp: n_def before_def dest: set_takeWhileD)
  have n': "CHR '':'' \<notin> set (map tolower n)" using n colon_lower by force
  have "s = n @ t" "t \<noteq> []" "hd t = CHR '':''" using strchr_Some [OF Some] by (simp_all add: n_def)
  then have "s = n @ CHR '':'' # tl t" by (metis list.collapse)
  then obtain v where "s = n @ CHR '':'' # v" by blast
  then show ?thesis
    by (simp add: lowerhdr_name [OF n] relaxed_field_colon [OF n] relaxed_field_colon [OF n'] relaxed_name_lower)
qed

text \<open>The signature field as it is hashed.\<close>

definition canon_sig :: "int \<Rightarrow> string \<Rightarrow> string" where
  "canon_sig alg text =
    (if alg = DKIM_CANON_SIMPLE then strip_b NUL NUL text else relaxed_field (strip_b NUL NUL text))"

lemma strip_b_first: "t = [] \<or> hd t \<noteq> CHR ''='' \<Longrightarrow> strip_b NUL l t = strip_b NUL NUL t"
  by (cases t) (auto simp: Let_def)

lemma strip_b_set: "set (strip_b inn l s) \<subseteq> set s"
  by (induction inn l s rule: strip_b.induct) (auto simp: Let_def split: if_splits)

lemma canon_sigfield_ok:
  assumes "\<forall>n. env_malloc env n" "canonbuf_ok dkim" "hdrbuf_ok dkim" "canon_wf c"
    "canon_sigheader c = Some k" "small_hdr (dkim_hdrs dkim ! k)"
    "hdr_text (dkim_hdrs dkim ! k) = [] \<or> hd (hdr_text (dkim_hdrs dkim ! k)) \<noteq> CHR ''=''"
    "canon_canon c \<in> {DKIM_CANON_SIMPLE, DKIM_CANON_RELAXED}"
  shows "\<exists>hb b c' l. canon_sigfield env dkim c lst =
      (DKIM_STAT_OK, dkim\<lparr>dkim_hdrbuf := hb, dkim_canonbuf := b\<rparr>, c', l) \<and>
    canonbuf_ok (dkim\<lparr>dkim_hdrbuf := hb, dkim_canonbuf := b\<rparr>) \<and>
    hdrbuf_ok (dkim\<lparr>dkim_hdrbuf := hb, dkim_canonbuf := b\<rparr>) \<and> canon_done c' \<and>
    canon_hash c' = sv_hash (sv_put (canon_view c) (canon_sig (canon_canon c) (hdr_text (dkim_hdrs dkim ! k))))"
proof -
  let ?tx = "hdr_text (dkim_hdrs dkim ! k)" and ?mk = "env_malloc env"
  obtain d where d: "dkim_hdrbuf dkim = Some d" "ds_wf d" "ds_max d = MAXBUFRSZ"
    using assms(3) by (auto simp: hdrbuf_ok_def)
  define d0 where "d0 = dkim_dstring_blank d"
  have d0: "ds_wf d0" "ds_content d0 = []" "ds_max d0 = MAXBUFRSZ"
    using blank_wf [OF d(2)] d(3) by (auto simp: d0_def dkim_dstring_blank_def)
  have small: "length ?tx < MAXBUFRSZ" "is_cstring ?tx" using assms(6) by (auto simp: small_hdr_def)
  obtain w l where 1: "strip_b_loop ?mk (d0, []) NUL lst ?tx = (Inr w, l)"
    using strip_b_loop_succeeds [OF assms(1), of "(d0, [])" ?tx NUL lst] d0 small by (auto simp: hw_text_def)
  have w: "ds_wf (fst w)" "ds_max (fst w) = MAXBUFRSZ" "hw_text w = strip_b NUL NUL ?tx"
    using strip_b_loop_Inr [OF 1] d0 strip_b_first [OF assms(7)] by (auto simp: hw_text_def)
  let ?s = "strip_b NUL NUL ?tx"
  have len: "length ?s < MAXBUFRSZ" using strip_b_length [of NUL NUL ?tx] small by simp
  obtain d1 tmp where w': "w = (d1, tmp)" by (cases w)
  have "fst (hw_flush ?mk w)"
    using w len catn_succeeds [of ?mk d1 "length tmp" tmp] assms(1) ds_content_length [of d1]
    by (auto simp: hw_flush_def w' hw_text_def dest!: arg_cong [of _ _ length])
  then obtain d2 where 2: "hw_flush ?mk w = (True, d2)" by (cases "hw_flush ?mk w") auto
  then have d2: "ds_wf d2" "ds_max d2 = MAXBUFRSZ" "ds_content d2 = ?s"
    using w by (auto simp: hw_flush_def w' hw_text_def split: if_splits dest: catn_True)
  have "is_cstring ?s" using small(2) strip_b_set [of NUL NUL ?tx] by (auto simp: is_cstring_def)
  then have get: "dkim_dstring_get d2 = ?s" "dkim_dstring_len d2 = length ?s"
    using ds_content_get [OF d2(1)] ds_content_length [OF d2(1)] d2(3) by (auto simp: dkim_dstring_len_def)
  define t where "t = (if canon_canon c = DKIM_CANON_RELAXED then dkim_lowerhdr ?s else ?s)"
  define hdr where "hdr = \<lparr>hdr_signed = False, hdr_textlen = length ?s,
     hdr_namelen = hdr_namelen (dkim_hdrs dkim ! k), hdr_text = t, hdr_colon = hdr_colon (dkim_hdrs dkim ! k)\<rparr>"
  have field: "canon_field (canon_canon c) hdr = canon_sig (canon_canon c) ?tx"
    using assms(8) by (auto simp: canon_field_def hdr_def t_def canon_sig_def relaxed_lowerhdr)
  let ?dk = "dkim\<lparr>dkim_hdrbuf := Some d2\<rparr>"
  have "canonbuf_ok ?dk" using assms(2) by (simp add: canonbuf_ok_def)
  moreover have "length t = length ?s" by (simp add: t_def)
  ultimately obtain b c1 where 3: "dkim_canon_header env ?dk c hdr False = (DKIM_STAT_OK, ?dk\<lparr>dkim_canonbuf := b\<rparr>, c1)"
    "canonbuf_ok (?dk\<lparr>dkim_canonbuf := b\<rparr>)" "canon_wf c1"
    "canon_view c1 = sv_put (canon_view c) (canon_sig (canon_canon c) ?tx)"
    using canon_header_ok [OF assms(1) _ assms(4), of ?dk hdr False] len field by (auto simp: hdr_def)
  have "canon_sigfield env dkim c lst = (DKIM_STAT_OK, ?dk\<lparr>dkim_canonbuf := b\<rparr>, (dkim_canon_buffer c1 [])\<lparr>canon_done := True\<rparr>, l)"
    using 1 2 3(1) get d(1) assms(5)
    by (cases "canon_canon c = DKIM_CANON_RELAXED") (simp_all add: canon_sigfield_def Let_def d0_def hdr_def t_def)
  moreover have "canon_hash (dkim_canon_buffer c1 []) = sv_hash (canon_view c1)"
    by (rule buffered_hash [OF 3(3)])
  moreover have "hdrbuf_ok (?dk\<lparr>dkim_canonbuf := b\<rparr>)" using d2 by (simp add: hdrbuf_ok_def)
  ultimately show ?thesis using 3
    by (intro exI [of _ "Some d2"] exI [of _ b] exI [of _ "(dkim_canon_buffer c1 [])\<lparr>canon_done := True\<rparr>"] exI [of _ l]) simp
qed

text \<open>
  What a verifier hashes for one signature: the selected fields with CRLF, then the signature field.
\<close>

definition header_hash_input :: "int \<Rightarrow> header list \<Rightarrow> string \<Rightarrow> nat \<Rightarrow> string" where
  "header_hash_input alg hs h_list k =
    concat (map (\<lambda>i. canon_field alg (hs ! i) @ CRLF) (picks hs [] (header_names h_list))) @
    canon_sig alg (hdr_text (hs ! k))"

definition open_hdr :: "canon \<Rightarrow> bool" where
  "open_hdr c \<longleftrightarrow> \<not> canon_done c \<and> canon_hdr c"

definition hdr_canon_ok :: "header list \<Rightarrow> canon \<Rightarrow> bool" where
  "hdr_canon_ok hs c \<longleftrightarrow> canon_wf c \<and> canon_canon c \<in> {DKIM_CANON_SIMPLE, DKIM_CANON_RELAXED} \<and>
     canon_hdrlist c \<noteq> None \<and>
     (\<exists>k<length hs. canon_sigheader c = Some k \<and> (hdr_text (hs ! k) = [] \<or> hd (hdr_text (hs ! k)) \<noteq> CHR ''=''))"

definition run_inv :: "header list \<Rightarrow> dkim \<Rightarrow> bool" where
  "run_inv hs dkim \<longleftrightarrow> map hdr_bare (dkim_hdrs dkim) = map hdr_bare hs \<and> canonbuf_ok dkim \<and> hdrbuf_ok dkim"

definition hashed_from :: "header list \<Rightarrow> canon \<Rightarrow> canon \<Rightarrow> bool" where
  "hashed_from hs c c' \<longleftrightarrow> canon_done c' \<and> canon_hash c' = sv_hash (sv_put (canon_view c)
     (header_hash_input (canon_canon c) hs (the (canon_hdrlist c)) (the (canon_sigheader c))))"

lemma canon_field_bare: "hdr_bare h = hdr_bare h' \<Longrightarrow> canon_field alg h = canon_field alg h'"
  using hdr_bare_eq [of h h'] by (simp add: canon_field_def)

lemma run_round_open:
  assumes mk: "\<forall>n. env_malloc env n" and hs: "\<forall>h\<in>set hs. small_hdr h"
    and inv: "run_inv hs (rs_dkim rs)" and c: "dkim_canons (rs_dkim rs) ! i = c" "i < length (dkim_canons (rs_dkim rs))"
    and op: "open_hdr c" and ok: "hdr_canon_ok hs c"
  shows "\<exists>rs' c'. run_round env False i rs = (DKIM_STAT_OK, rs') \<and> run_inv hs (rs_dkim rs') \<and>
    dkim_canons (rs_dkim rs') = (dkim_canons (rs_dkim rs))[i := c'] \<and> hashed_from hs c c'"
proof -
  obtain l k where l: "canon_hdrlist c = Some l" and k: "canon_sigheader c = Some k" "k < length hs"
    "hdr_text (hs ! k) = [] \<or> hd (hdr_text (hs ! k)) \<noteq> CHR ''=''" and cw: "canon_wf c"
    "canon_canon c \<in> {DKIM_CANON_SIMPLE, DKIM_CANON_RELAXED}"
    using ok by (auto simp: hdr_canon_ok_def)
  define dk where "dk = (rs_dkim rs)\<lparr>dkim_hdrs := map (\<lambda>h. h\<lparr>hdr_signed := False\<rparr>) (dkim_hdrs (rs_dkim rs))\<rparr>"
  have bare: "map hdr_bare (dkim_hdrs dk) = map hdr_bare hs"
    using inv by (simp add: dk_def run_inv_def o_def)
  then have len: "length (dkim_hdrs dk) = length hs" by (metis length_map)
  have same: "hdr_bare (dkim_hdrs dk ! j) = hdr_bare (hs ! j)" if "j < length hs" for j
    using bare_nth [OF bare] len that by simp
  have "hdr_wf (dkim_hdrs dk ! j)" if "j < length hs" for j
    using hdr_bare_eq [OF same [OF that]] hs that by (simp add: small_hdr_def)
  then have wf: "\<forall>h\<in>set (dkim_hdrs dk). hdr_wf h"
    by (simp add: all_set_conv_all_nth len)
  let ?picks = "picks hs [] (header_names l)"
  have pk: "picks (dkim_hdrs dk) [] (header_names l) = ?picks" by (rule picks_bare [OF bare])
  have n: "length (dkim_hdrs dk) \<le> length (dkim_hdrs (rs_dkim rs))" by (simp add: dk_def)
  obtain hs' oob b where sel: "dkim_canon_selecthdrs env dk (Some l) (length (dkim_hdrs (rs_dkim rs))) =
      (Some ?picks, oob, dk\<lparr>dkim_hdrlist_buf := b, dkim_hdrs := hs'\<rparr>)"
    and hs': "map hdr_bare hs' = map hdr_bare hs" "\<forall>i\<in>set ?picks. hdr_signed (hs' ! i)"
    using selecthdrs_verify [OF mk wf n, of l] pk bare by auto
  define d1 where "d1 = dk\<lparr>dkim_hdrlist_buf := b, dkim_hdrs := hs'\<rparr>"
  have len': "length hs' = length hs" using hs'(1) by (metis length_map)
  have same': "hdr_bare (hs' ! j) = hdr_bare (hs ! j)" if "j < length hs" for j
    using bare_nth [OF hs'(1)] len' that by simp
  have small': "small_hdr (hs' ! j)" if "j < length hs" for j
    using hdr_bare_eq [OF same' [OF that]] hs that by (simp add: small_hdr_def)
  have d1: "canonbuf_ok d1" "hdrbuf_ok d1" "dkim_hdrs d1 = hs'"
    using inv by (auto simp: d1_def dk_def run_inv_def canonbuf_ok_def hdrbuf_ok_def)
  have "\<forall>i\<in>set ?picks. hdr_signed (dkim_hdrs d1 ! i) \<and> small_hdr (dkim_hdrs d1 ! i)"
    using hs'(2) small' picks_in by (auto simp: d1(3))
  from canon_selected_ok [OF mk this d1(1) cw(1)]
  obtain cbuf c1 where s1: "canon_selected env d1 c ?picks = (DKIM_STAT_OK, d1\<lparr>dkim_canonbuf := cbuf\<rparr>, c1)"
    "canonbuf_ok (d1\<lparr>dkim_canonbuf := cbuf\<rparr>)" "canon_wf c1" "kept c1 = kept c" "canon_sigheader c1 = canon_sigheader c"
    "canon_view c1 = sv_put (canon_view c) (concat (map (\<lambda>i. canon_field (canon_canon c) (hs' ! i) @ CRLF) ?picks))"
    by (auto simp: d1(3))
  define d2 where "d2 = d1\<lparr>dkim_canonbuf := cbuf\<rparr>"
  have d2: "canonbuf_ok d2" "hdrbuf_ok d2" "dkim_hdrs d2 = hs'"
    using s1(2) d1 by (auto simp: d2_def hdrbuf_ok_def)
  have alg: "canon_canon c1 = canon_canon c" using s1(4) by (simp add: kept_def)
  have tx: "hdr_text (hs' ! k) = hdr_text (hs ! k)" using hdr_bare_eq [OF same' [OF k(2)]] by simp
  obtain hb cb2 c2 lst where s2: "canon_sigfield env d2 c1 (rs_last rs) =
      (DKIM_STAT_OK, d2\<lparr>dkim_hdrbuf := hb, dkim_canonbuf := cb2\<rparr>, c2, lst)"
    "canonbuf_ok (d2\<lparr>dkim_hdrbuf := hb, dkim_canonbuf := cb2\<rparr>)" "hdrbuf_ok (d2\<lparr>dkim_hdrbuf := hb, dkim_canonbuf := cb2\<rparr>)"
    "canon_done c2" "canon_hash c2 = sv_hash (sv_put (canon_view c1) (canon_sig (canon_canon c) (hdr_text (hs ! k))))"
    using canon_sigfield_ok [OF mk d2(1,2) s1(3), of k "rs_last rs"] s1(5) k small' [OF k(2)] d2(3) cw(2) alg tx by auto
  have fields: "map (\<lambda>i. canon_field (canon_canon c) (hs' ! i) @ CRLF) ?picks = map (\<lambda>i. canon_field (canon_canon c) (hs ! i) @ CRLF) ?picks"
    using canon_field_bare [OF same' [OF picks_in]] by simp
  define rs' where "rs' = \<lparr>rs_dkim = d2\<lparr>dkim_hdrbuf := hb, dkim_canonbuf := cb2,
      dkim_canons := (dkim_canons d2)[i := c2]\<rparr>, rs_hdrset = ?picks, rs_last = lst\<rparr>"
  have "run_round env False i rs = (DKIM_STAT_OK, rs')"
    using c op l sel s1(1) s2(1) by (simp add: run_round_def Let_def open_hdr_def dk_def d1_def d2_def rs'_def)
  moreover have "run_inv hs (rs_dkim rs')"
    using s2(2,3) hs'(1) d2(3) by (simp add: rs'_def run_inv_def canonbuf_ok_def hdrbuf_ok_def)
  moreover have "dkim_canons (rs_dkim rs') = (dkim_canons (rs_dkim rs))[i := c2]"
    by (simp add: rs'_def d2_def d1_def dk_def)
  ultimately show ?thesis
    using s2(4,5) s1(6) fields l k(1) sv_put_append [OF cb.view_ok [OF cw(1)]]
    by (intro exI [of _ rs'] exI [of _ c2]) (simp add: header_hash_input_def hashed_from_def)
qed

lemma run_rounds_verify:
  assumes mk: "\<forall>n. env_malloc env n" and hs: "\<forall>h\<in>set hs. small_hdr h"
  shows "distinct is \<Longrightarrow> run_inv hs (rs_dkim rs) \<Longrightarrow> \<forall>i\<in>set is. i < length (dkim_canons (rs_dkim rs)) \<Longrightarrow>
    \<forall>i\<in>set is. open_hdr (dkim_canons (rs_dkim rs) ! i) \<longrightarrow> hdr_canon_ok hs (dkim_canons (rs_dkim rs) ! i) \<Longrightarrow>
    \<exists>rs'. run_rounds env False is rs = (DKIM_STAT_OK, rs') \<and>
      length (dkim_canons (rs_dkim rs')) = length (dkim_canons (rs_dkim rs)) \<and>
      (\<forall>i<length (dkim_canons (rs_dkim rs)). let c = dkim_canons (rs_dkim rs) ! i; c' = dkim_canons (rs_dkim rs') ! i in
         if i \<in> set is \<and> open_hdr c then hashed_from hs c c'
         else c' = c)"
proof (induction "is" arbitrary: rs)
  case (Cons i "is")
  show ?case
  proof (cases "open_hdr (dkim_canons (rs_dkim rs) ! i)")
    case False
    then have "run_round env False i rs = (DKIM_STAT_OK, rs)"
      by (auto simp: run_round_def open_hdr_def Let_def)
    moreover obtain rs' where "run_rounds env False is rs = (DKIM_STAT_OK, rs')"
      "length (dkim_canons (rs_dkim rs')) = length (dkim_canons (rs_dkim rs))"
      "\<forall>i<length (dkim_canons (rs_dkim rs)). let c = dkim_canons (rs_dkim rs) ! i; c' = dkim_canons (rs_dkim rs') ! i in
         if i \<in> set is \<and> open_hdr c then hashed_from hs c c'
         else c' = c"
      using Cons.IH [of rs] Cons.prems by auto
    ultimately show ?thesis using False by (intro exI [of _ rs']) (auto simp: Let_def)
  next
    case True
    let ?c = "dkim_canons (rs_dkim rs) ! i"
    have i: "i < length (dkim_canons (rs_dkim rs))" "hdr_canon_ok hs ?c" using Cons.prems True by auto
    obtain rs1 c1 where 1: "run_round env False i rs = (DKIM_STAT_OK, rs1)" "run_inv hs (rs_dkim rs1)"
      "dkim_canons (rs_dkim rs1) = (dkim_canons (rs_dkim rs))[i := c1]" "hashed_from hs ?c c1"
      using run_round_open [OF mk hs Cons.prems(2) refl i(1) True i(2)] by blast
    have other: "dkim_canons (rs_dkim rs1) ! j = dkim_canons (rs_dkim rs) ! j" if "j \<in> set is" for j
    proof -
      have "j \<noteq> i" using Cons.prems(1) that by auto
      then show ?thesis by (simp add: 1(3))
    qed
    obtain rs' where 2: "run_rounds env False is rs1 = (DKIM_STAT_OK, rs')"
      "length (dkim_canons (rs_dkim rs')) = length (dkim_canons (rs_dkim rs1))"
      "\<forall>i<length (dkim_canons (rs_dkim rs1)). let c = dkim_canons (rs_dkim rs1) ! i; c' = dkim_canons (rs_dkim rs') ! i in
         if i \<in> set is \<and> open_hdr c then hashed_from hs c c'
         else c' = c"
      using Cons.IH [OF _ 1(2)] Cons.prems(1,3,4) other 1(3) by auto
    have "let c = dkim_canons (rs_dkim rs) ! j; c' = dkim_canons (rs_dkim rs') ! j in
         if j \<in> set (i # is) \<and> open_hdr c then hashed_from hs c c' else c' = c"
      if j: "j < length (dkim_canons (rs_dkim rs))" for j
    proof (cases "j = i")
      case True
      then have "dkim_canons (rs_dkim rs') ! j = c1"
        using 2(3) 1(3) Cons.prems(1) j by (auto simp: Let_def)
      then show ?thesis using True \<open>open_hdr ?c\<close> 1(4) by simp
    next
      case False
      then show ?thesis using 2(3) 1(3) j by (auto simp: Let_def)
    qed
    then show ?thesis
      using 1 2 by (intro exI [of _ rs']) simp
  qed
qed simp

text \<open>
  C5: verifying, \<open>dkim_canon_runheaders\<close> closes every open header canonicalization, each with the
  header hash input of RFC 4871, 3.7: the fields its \<open>h=\<close> list selects, bottom-up and each
  canonicalized and ended by CRLF, followed by the signature field without the value of \<open>b=\<close> and
  without CRLF. Closed and body canonicalizations are left alone.
\<close>
theorem runheaders_hash_input:
  assumes "\<forall>n. env_malloc env n" "\<forall>h\<in>set (dkim_hdrs dkim). small_hdr h" "canonbuf_ok dkim"
    "dkim_hdrbuf dkim = None"
    "\<forall>c\<in>set (dkim_canons dkim). open_hdr c \<longrightarrow> hdr_canon_ok (dkim_hdrs dkim) c \<and>
       canon_hash c = [] \<and> canon_hashbuf c = [] \<and> canon_remain c = -1"
  shows "\<exists>dkim'. dkim_canon_runheaders env dkim False = (DKIM_STAT_OK, dkim') \<and>
    (\<forall>i<length (dkim_canons dkim). let c = dkim_canons dkim ! i; c' = dkim_canons dkim' ! i in
       if open_hdr c then canon_done c' \<and> canon_hash c' =
         header_hash_input (canon_canon c) (dkim_hdrs dkim) (the (canon_hdrlist c)) (the (canon_sigheader c))
       else c' = c)"
proof -
  obtain d where d: "dkim_dstring_new (env_malloc env) (int BUFRSZ) (int MAXBUFRSZ) = Some d"
    using assms(1) by (simp add: dkim_dstring_new_def Let_def)
  define rs where "rs = \<lparr>rs_dkim = dkim\<lparr>dkim_hdrbuf := Some d\<rparr>, rs_hdrset = [], rs_last = NUL\<rparr>"
  have "run_inv (dkim_hdrs dkim) (rs_dkim rs)"
    using assms(3) new_wf [OF d] by (simp add: rs_def run_inv_def canonbuf_ok_def hdrbuf_ok_def)
  then obtain rs' where rs': "run_rounds env False [0..<length (dkim_canons dkim)] rs = (DKIM_STAT_OK, rs')"
     "\<forall>i<length (dkim_canons dkim). let c = dkim_canons dkim ! i; c' = dkim_canons (rs_dkim rs') ! i in
         if open_hdr c then hashed_from (dkim_hdrs dkim) c c'
         else c' = c"
    using run_rounds_verify [OF assms(1,2), of "[0..<length (dkim_canons dkim)]" rs] assms(5) by (auto simp: rs_def)
  have "sv_hash (sv_put (canon_view c) s) = s" if "c \<in> set (dkim_canons dkim)" "open_hdr c" for c s
    using assms(5) that by (auto simp: sv_put_limit canon_view_def canon_raw_def)
  then show ?thesis
    using rs' assms(1,4) d
    by (intro exI [of _ "rs_dkim rs'"]) (auto simp: dkim_canon_runheaders_def rs_def Let_def hashed_from_def)
qed

definition dkim_run0 :: dkim where
  "dkim_run0 = (dkim_zero lib0)\<lparr>dkim_mode := DKIM_MODE_VERIFY,
     dkim_hdrs := [hdr_of ''From:  A'' 4, hdr_of ''DKIM-Signature: b=xyz; d=e'' 14],
     dkim_canons := [canon0\<lparr>canon_hdr := True, canon_canon := 1, canon_length := -1, canon_remain := -1,
       canon_hdrlist := Some ''from'', canon_sigheader := Some 1\<rparr>]\<rparr>"

lemma runheaders_hash_input_witness:
  "\<exists>d. dkim_canon_runheaders env0 dkim_run0 False = (DKIM_STAT_OK, d) \<and>
    canon_hash (dkim_canons d ! 0) = ''from:A'' @ CRLF @ ''dkim-signature:b=; d=e''"
proof -
  have "header_hash_input 1 (dkim_hdrs dkim_run0) ''from'' 1 = ''from:A'' @ CRLF @ ''dkim-signature:b=; d=e''"
    by (simp add: dkim_run0_def hdr_of_def header_hash_input_def header_names_def strlcpy_def strtok_def hdr_trim_def
        isspace_def instances_def hdr_key_def occurrences_def upt_rec Let_def canon_field_def relaxed_field_def
        relaxed_name_def before_def canon_sig_def char_eval)
  moreover have "\<exists>d. dkim_canon_runheaders env0 dkim_run0 False = (DKIM_STAT_OK, d) \<and>
    (\<forall>i<length (dkim_canons dkim_run0). let c = dkim_canons dkim_run0 ! i; c' = dkim_canons d ! i in
       if open_hdr c then canon_done c' \<and> canon_hash c' =
         header_hash_input (canon_canon c) (dkim_hdrs dkim_run0) (the (canon_hdrlist c)) (the (canon_sigheader c))
       else c' = c)"
    by (rule runheaders_hash_input)
      (simp_all add: env0_def dkim_run0_def dkim_zero_def hdr_of_def small_hdr_def hdr_wf_def canonbuf_ok_def
        open_hdr_def hdr_canon_ok_def canon0_def canon_wf_def)
  ultimately show ?thesis
    by (auto simp: dkim_run0_def canon0_def open_hdr_def Let_def)
qed

end
