(* ===== verification/Dkim_Mailbox.thy ===== *)
theory Dkim_Mailbox
  imports Dkim_Prelude
begin

text \<open>
  \<open>rfc2822.c\<close>: the local part and the domain of the first address of a header field.

  A pointer into the line is the suffix it points at. The function writes its results over the line
  it reads; \<open>mb_out\<close> is what it has written, the results are offsets into that, and the bound proved
  below (never more written than read) is what makes the two independent. \<open>unescape\<close> is compiled
  only for the test program and is left out.

  The lemmas: termination of every loop, the bound, and the results for plain and angle addresses.
\<close>

abbreviation (input) RFC2822_OK :: int where "RFC2822_OK \<equiv> 0"
abbreviation (input) RFC2822_ERR_PUNBALANCED :: int where "RFC2822_ERR_PUNBALANCED \<equiv> 1"
abbreviation (input) RFC2822_ERR_QUNBALANCED :: int where "RFC2822_ERR_QUNBALANCED \<equiv> 2"
abbreviation (input) RFC2822_ERR_SUNBALANCED :: int where "RFC2822_ERR_SUNBALANCED \<equiv> 3"

abbreviation DQUOTE :: byte where "DQUOTE \<equiv> CHR 0x22"
abbreviation BACKSLASH :: byte where "BACKSLASH \<equiv> CHR 0x5C"

definition SPECIALS :: string where
  "SPECIALS = ''<>@,;:'' @ [BACKSLASH, DQUOTE] @ ''/[]?=''"

fun matching_paren :: "byte \<Rightarrow> byte \<Rightarrow> nat \<Rightarrow> string \<Rightarrow> string" where
  "matching_paren open_paren close_paren paren [] = []"
| "matching_paren open_paren close_paren paren (c # s) =
    (if c = close_paren then
       (if paren = 1 then c # s else matching_paren open_paren close_paren (paren - 1) s)
     else if c = open_paren then matching_paren open_paren close_paren (paren + 1) s
     else if c = BACKSLASH then matching_paren open_paren close_paren paren (drop 1 s)
     else matching_paren open_paren close_paren paren s)"

lemma matching_paren_length: "length (matching_paren op cl n s) \<le> length s"
  by (induction op cl n s rule: matching_paren.induct) auto

text \<open>White space and comments between tokens; the flag is \<open>uncommented_whitespace\<close>.\<close>

function skip_space :: "bool \<Rightarrow> string \<Rightarrow> int + bool \<times> string" where
  "skip_space ws [] = Inr (ws, [])"
| "skip_space ws (c # s) =
    (if c = CHR ''('' then
       (case matching_paren CHR ''('' CHR '')'' 1 s of
          [] \<Rightarrow> Inl RFC2822_ERR_PUNBALANCED
        | _ # s' \<Rightarrow> skip_space ws s')
     else if isascii c \<and> isspace c then skip_space True s
     else Inr (ws, c # s))"
  by pat_completeness auto

lemma matching_paren_Cons: "matching_paren op cl n s = d # s' \<Longrightarrow> length s' < length s"
  using matching_paren_length [of op cl n s] by simp

termination skip_space
  by (relation "measure (\<lambda>(ws, s). length s)") (auto dest: matching_paren_Cons)

lemma skip_space_length: "skip_space ws s = Inr (ws', s') \<Longrightarrow> length s' \<le> length s"
  by (induction ws s rule: skip_space.induct)
    (fastforce split: if_splits list.splits dest: matching_paren_Cons)+

definition atom_char :: "byte \<Rightarrow> bool" where
  "atom_char c \<longleftrightarrow> c \<notin> set SPECIALS \<and> \<not> (isascii c \<and> isspace c) \<and> c \<noteq> CHR ''(''"

text \<open>
  The first special that decides the form of the address: the suffix at it, or at the last "@" seen
  before a colon, semicolon or comma.
\<close>

function rfc2822_first_special :: "string option \<Rightarrow> string \<Rightarrow> int + string" where
  "rfc2822_first_special at_ptr p =
    (if p = [] then Inr []
     else case skip_space False p of
       Inl err \<Rightarrow> Inl err
     | Inr (_, []) \<Rightarrow> Inr []
     | Inr (_, c # s) \<Rightarrow>
         if c = DQUOTE then
           (case matching_paren NUL DQUOTE 1 s of
              [] \<Rightarrow> Inl RFC2822_ERR_QUNBALANCED | _ # s' \<Rightarrow> rfc2822_first_special at_ptr s')
         else if c = CHR ''['' then
           (case matching_paren NUL CHR '']'' 1 s of
              [] \<Rightarrow> Inl RFC2822_ERR_SUNBALANCED | _ # s' \<Rightarrow> rfc2822_first_special at_ptr s')
         else if c \<in> set SPECIALS then
           (if c = CHR ''<'' then Inr (c # s)
            else if c \<in> set '':;,'' then Inr (case at_ptr of Some a \<Rightarrow> a | None \<Rightarrow> c # s)
            else rfc2822_first_special (if c = CHR ''@'' then Some (c # s) else at_ptr) s)
         else rfc2822_first_special at_ptr (dropWhile atom_char s))"
  by pat_completeness auto

termination
proof (relation "measure (\<lambda>(at, p). length p)", goal_cases)
  case (4 at_ptr p x ws cs c s)
  then show ?case using skip_space_length [of False p] by fastforce
next
  case (5 at_ptr p x ws cs c s)
  then show ?case using skip_space_length [of False p] dropWhile_length_le [of atom_char s] by fastforce
qed (auto dest!: matching_paren_Cons skip_space_length)

declare rfc2822_first_special.simps [simp del]

text \<open>
  The next token: its type (NUL at the end, the character of a special, "x" for an atom), its text
  and what follows it. An unbalanced quoted string or domain literal is an error.
\<close>

definition rfc2822_token :: "bool \<Rightarrow> string \<Rightarrow> int + bool \<times> byte \<times> string \<times> string" where
  "rfc2822_token ws s =
    (case skip_space ws s of
       Inl err \<Rightarrow> Inl err
     | Inr (ws, []) \<Rightarrow> Inr (ws, NUL, [], [])
     | Inr (ws, c # s) \<Rightarrow>
         if c = DQUOTE then
           (case matching_paren NUL DQUOTE 1 s of
              [] \<Rightarrow> Inl RFC2822_ERR_QUNBALANCED
            | _ # rest \<Rightarrow> Inr (ws, c, take (length (c # s) - length rest) (c # s), rest))
         else if c = CHR ''['' then
           (case matching_paren NUL CHR '']'' 1 s of
              [] \<Rightarrow> Inl RFC2822_ERR_SUNBALANCED
            | _ # rest \<Rightarrow> Inr (ws, c, take (length (c # s) - length rest) (c # s), rest))
         else if c \<in> set SPECIALS then Inr (ws, c, [c], s)
         else Inr (ws, CHR ''x'', c # takeWhile atom_char s, dropWhile atom_char s))"

lemma take_dropWhile_length: "length (takeWhile P s) + length (dropWhile P s) = length s"
  by (metis length_append takeWhile_dropWhile_id)

text \<open>A token takes what it consumes, and at least one byte more when white space was seen.\<close>

lemma skip_space_consumes:
  "skip_space ws s = Inr (ws', s') \<Longrightarrow> ws' \<Longrightarrow> \<not> ws \<Longrightarrow> length s' < length s"
  by (induction ws s rule: skip_space.induct)
    (fastforce split: if_splits list.splits dest: matching_paren_Cons skip_space_length)+

lemma quoted_length:
  assumes "matching_paren op cl n s = d # rest"
  shows "length (take (length (c # s) - length rest) (c # s)) + length rest = length (c # s)"
    "take (length (c # s) - length rest) (c # s) \<noteq> []"
  using matching_paren_Cons [OF assms] by auto

lemma token_length:
  assumes "rfc2822_token ws s = Inr (ws', t, tok, rest)"
  shows "length tok + length rest \<le> length s" "t = NUL \<or> 0 < length tok"
    "ws' \<Longrightarrow> \<not> ws \<Longrightarrow> t = NUL \<or> length tok + length rest < length s"
proof -
  obtain s1 where sp: "skip_space ws s = Inr (ws', s1)" and
    tok: "length tok + length rest = length s1" "t = NUL \<or> 0 < length tok"
  proof (cases "skip_space ws s")
    case (Inr r)
    then obtain w s1 where r: "skip_space ws s = Inr (w, s1)" by (cases r) auto
    show ?thesis
    proof (rule that [of s1])
      show "skip_space ws s = Inr (ws', s1)"
        using assms r by (auto simp: rfc2822_token_def split: list.splits if_splits)
      show "length tok + length rest = length s1"
        using assms r quoted_length(1)
        by (fastforce simp: rfc2822_token_def take_dropWhile_length simp del: length_take split: list.splits if_splits)
      show "t = NUL \<or> 0 < length tok"
        using assms r quoted_length(2) by (fastforce simp: rfc2822_token_def split: list.splits if_splits)
    qed
  qed (use assms in \<open>simp add: rfc2822_token_def\<close>)
  show "length tok + length rest \<le> length s" "t = NUL \<or> 0 < length tok"
    using skip_space_length [OF sp] tok by auto
  show "ws' \<Longrightarrow> \<not> ws \<Longrightarrow> t = NUL \<or> length tok + length rest < length s"
    using skip_space_consumes [OF sp] tok by auto
qed

lemma token_shorter: "rfc2822_token ws s = Inr (ws', t, tok, rest) \<Longrightarrow> t = NUL \<or> length rest < length s"
  using token_length(1,2) [of ws s ws' t tok rest] by (cases tok) auto

record mailbox =
  mb_user :: "nat option"
  mb_domain :: "nat option"
  mb_out :: string

definition mb_append :: "mailbox \<Rightarrow> string \<Rightarrow> mailbox" where
  "mb_append m tok = m\<lparr>mb_user := Some (case mb_user m of None \<Rightarrow> length (mb_out m) | Some u \<Rightarrow> u),
     mb_out := mb_out m @ tok\<rparr>"

definition mb_at :: "mailbox \<Rightarrow> mailbox" where
  "mb_at m = m\<lparr>mb_out := mb_out m @ [NUL], mb_domain := Some (length (mb_out m) + 1)\<rparr>"

definition mb_word :: "bool \<Rightarrow> byte \<Rightarrow> mailbox \<Rightarrow> string \<Rightarrow> mailbox" where
  "mb_word ws t m tok =
    mb_append (if mb_user m \<noteq> None \<and> t = CHR ''x'' \<and> ws then m\<lparr>mb_out := mb_out m @ [SPACE]\<rparr> else m) tok"

text \<open>"display name <address>"; a comma or colon drops a source route but not what was written.\<close>

function angle_loop :: "bool \<Rightarrow> mailbox \<Rightarrow> string \<Rightarrow> int \<times> mailbox" where
  "angle_loop ws m line =
    (case rfc2822_token ws line of
       Inl err \<Rightarrow> (err, m)
     | Inr (ws, t, tok, rest) \<Rightarrow>
         if t = CHR ''>'' \<or> t = NUL then (RFC2822_OK, m)
         else if t = CHR ''@'' then angle_loop ws (mb_at m) rest
         else if t = CHR '','' \<or> t = CHR '':'' then angle_loop ws (m\<lparr>mb_user := None, mb_domain := None\<rparr>) rest
         else angle_loop ws (mb_append m tok) rest)"
  by pat_completeness auto
termination
  by (relation "measure (\<lambda>(ws, m, line). length line)") (auto dest!: token_shorter)

declare angle_loop.simps [simp del]

text \<open>"(display name) addr(display name)ess"; one space stands for white space between two atoms.\<close>

function addr_loop :: "bool \<Rightarrow> mailbox \<Rightarrow> string \<Rightarrow> int \<times> mailbox" where
  "addr_loop ws m line =
    (case rfc2822_token ws line of
       Inl err \<Rightarrow> (err, m)
     | Inr (ws, t, tok, rest) \<Rightarrow>
         if t = NUL \<or> t = CHR '','' \<or> t = CHR '';'' then (RFC2822_OK, m)
         else if t = CHR ''@'' then addr_loop False (mb_at m) rest
         else addr_loop False (mb_word ws t m tok) rest)"
  by pat_completeness auto
termination
  by (relation "measure (\<lambda>(ws, m, line). length line)") (auto dest!: token_shorter)

declare addr_loop.simps [simp del]
text \<open>The special found is no longer than the line.\<close>

lemma special_suffix:
  "rfc2822_first_special a p = Inr r \<Longrightarrow> length r \<le> max (length p) (case a of None \<Rightarrow> 0 | Some q \<Rightarrow> length q)"
proof (induction a p rule: rfc2822_first_special.induct)
  case (1 a p)
  note eq = "1.prems" [unfolded rfc2822_first_special.simps [of a p]]
  show ?case
  proof (cases "p = [] \<or> (\<exists>w. skip_space False p = Inr (w, []))")
    case True
    then show ?thesis using eq by (auto split: if_splits)
  next
    case False
    then obtain w c s where v: "skip_space False p = Inr (w, c # s)" and p: "p \<noteq> []"
      using eq by (auto split: sum.splits list.splits)
    note len = skip_space_length [OF v] and eq' = eq [unfolded v sum.case prod.case list.case]
    note IH = "1.IH" [OF p v refl refl]
    consider "c = DQUOTE" | "c \<noteq> DQUOTE" "c = CHR ''[''"
      | "c \<noteq> DQUOTE" "c \<noteq> CHR ''[''" "c \<in> set SPECIALS" "c = CHR ''<'' \<or> c \<in> set '':;,''"
      | "c \<noteq> DQUOTE" "c \<noteq> CHR ''[''" "c \<in> set SPECIALS" "c \<noteq> CHR ''<''" "c \<notin> set '':;,''"
      | "c \<noteq> DQUOTE" "c \<noteq> CHR ''[''" "c \<notin> set SPECIALS" by blast
    then show ?thesis
    proof cases
      case 1
      then obtain d s' where m: "matching_paren NUL DQUOTE 1 s = d # s'" "rfc2822_first_special a s' = Inr r"
        using eq' p by (auto split: list.splits)
      show ?thesis using IH(1) [OF 1 m] matching_paren_Cons [OF m(1)] len by auto
    next
      case 2
      then obtain d s' where m: "matching_paren NUL CHR '']'' 1 s = d # s'" "rfc2822_first_special a s' = Inr r"
        using eq' p by (auto split: list.splits)
      show ?thesis using IH(2) [OF 2 m] matching_paren_Cons [OF m(1)] len by auto
    next
      case 3
      then have "r = c # s \<or> a = Some r" using eq' p by (auto split: option.splits if_splits)
      then show ?thesis using len by auto
    next
      case 4
      then have "rfc2822_first_special (if c = CHR ''@'' then Some (c # s) else a) s = Inr r" using eq' p by auto
      from IH(3) [OF 4 this] show ?thesis using len by (auto split: if_splits)
    next
      case 5
      then have "rfc2822_first_special a (dropWhile atom_char s) = Inr r" using eq' p by auto
      from IH(4) [OF 5 this] show ?thesis using len dropWhile_length_le [of atom_char s] by (auto split: if_splits)
    qed
  qed
qed

lemma special_shorter: "rfc2822_first_special None p = Inr (c # s) \<Longrightarrow> length s < length p"
  using special_suffix [of None p "c # s"] by simp

text \<open>A group name or result before the address is skipped.\<close>

function split_loop :: "mailbox \<Rightarrow> string \<Rightarrow> int \<times> mailbox" where
  "split_loop m line =
    (case rfc2822_first_special None line of
       Inl err \<Rightarrow> (err, m)
     | Inr [] \<Rightarrow> addr_loop False m line
     | Inr (c # s) \<Rightarrow>
         if c = CHR ''<'' then angle_loop False m s
         else if c \<in> set '';:,'' then split_loop m s
         else addr_loop False m line)"
  by pat_completeness auto
termination
  by (relation "measure (\<lambda>(m, line). length line)") (auto dest: special_shorter)

declare split_loop.simps [simp del]

text \<open>The status, the local part, the domain, and what the line holds afterwards.\<close>

definition mailbox0 :: mailbox where
  "mailbox0 = \<lparr>mb_user = None, mb_domain = None, mb_out = []\<rparr>"

definition rfc2822_mailbox_split :: "string \<Rightarrow> int \<times> string option \<times> string option \<times> string" where
  "rfc2822_mailbox_split line =
    (case split_loop mailbox0 line of (err, m) \<Rightarrow>
      (let w = mb_out m @ (if err = RFC2822_OK then [NUL] else []);
           line' = w @ drop (length w) line in
       (err, map_option (\<lambda>u. cstr (drop u line')) (mb_user m), map_option (\<lambda>d. cstr (drop d line')) (mb_domain m), line')))"

subsection \<open>Writing behind reading\<close>

definition mb_wf :: "mailbox \<Rightarrow> bool" where
  "mb_wf m \<longleftrightarrow> (\<forall>i. mb_user m = Some i \<or> mb_domain m = Some i \<longrightarrow> i \<le> length (mb_out m))"

lemma mb_append_wf [simp]: "mb_wf m \<Longrightarrow> mb_wf (mb_append m tok)"
  by (auto simp: mb_wf_def mb_append_def split: option.splits)

lemma mb_space_wf [simp]: "mb_wf m \<Longrightarrow> mb_wf (m\<lparr>mb_out := mb_out m @ s\<rparr>)"
  by (auto simp: mb_wf_def)

lemma mb_at_wf [simp]: "mb_wf m \<Longrightarrow> mb_wf (mb_at m)"
  by (auto simp: mb_wf_def mb_at_def)

lemma mb_clear_wf [simp]: "mb_wf (m\<lparr>mb_user := None, mb_domain := None\<rparr>)"
  by (simp add: mb_wf_def)

lemma mb_out_lengths [simp]:
  "length (mb_out (mb_append m tok)) = length (mb_out m) + length tok"
  "length (mb_out (mb_at m)) = length (mb_out m) + 1"
  by (simp_all add: mb_append_def mb_at_def)

lemma mb_word_wf [simp]: "mb_wf m \<Longrightarrow> mb_wf (mb_word ws t m tok)"
  by (simp add: mb_word_def)

lemma mb_word_length: "length (mb_out (mb_word ws t m tok)) \<le> length (mb_out m) + length tok + (if ws then 1 else 0)"
  by (simp add: mb_word_def)

definition split_errors :: "int set" where
  "split_errors = {RFC2822_OK, RFC2822_ERR_PUNBALANCED, RFC2822_ERR_QUNBALANCED, RFC2822_ERR_SUNBALANCED}"

lemma skip_space_error: "skip_space ws s = Inl err \<Longrightarrow> err \<in> split_errors - {RFC2822_OK}"
  by (induction ws s rule: skip_space.induct) (auto simp: split_errors_def split: if_splits list.splits)

lemma token_error: "rfc2822_token ws s = Inl err \<Longrightarrow> err \<in> split_errors - {RFC2822_OK}"
  by (auto simp: rfc2822_token_def split_errors_def split: sum.splits list.splits if_splits dest!: skip_space_error)

lemma special_error: "rfc2822_first_special a p = Inl err \<Longrightarrow> err \<in> split_errors - {RFC2822_OK}"
proof (induction a p rule: rfc2822_first_special.induct)
  case (1 a p)
  from "1.prems" show ?case
    unfolding rfc2822_first_special.simps [of a p]
    using "1.IH" skip_space_error [of False p]
    by (auto split: if_splits sum.splits list.splits prod.splits simp: split_errors_def)
qed

text \<open>What every loop keeps: results inside what was written, and no more written than read.\<close>

definition split_bound :: "mailbox \<Rightarrow> string \<Rightarrow> int \<times> mailbox \<Rightarrow> bool" where
  "split_bound m line r \<longleftrightarrow>
    fst r \<in> split_errors \<and> mb_wf (snd r) \<and> length (mb_out (snd r)) \<le> length (mb_out m) + length line"

lemma split_bound_trans:
  "split_bound m' rest r \<Longrightarrow> length (mb_out m') + length rest \<le> length (mb_out m) + length line \<Longrightarrow> split_bound m line r"
  by (simp add: split_bound_def)

lemma angle_bound: "mb_wf m \<Longrightarrow> split_bound m line (angle_loop ws m line)"
proof (induction ws m line rule: angle_loop.induct)
  case (1 ws m line)
  show ?case
  proof (cases "rfc2822_token ws line")
    case (Inl err)
    then show ?thesis
      using "1.prems" token_error by (auto simp: angle_loop.simps [of ws m line] split_bound_def)
  next
    case (Inr v)
    then obtain w t tok rest where v: "rfc2822_token ws line = Inr (w, t, tok, rest)" by (cases v) auto
    note len = token_length [OF v] token_shorter [OF v]
    note IH = "1.IH" [OF v refl refl refl]
    consider "t = CHR ''>'' \<or> t = NUL" | "t = CHR ''@''" | "t = CHR '','' \<or> t = CHR '':''"
      | "t \<notin> {CHR ''>'', NUL, CHR ''@'', CHR '','', CHR '':''}" by auto
    then show ?thesis
    proof cases
      case 1
      with v "1.prems" show ?thesis
        by (auto simp: angle_loop.simps [of ws m line] split_bound_def split_errors_def)
    next
      case 2
      then have eq: "angle_loop ws m line = angle_loop w (mb_at m) rest"
        using v by (simp add: angle_loop.simps [of ws m line])
      show ?thesis unfolding eq
        by (rule split_bound_trans [OF IH(1)]) (use 2 "1.prems" len in auto)
    next
      case 3
      then have eq: "angle_loop ws m line = angle_loop w (m\<lparr>mb_user := None, mb_domain := None\<rparr>) rest"
        using v by (elim disjE) (simp_all add: angle_loop.simps [of ws m line])
      show ?thesis unfolding eq
        by (rule split_bound_trans [OF IH(2)]) (use 3 "1.prems" len in auto)
    next
      case 4
      then have eq: "angle_loop ws m line = angle_loop w (mb_append m tok) rest"
        using v by (simp add: angle_loop.simps [of ws m line])
      show ?thesis unfolding eq
        by (rule split_bound_trans [OF IH(3)]) (use 4 "1.prems" len in auto)
    qed
  qed
qed

lemma addr_bound: "mb_wf m \<Longrightarrow> \<not> ws \<Longrightarrow> split_bound m line (addr_loop ws m line)"
proof (induction ws m line rule: addr_loop.induct)
  case (1 ws m line)
  show ?case
  proof (cases "rfc2822_token ws line")
    case (Inl err)
    then show ?thesis
      using "1.prems" token_error unfolding addr_loop.simps [of ws m line] by (auto simp: split_bound_def)
  next
    case (Inr v)
    then obtain w t tok rest where v: "rfc2822_token ws line = Inr (w, t, tok, rest)" by (cases v) auto
    note len = token_length [OF v] token_shorter [OF v]
    note IH = "1.IH" [OF v refl refl refl]
    consider "t = NUL \<or> t = CHR '','' \<or> t = CHR '';''" | "t = CHR ''@''"
      | "t \<notin> {NUL, CHR '','', CHR '';'', CHR ''@''}" by auto
    then show ?thesis
    proof cases
      case 1
      with v "1.prems" show ?thesis
        unfolding addr_loop.simps [of ws m line] by (auto simp: split_bound_def split_errors_def)
    next
      case 2
      then have eq: "addr_loop ws m line = addr_loop False (mb_at m) rest"
        unfolding addr_loop.simps [of ws m line] v by simp
      show ?thesis unfolding eq
        by (rule split_bound_trans [OF IH(1)]) (use 2 "1.prems" len in auto)
    next
      case 3
      then have eq: "addr_loop ws m line = addr_loop False (mb_word w t m tok) rest"
        unfolding addr_loop.simps [of ws m line] v by simp
      show ?thesis unfolding eq
        by (rule split_bound_trans [OF IH(2)]) (use 3 "1.prems" len mb_word_length [of w t m tok] in \<open>auto split: if_splits\<close>)
    qed
  qed
qed

lemma split_loop_bound: "mb_wf m \<Longrightarrow> split_bound m line (split_loop m line)"
proof (induction m line rule: split_loop.induct)
  case (1 m line)
  show ?case
  proof (cases "rfc2822_first_special None line")
    case (Inl err)
    then show ?thesis
      using "1.prems" special_error by (auto simp: split_loop.simps [of m line] split_bound_def)
  next
    case (Inr r)
    show ?thesis
    proof (cases r)
      case Nil
      then show ?thesis using Inr "1.prems" by (simp add: split_loop.simps [of m line] addr_bound)
    next
      case (Cons c s)
      have s: "length s \<le> length line" using Inr Cons special_shorter by fastforce
      consider "c = CHR ''<''" | "c \<noteq> CHR ''<''" "c \<in> set '';:,''" | "c \<noteq> CHR ''<''" "c \<notin> set '';:,''" by blast
      then show ?thesis
      proof cases
        case 1
        have "split_bound m line (angle_loop False m s)"
          by (rule split_bound_trans [OF angle_bound]) (use "1.prems" s in auto)
        with 1 Inr Cons show ?thesis by (simp add: split_loop.simps [of m line])
      next
        case 2
        have "split_bound m line (split_loop m s)"
          by (rule split_bound_trans [OF "1.IH" [OF Inr Cons 2]]) (use "1.prems" s in auto)
        with 2 Inr Cons show ?thesis by (simp add: split_loop.simps [of m line])
      next
        case 3
        with Inr Cons addr_bound "1.prems" show ?thesis by (auto simp: split_loop.simps [of m line])
      qed
    qed
  qed
qed

text \<open>
  C31: \<open>rfc2822_mailbox_split\<close> returns for every line with one of its four codes, never writes past
  the end of the line (the terminator it adds at most replaces the line's own), and both results
  start inside what it wrote.
\<close>
theorem mailbox_split_bounds:
  "\<exists>m. split_loop mailbox0 line = (fst (rfc2822_mailbox_split line), m) \<and>
     fst (rfc2822_mailbox_split line) \<in> {RFC2822_OK, RFC2822_ERR_PUNBALANCED, RFC2822_ERR_QUNBALANCED, RFC2822_ERR_SUNBALANCED} \<and>
     length (mb_out m) \<le> length line \<and>
     length (snd (snd (snd (rfc2822_mailbox_split line)))) \<le> length line + 1 \<and>
     (\<nexists>i. (mb_user m = Some i \<or> mb_domain m = Some i) \<and> length (mb_out m) < i)"
proof -
  obtain err m where r: "split_loop mailbox0 line = (err, m)" by force
  have "mb_wf mailbox0" "mb_out mailbox0 = []" by (simp_all add: mb_wf_def mailbox0_def)
  with split_loop_bound [of mailbox0 line] show ?thesis
    unfolding r by (intro exI [of _ m])
      (auto simp: rfc2822_mailbox_split_def r split_bound_def split_errors_def mb_wf_def Let_def)
qed

subsection \<open>Plain and angle addresses\<close>

definition atom :: "string \<Rightarrow> bool" where
  "atom s \<longleftrightarrow> s \<noteq> [] \<and> (\<forall>c\<in>set s. atom_char c \<and> c \<noteq> NUL)"

definition blank :: "string \<Rightarrow> bool" where
  "blank s \<longleftrightarrow> (\<forall>c\<in>set s. isspace c)"

lemma special_solid: "c \<in> set SPECIALS \<Longrightarrow> c \<noteq> CHR ''('' \<and> \<not> isspace c"
  by (auto simp: SPECIALS_def isspace_def)

lemma specials_mem [simp]:
  "CHR ''@'' \<in> set SPECIALS" "CHR ''<'' \<in> set SPECIALS" "CHR ''>'' \<in> set SPECIALS"
  "DQUOTE \<in> set SPECIALS" "CHR ''['' \<in> set SPECIALS" "CHR '':'' \<in> set SPECIALS" "CHR '','' \<in> set SPECIALS" "CHR '';'' \<in> set SPECIALS"
  by (simp_all add: SPECIALS_def)

lemma atom_char_special [simp]: "c \<in> set SPECIALS \<Longrightarrow> \<not> atom_char c"
  by (simp add: atom_char_def)

lemma skip_solid: "atom_char c \<or> c \<in> set SPECIALS \<Longrightarrow> skip_space ws (c # s) = Inr (ws, c # s)"
  using special_solid by (auto simp: atom_char_def)

lemma skip_blank: "blank sp \<Longrightarrow> skip_space ws (sp @ s) = skip_space (ws \<or> sp \<noteq> []) s"
proof (induction sp arbitrary: ws)
  case (Cons c sp)
  then have "isspace c" "blank sp" "c \<noteq> CHR ''(''" by (auto simp: blank_def isspace_def)
  then show ?case using Cons.IH [of True] isspace_ascii by simp
qed simp

lemma token_special:
  "c \<in> set SPECIALS \<Longrightarrow> c \<noteq> DQUOTE \<Longrightarrow> c \<noteq> CHR ''['' \<Longrightarrow> rfc2822_token ws (c # s) = Inr (ws, c, [c], s)"
  by (simp add: rfc2822_token_def skip_solid del: skip_space.simps)

lemma token_end: "blank sp \<Longrightarrow> rfc2822_token ws sp = Inr (ws \<or> sp \<noteq> [], NUL, [], [])"
  using skip_blank [of sp ws "[]"] by (simp add: rfc2822_token_def)

lemma atom_stop:
  assumes "atom s" "r = [] \<or> \<not> atom_char (hd r)"
  shows "takeWhile atom_char (s @ r) = s" "dropWhile atom_char (s @ r) = r"
proof -
  have "\<forall>c\<in>set s. atom_char c" using assms(1) by (simp add: atom_def)
  then show "takeWhile atom_char (s @ r) = s" "dropWhile atom_char (s @ r) = r"
    using assms(2) by (cases r; auto simp: takeWhile_append dropWhile_append)+
qed

lemma token_atom:
  assumes "blank sp" "atom s" "r = [] \<or> \<not> atom_char (hd r)"
  shows "rfc2822_token ws (sp @ s @ r) = Inr (ws \<or> sp \<noteq> [], CHR ''x'', s, r)"
proof -
  obtain c s' where s: "s = c # s'" and c: "atom_char c" using assms(2) by (cases s) (auto simp: atom_def)
  have "c \<noteq> DQUOTE" "c \<noteq> CHR ''[''" "c \<notin> set SPECIALS" using c by auto
  moreover have "c # takeWhile atom_char (s' @ r) = s" "dropWhile atom_char (s' @ r) = r"
    using atom_stop [OF assms(2,3)] c unfolding s by simp_all
  moreover have "skip_space ws (sp @ s @ r) = Inr (ws \<or> sp \<noteq> [], c # s' @ r)"
    using skip_blank [OF assms(1), of ws "s @ r"] skip_solid [of c] c s by simp
  ultimately show ?thesis by (simp add: rfc2822_token_def)
qed

lemma first_special_lt:
  "skip_space False p = Inr (w, CHR ''<'' # s) \<Longrightarrow> rfc2822_first_special a p = Inr (CHR ''<'' # s)"
  by (cases "p = []") (simp_all add: rfc2822_first_special.simps [of a p])

lemma first_special_at:
  "skip_space False p = Inr (w, CHR ''@'' # s) \<Longrightarrow>
    rfc2822_first_special a p = rfc2822_first_special (Some (CHR ''@'' # s)) s"
  by (cases "p = []") (simp_all add: rfc2822_first_special.simps [of a p])

lemma first_special_word:
  "c \<noteq> DQUOTE \<Longrightarrow> c \<noteq> CHR ''['' \<Longrightarrow> c \<notin> set SPECIALS \<Longrightarrow> skip_space False p = Inr (w, c # s) \<Longrightarrow>
    rfc2822_first_special a p = rfc2822_first_special a (dropWhile atom_char s)"
  by (cases "p = []") (simp_all add: rfc2822_first_special.simps [of a p])

lemma first_special_end: "skip_space False p = Inr (w, []) \<Longrightarrow> rfc2822_first_special a p = Inr []"
  by (cases "p = []") (simp_all add: rfc2822_first_special.simps [of a p] rfc2822_first_special.simps [of a "[]"])

lemma addr_steps:
  "rfc2822_token ws s = Inr (w, NUL, tok, r) \<Longrightarrow> addr_loop ws m s = (RFC2822_OK, m)"
  "rfc2822_token ws s = Inr (w, CHR ''@'', tok, r) \<Longrightarrow> addr_loop ws m s = addr_loop False (mb_at m) r"
  "rfc2822_token ws s = Inr (w, CHR ''x'', tok, r) \<Longrightarrow> addr_loop ws m s = addr_loop False (mb_word w CHR ''x'' m tok) r"
  by (simp_all add: addr_loop.simps [of ws m s])

lemma angle_steps:
  "rfc2822_token ws s = Inr (w, CHR ''>'', tok, r) \<Longrightarrow> angle_loop ws m s = (RFC2822_OK, m)"
  "rfc2822_token ws s = Inr (w, CHR ''@'', tok, r) \<Longrightarrow> angle_loop ws m s = angle_loop w (mb_at m) r"
  "rfc2822_token ws s = Inr (w, CHR ''x'', tok, r) \<Longrightarrow> angle_loop ws m s = angle_loop w (mb_append m tok) r"
  by (simp_all add: angle_loop.simps [of ws m s])

text \<open>Words and white space hold no special.\<close>

lemma first_special_words:
  assumes "\<forall>c\<in>set disp. atom_char c \<or> isspace c"
    "r = [] \<or> hd r \<in> set ''<@'' \<and> (hd r = CHR ''@'' \<longrightarrow> (\<exists>r'. rfc2822_first_special (Some r) (tl r) = Inr r'))"
  shows "rfc2822_first_special a (disp @ r) =
    (if r = [] then Inr [] else if hd r = CHR ''<'' then Inr r else rfc2822_first_special (Some r) (tl r))"
  using assms(1)
proof (induction "length disp" arbitrary: disp a rule: less_induct)
  case less
  define sp where "sp = takeWhile isspace disp"
  define rest where "rest = dropWhile isspace disp"
  have disp: "disp = sp @ rest" "blank sp"
    by (auto simp: sp_def rest_def blank_def dest: set_takeWhileD)
  have skip: "skip_space False (disp @ r) = skip_space (sp \<noteq> []) (rest @ r)"
    using skip_blank [OF disp(2), of False "rest @ r"] by (simp add: disp(1))
  show ?case
  proof (cases rest)
    case Nil
    show ?thesis
    proof (cases r)
      case (Cons c r')
      have sk: "skip_space False (disp @ c # r') = Inr (sp \<noteq> [], c # r')" if "c = CHR ''<'' \<or> c = CHR ''@''"
      proof -
        have "skip_space False (disp @ c # r') = skip_space (sp \<noteq> []) (c # r')" using skip by (simp only: Nil Cons append_Nil)
        also have "\<dots> = Inr (sp \<noteq> [], c # r')" by (rule skip_solid) (use that in auto)
        finally show ?thesis .
      qed
      from Cons assms(2) have "c = CHR ''<'' \<or> c = CHR ''@''" by auto
      then show ?thesis
      proof
        assume c: "c = CHR ''<''"
        from first_special_lt [OF sk [OF disjI1 [OF c], unfolded c]] show ?thesis by (simp add: Cons c)
      next
        assume c: "c = CHR ''@''"
        from first_special_at [OF sk [OF disjI2 [OF c], unfolded c]] show ?thesis by (simp add: Cons c)
      qed
    qed (use skip Nil in \<open>simp add: first_special_end\<close>)
  next
    case (Cons c s)
    then have "dropWhile isspace disp = c # s" by (simp add: rest_def)
    then have "\<not> isspace c" "c \<in> set disp" using hd_dropWhile [of isspace disp] set_dropWhileD [of c isspace disp] by auto
    with less.prems have c: "atom_char c" by blast
    have "c \<noteq> DQUOTE" "c \<noteq> CHR ''[''" "c \<notin> set SPECIALS" using c by auto
    moreover have "skip_space False (disp @ r) = Inr (sp \<noteq> [], c # s @ r)"
      using skip Cons skip_solid c by simp
    ultimately have step: "rfc2822_first_special a (disp @ r) = rfc2822_first_special a (dropWhile atom_char (s @ r))"
      by (rule first_special_word)
    have r: "r = [] \<or> \<not> atom_char (hd r)" using assms(2) by auto
    then have drop: "dropWhile atom_char (s @ r) = dropWhile atom_char s @ r"
      by (cases r) (auto simp: dropWhile_append dropWhile_eq_self_iff)
    have "length (dropWhile atom_char s) < length disp"
      using dropWhile_length_le [of atom_char s] Cons disp(1) by simp
    moreover have "\<forall>c\<in>set (dropWhile atom_char s). atom_char c \<or> isspace c"
      using less.prems Cons disp(1) by (auto dest: set_dropWhileD)
    ultimately show ?thesis unfolding step drop by (rule less.hyps)
  qed
qed

lemma addr_plain:
  assumes "blank sp1" "blank sp2" "atom u" "atom d"
  shows "addr_loop False mailbox0 (sp1 @ u @ ''@'' @ d @ sp2) =
    (RFC2822_OK, \<lparr>mb_user = Some 0, mb_domain = Some (length u + 1), mb_out = u @ NUL # d\<rparr>)"
proof -
  have at: "rfc2822_token False (CHR ''@'' # d @ sp2) = Inr (False, CHR ''@'', ''@'', d @ sp2)"
    by (rule token_special) simp_all
  have "sp2 = [] \<or> \<not> atom_char (hd sp2)"
    using assms(2) isspace_ascii by (cases sp2) (auto simp: blank_def atom_char_def)
  then have dom: "rfc2822_token False (d @ sp2) = Inr (False, CHR ''x'', d, sp2)"
    using token_atom [of "[]" d sp2 False] assms(4) by (simp add: blank_def)
  have usr: "rfc2822_token False (sp1 @ u @ CHR ''@'' # d @ sp2) = Inr (sp1 \<noteq> [], CHR ''x'', u, CHR ''@'' # d @ sp2)"
    using token_atom [OF assms(1,3), of "CHR ''@'' # d @ sp2" False] by simp
  show ?thesis
    by (simp add: addr_steps(3) [OF usr] addr_steps(2) [OF at] addr_steps(3) [OF dom] addr_steps(1) [OF token_end [OF assms(2)]]
        mb_word_def mb_append_def mb_at_def mailbox0_def)
qed

lemma angle_plain:
  assumes "atom u" "atom d"
  shows "angle_loop False mailbox0 (u @ ''@'' @ d @ ''>'' @ rest) =
    (RFC2822_OK, \<lparr>mb_user = Some 0, mb_domain = Some (length u + 1), mb_out = u @ NUL # d\<rparr>)"
proof -
  have at: "rfc2822_token False (CHR ''@'' # s) = Inr (False, CHR ''@'', ''@'', s)"
    and gt: "rfc2822_token False (CHR ''>'' # s) = Inr (False, CHR ''>'', ''>'', s)" for s
    by (rule token_special; simp)+
  have dom: "rfc2822_token False (d @ CHR ''>'' # rest) = Inr (False, CHR ''x'', d, CHR ''>'' # rest)"
    using token_atom [of "[]" d "CHR ''>'' # rest" False] assms(2) by (simp add: blank_def)
  have usr: "rfc2822_token False (u @ CHR ''@'' # s) = Inr (False, CHR ''x'', u, CHR ''@'' # s)" for s
    using token_atom [of "[]" u "CHR ''@'' # s" False] assms(1) by (simp add: blank_def)
  show ?thesis
    by (simp add: angle_steps(3) [OF usr] angle_steps(2) [OF at] angle_steps(3) [OF dom] angle_steps(1) [OF gt]
        mb_append_def mb_at_def mailbox0_def)
qed

lemma split_result:
  assumes "split_loop mailbox0 line = (RFC2822_OK, \<lparr>mb_user = Some 0, mb_domain = Some (length u + 1), mb_out = u @ NUL # d\<rparr>)"
    "atom u" "atom d"
  shows "\<exists>line'. rfc2822_mailbox_split line = (RFC2822_OK, Some u, Some d, line')"
proof -
  have "is_cstring u" "is_cstring d" using assms(2,3) by (auto simp: atom_def is_cstring_def)
  then show ?thesis
    by (simp add: rfc2822_mailbox_split_def assms(1) cstr_append_NUL)
qed

text \<open>
  C30: the address of a field body that is one plain address between white space, or a display name of
  words and an address in angle brackets with anything after it: the local part and the domain are
  returned exactly.
\<close>
theorem mailbox_split_addr:
  assumes "line = sp1 @ u @ ''@'' @ d @ sp2 \<or> line = disp @ ''<'' @ u @ ''@'' @ d @ ''>'' @ rest"
    "blank sp1" "blank sp2" "atom u" "atom d" "\<forall>c\<in>set disp. atom_char c \<or> isspace c"
  shows "\<exists>line'. rfc2822_mailbox_split line = (RFC2822_OK, Some u, Some d, line')"
  using assms(1)
proof
  assume line: "line = sp1 @ u @ ''@'' @ d @ sp2"
  have w: "\<forall>c\<in>set (sp1 @ u). atom_char c \<or> isspace c" "\<forall>c\<in>set (d @ sp2). atom_char c \<or> isspace c"
    using assms by (auto simp: blank_def atom_def)
  have e: "rfc2822_first_special a (d @ sp2) = Inr []" for a
    using first_special_words [OF w(2), of "[]" a] by simp
  have "rfc2822_first_special None line = Inr []"
    using first_special_words [OF w(1), of "CHR ''@'' # d @ sp2" None] e by (simp add: line)
  then have "split_loop mailbox0 line = addr_loop False mailbox0 line" by (simp add: split_loop.simps [of _ line])
  with addr_plain [OF assms(2-5)] show ?thesis
    by (intro split_result assms(4,5)) (simp add: line)
next
  assume line: "line = disp @ ''<'' @ u @ ''@'' @ d @ ''>'' @ rest"
  have "rfc2822_first_special None line = Inr (CHR ''<'' # u @ ''@'' @ d @ ''>'' @ rest)"
    using first_special_words [OF assms(6), of "CHR ''<'' # u @ ''@'' @ d @ ''>'' @ rest" None] by (simp add: line)
  then have "split_loop mailbox0 line = angle_loop False mailbox0 (u @ ''@'' @ d @ ''>'' @ rest)"
    by (simp add: split_loop.simps [of _ line])
  with angle_plain [OF assms(4,5)] show ?thesis
    by (intro split_result assms(4,5)) simp
qed

theorem mailbox_split_addr_witness:
  "\<exists>line'. rfc2822_mailbox_split ''Al B <a@b>, c'' = (RFC2822_OK, Some ''a'', Some ''b'', line')"
  using mailbox_split_addr [of "''Al B <a@b>, c''" "[]" "''a''" "''b''" "[]" "''Al B ''" "'', c''"]
  by (simp add: blank_def atom_def atom_char_def SPECIALS_def cctype)

text \<open>An address without a local part: the domain is reported as the user as well.\<close>

lemma mailbox_split_no_local:
  "\<exists>line'. rfc2822_mailbox_split ''<@b>'' = (RFC2822_OK, Some ''b'', Some ''b'', line')"
  by (simp add: rfc2822_mailbox_split_def split_loop.simps angle_loop.simps rfc2822_first_special.simps
      rfc2822_token_def SPECIALS_def atom_char_def mailbox0_def mb_at_def mb_append_def cstr_def cctype Let_def)

end
