(* ===== verification/Dkim_Verify.thy ===== *)
theory Dkim_Verify
  imports Dkim_Keys Dkim_Canon_Run Dkim_Mailbox
begin

text \<open>
  Verification in \<open>dkim.c\<close>: the end of the header (\<open>dkim_eoh_verify\<close>), the processing of one signature
  (\<open>dkim_sig_process\<close>) and the end of the message (\<open>dkim_eom_verify\<close>).

  The prescreen and final callbacks of the caller are functions on the handle (\<open>w_prescreen\<close>,
  \<open>w_final\<close>): they may mark signatures, reorder them or process them. Of OpenSSL the model takes whether
  a key decodes to an RSA key, its size, and whether a signature of a digest verifies under it.

  \<open>sig_genuine\<close> is what the flags of a signature stand for: "passed" means that the digest of the
  selected headers verified under a key of the signature's domain and selector whose record allows
  it, and a body hash match means that "bh=" is the digest of the body. The lemmas show that every
  operation keeps it, so that an accepted message has a genuine signature.
\<close>

abbreviation (input) DKIM_STATE_INIT :: int where "DKIM_STATE_INIT \<equiv> 0"
abbreviation (input) DKIM_STATE_HEADER :: int where "DKIM_STATE_HEADER \<equiv> 1"
abbreviation (input) DKIM_STATE_EOH1 :: int where "DKIM_STATE_EOH1 \<equiv> 2"
abbreviation (input) DKIM_STATE_EOH2 :: int where "DKIM_STATE_EOH2 \<equiv> 3"
abbreviation (input) DKIM_STATE_BODY :: int where "DKIM_STATE_BODY \<equiv> 4"
abbreviation (input) DKIM_STATE_EOM1 :: int where "DKIM_STATE_EOM1 \<equiv> 5"
abbreviation (input) DKIM_STATE_EOM2 :: int where "DKIM_STATE_EOM2 \<equiv> 6"
abbreviation (input) DKIM_STATE_UNUSABLE :: int where "DKIM_STATE_UNUSABLE \<equiv> 99"
abbreviation (input) DKIM_CHUNKSTATE_INIT :: int where "DKIM_CHUNKSTATE_INIT \<equiv> 0"
abbreviation (input) DKIM_CHUNKSTATE_HEADER :: int where "DKIM_CHUNKSTATE_HEADER \<equiv> 1"
abbreviation (input) DKIM_CHUNKSTATE_BODY :: int where "DKIM_CHUNKSTATE_BODY \<equiv> 2"
abbreviation (input) DKIM_CHUNKSTATE_DONE :: int where "DKIM_CHUNKSTATE_DONE \<equiv> 3"
abbreviation (input) NID_sha1 :: int where "NID_sha1 \<equiv> 64"
abbreviation (input) NID_sha256 :: int where "NID_sha256 \<equiv> 672"

abbreviation flag_set :: "siginfo \<Rightarrow> 32 word \<Rightarrow> bool" where
  "flag_set sg f \<equiv> and (sig_flags sg) f \<noteq> 0"

definition set_sig :: "dkim \<Rightarrow> nat \<Rightarrow> siginfo \<Rightarrow> dkim" where
  "set_sig dk j sg = dk\<lparr>dkim_siglist := (dkim_siglist dk)[j := sg]\<rparr>"

subsection \<open>Whether a header is signed\<close>

text \<open>
  The scan of "h=": a field between colons matches when the name starts with it, and a list without a
  colon when it is the name.
\<close>

fun hdrsigned_loop :: "string \<Rightarrow> bool \<Rightarrow> string \<Rightarrow> string \<Rightarrow> bool" where
  "hdrsigned_loop hdr c2 start [] =
    (if c2 then strncaseeq hdr start (length start) else strcaseeq hdr start)"
| "hdrsigned_loop hdr c2 start (p # ps) =
    (if p = CHR '':'' then strncaseeq hdr start (length start) \<or> hdrsigned_loop hdr True [] ps
     else hdrsigned_loop hdr c2 (start @ [p]) ps)"

definition dkim_sig_hdrsigned :: "dkim_set \<Rightarrow> string \<Rightarrow> bool" where
  "dkim_sig_hdrsigned st hdr =
    (case dkim_param_get st ''h'' of None \<Rightarrow> False | Some hdrlist \<Rightarrow> hdrsigned_loop hdr False [] hdrlist)"

subsection \<open>Processing a signature\<close>

text \<open>
  The RSA check of a digest: \<open>Inl\<close> is a return of the caller. The key is what BIO reads of \<open>sig_key\<close>.
\<close>

definition sig_rsa :: "world \<Rightarrow> env \<Rightarrow> siginfo \<Rightarrow> string \<Rightarrow> int \<times> siginfo + siginfo" where
  "sig_rsa w e sg digest =
    (if \<not> env_malloc e sizeof_struct then Inl (DKIM_STAT_NORESOURCE, sg)
     else let key = take (sig_keylen sg) (the (sig_key sg)) in
       case w_pubkey w key of
         None \<Rightarrow> Inl (DKIM_STAT_OK, sg\<lparr>sig_error := DKIM_SIGERROR_KEYDECODE\<rparr>)
       | Some keysize \<Rightarrow>
          (let sg = sg\<lparr>sig_keybits := 8 * keysize\<rparr>;
               nid = (if sig_hashtype sg = DKIM_HASHTYPE_SHA256 then NID_sha256 else NID_sha1);
               sg = (if w_rsa_verify w nid digest (the (sig_sig sg)) key
                     then sg\<lparr>sig_flags := or (sig_flags sg) DKIM_SIGFLAG_PASSED\<rparr>
                     else sg\<lparr>sig_error := DKIM_SIGERROR_BADSIG\<rparr>) in
           Inr (sg\<lparr>sig_flags := or (sig_flags sg) DKIM_SIGFLAG_PROCESSED\<rparr>)))"

text \<open>What becomes of a signature whose key could not be had.\<close>

definition key_failure :: "int \<Rightarrow> siginfo \<Rightarrow> siginfo option" where
  "key_failure status sg =
    (let failed = (\<lambda>err. Some (sg\<lparr>sig_flags := or (sig_flags sg) DKIM_SIGFLAG_PROCESSED, sig_error := err\<rparr>)) in
     if status = DKIM_STAT_NOKEY then failed DKIM_SIGERROR_NOKEY
     else if status = DKIM_STAT_KEYFAIL then failed DKIM_SIGERROR_KEYFAIL
     else if status = DKIM_STAT_CANTVRFY \<or> status = DKIM_STAT_SYNTAX then
       failed (if sig_error sg = DKIM_SIGERROR_UNKNOWN then DKIM_SIGERROR_DNSSYNTAX else sig_error sg)
     else if status = DKIM_STAT_MULTIDNSREPLY then failed DKIM_SIGERROR_MULTIREPLY
     else if status = DKIM_STAT_REVOKED then failed DKIM_SIGERROR_KEYREVOKED
     else None)"

text \<open>"skip the DNS part if we've already done it": \<open>Inl\<close> is a return.\<close>

definition sig_fetch :: "world \<Rightarrow> env \<Rightarrow> dkim \<Rightarrow> nat \<Rightarrow> int \<times> dkim + dkim" where
  "sig_fetch w e dk j =
    (case dkim_canon_getfinal e (dkim_canons dk ! the (sig_hdrcanon (dkim_siglist dk ! j))) of
       (_, None) \<Rightarrow> Inl (DKIM_STAT_INTERNAL, dk)
     | (_, Some digest) \<Rightarrow>
    (case dkim_get_key w e dk j of (status, dk) \<Rightarrow>
      (case key_failure status (dkim_siglist dk ! j) of
         Some sg \<Rightarrow> Inl (DKIM_STAT_OK, set_sig dk j sg)
       | None \<Rightarrow>
           if status \<noteq> DKIM_STAT_OK then Inl (status, dk)
           else (case sig_rsa w e (dkim_siglist dk ! j) digest of
               Inl (st, sg) \<Rightarrow> Inl (st, set_sig dk j sg)
             | Inr sg \<Rightarrow> Inr (set_sig dk j sg)))))"

definition sig_bodyhash :: "env \<Rightarrow> dkim \<Rightarrow> siginfo \<Rightarrow> siginfo" where
  "sig_bodyhash e dk sg =
    (if dkim_bodydone dk \<and> sig_bh sg = DKIM_SIGBH_UNTESTED \<and> flag_set sg DKIM_SIGFLAG_PASSED then
       (let digest = (case dkim_canon_getfinal e (dkim_canons dk ! the (sig_bodycanon sg)) of
                        (_, Some d) \<Rightarrow> d | (_, None) \<Rightarrow> []);
            bhash = dkim_param_get (dkim_sets dk ! the (sig_taglist sg)) ''bh'' in
        sg\<lparr>sig_bh := (if bhash = dkim_base64_encode digest BUFRSZ then DKIM_SIGBH_MATCH else DKIM_SIGBH_MISMATCH)\<rparr>)
     else sg)"

text \<open>"t=s" in the key: the domains of "i=" and "d=" must be the same.\<close>

definition sig_subdomain :: "dkim \<Rightarrow> siginfo \<Rightarrow> siginfo" where
  "sig_subdomain dk sg =
    (if flag_set sg DKIM_SIGFLAG_NOSUBDOMAIN then
       (let st = dkim_sets dk ! the (sig_taglist sg) in
        case (dkim_param_get st ''d'', dkim_param_get st ''i'') of
          (Some d, Some i) \<Rightarrow>
            (let dom = (case strchr i CHR ''@'' of None \<Rightarrow> i | Some s \<Rightarrow> tl s) in
             if \<not> strcaseeq dom d then sg\<lparr>sig_error := DKIM_SIGERROR_SUBDOMAIN\<rparr> else sg)
        | _ \<Rightarrow> sg)
     else sg)"

text \<open>The list of headers that must be signed when they are present.\<close>

definition sig_mustsign :: "dkim \<Rightarrow> siginfo \<Rightarrow> siginfo" where
  "sig_mustsign dk sg =
    (case dkiml_mbs (dkim_libhandle dk) of
       None \<Rightarrow> sg
     | Some mbs \<Rightarrow>
         if list_ex (\<lambda>hdr. dkim_get_header dk hdr 0 0 \<noteq> None \<and>
              \<not> dkim_sig_hdrsigned (dkim_sets dk ! the (sig_taglist sg)) hdr) mbs
         then sg\<lparr>sig_error := DKIM_SIGERROR_MBSFAILED\<rparr> else sg)"

definition sig_settle :: "siginfo \<Rightarrow> siginfo" where
  "sig_settle sg =
    (if sig_error sg = DKIM_SIGERROR_UNKNOWN \<and> sig_bh sg \<noteq> DKIM_SIGBH_UNTESTED
     then sg\<lparr>sig_error := DKIM_SIGERROR_OK\<rparr> else sg)"

definition dkim_sig_process :: "world \<Rightarrow> env \<Rightarrow> dkim \<Rightarrow> nat \<Rightarrow> int \<times> dkim" where
  "dkim_sig_process w e dk j =
    (let sg = dkim_siglist dk ! j in
     if flag_set sg DKIM_SIGFLAG_IGNORE then (DKIM_STAT_OK, dk)
     else if sig_error sg \<noteq> DKIM_SIGERROR_UNKNOWN then (DKIM_STAT_OK, dk)
     else case (if flag_set sg DKIM_SIGFLAG_PROCESSED then Inr dk else sig_fetch w e dk j) of
       Inl r \<Rightarrow> r
     | Inr dk \<Rightarrow>
         (DKIM_STAT_OK,
          set_sig dk j (sig_settle (sig_mustsign dk (sig_subdomain dk (sig_bodyhash e dk (dkim_siglist dk ! j)))))))"

text \<open>\<open>dkim_sig_ignore\<close>, for the callbacks.\<close>

definition dkim_sig_ignore :: "dkim \<Rightarrow> nat \<Rightarrow> dkim" where
  "dkim_sig_ignore dk j =
    set_sig dk j ((dkim_siglist dk ! j)\<lparr>sig_flags := or (sig_flags (dkim_siglist dk ! j)) DKIM_SIGFLAG_IGNORE\<rparr>)"

subsection \<open>The end of the header\<close>

fun dkim_getsender :: "dkim \<Rightarrow> string list \<Rightarrow> nat option" where
  "dkim_getsender dk [] = None"
| "dkim_getsender dk (h # hs) =
    (case find (\<lambda>i. hdr_namelen (dkim_hdrs dk ! i) = length h \<and> strncaseeq h (hdr_text (dkim_hdrs dk ! i)) (length h))
            [0 ..< length (dkim_hdrs dk)] of
       Some i \<Rightarrow> Some i
     | None \<Rightarrow> dkim_getsender dk hs)"

definition absent :: "string option \<Rightarrow> bool" where
  "absent s \<longleftrightarrow> s = None \<or> s = Some []"

text \<open>
  \<open>dkim_sender\<close>, \<open>dkim_domain\<close> and \<open>dkim_user\<close>; \<open>Inl\<close> is a return. The address is split in place, in
  the copy that \<open>dkim_sender\<close> points at.
\<close>

definition eoh_sender :: "env \<Rightarrow> dkim \<Rightarrow> int \<times> dkim + dkim" where
  "eoh_sender e dk =
    (case dkim_getsender dk (dkiml_senderhdrs (dkim_libhandle dk)) of
       None \<Rightarrow> Inl (DKIM_STAT_SYNTAX, dk\<lparr>dkim_state := DKIM_STATE_UNUSABLE\<rparr>)
     | Some i \<Rightarrow>
    (let dk = dk\<lparr>dkim_senderhdr := Some i\<rparr>; sender = dkim_hdrs dk ! i in
     case hdr_colon sender of
       None \<Rightarrow> Inl (DKIM_STAT_SYNTAX, dk)
     | Some c \<Rightarrow>
    (case dkim_strdup (env_malloc e) (drop (c + 1) (hdr_text sender)) 0 of
       None \<Rightarrow> Inl (DKIM_STAT_NORESOURCE, dk\<lparr>dkim_sender := None\<rparr>)
     | Some s \<Rightarrow>
    (case rfc2822_mailbox_split (cstr s) of (status, user, domain, line) \<Rightarrow>
     let dk = dk\<lparr>dkim_sender := Some (cstr line)\<rparr> in
     if status \<noteq> RFC2822_OK \<or> absent domain \<or> absent user
     then Inl (DKIM_STAT_SYNTAX, dk\<lparr>dkim_state := DKIM_STATE_UNUSABLE\<rparr>)
     else case (if dkim_domain dk = None
                then map_option (\<lambda>d. dk\<lparr>dkim_domain := Some (cstr d)\<rparr>) (dkim_strdup (env_malloc e) (the domain) 0)
                else Some dk) of
         None \<Rightarrow> Inl (DKIM_STAT_NORESOURCE, dk)
       | Some dk \<Rightarrow>
           (case dkim_strdup (env_malloc e) (the user) 0 of
              None \<Rightarrow> Inl (DKIM_STAT_NORESOURCE, dk\<lparr>dkim_user := None\<rparr>)
            | Some u \<Rightarrow> Inr (dk\<lparr>dkim_user := Some (cstr u)\<rparr>))))))"

text \<open>"allocate the siginfo array if not already done".\<close>

definition eoh_signatures :: "world \<Rightarrow> env \<Rightarrow> dkim \<Rightarrow> int \<times> dkim + dkim" where
  "eoh_signatures w e dk =
    (if dkim_siglist dk \<noteq> [] then Inr dk
     else
       (let good = filter (\<lambda>k. \<not> set_bad (dkim_sets dk ! k)) (signature_sets dk);
            dk = dk\<lparr>dkim_sigcount := dkim_sigcount dk + length good\<rparr> in
        if dkim_sigcount dk = 0 then Inl (DKIM_STAT_NOSIG, dk\<lparr>dkim_skipbody := True\<rparr>)
        else case dkim_siglist_setup e dk of (status, dk) \<Rightarrow>
          if status \<noteq> DKIM_STAT_OK then Inl (status, dk)
          else case dkim_canon_init e dk (lib_flag dk DKIM_LIBFLAGS_TMPFILES) (w_tmpfile w) of (status, dk) \<Rightarrow>
            if status \<noteq> DKIM_STAT_OK then Inl (status, dk) else Inr dk))"

definition callback :: "(dkim \<Rightarrow> int \<times> dkim) option \<Rightarrow> dkim \<Rightarrow> int \<times> dkim" where
  "callback f dk = (case f of None \<Rightarrow> (DKIM_CBSTAT_CONTINUE, dk) | Some f \<Rightarrow> f dk)"

definition callback_status :: "int \<Rightarrow> int" where
  "callback_status status =
    (if status = DKIM_CBSTAT_REJECT then DKIM_STAT_CBREJECT
     else if status = DKIM_CBSTAT_TRYAGAIN then DKIM_STAT_CBTRYAGAIN
     else DKIM_STAT_CBINVALID)"

text \<open>"public key verification of all still-enabled signatures".\<close>

fun eoh_process :: "world \<Rightarrow> env \<Rightarrow> nat list \<Rightarrow> dkim \<Rightarrow> int \<times> dkim" where
  "eoh_process w e [] dk = (DKIM_STAT_OK, dk)"
| "eoh_process w e (j # js) dk =
    (let sg = dkim_siglist dk ! j in
     if \<not> flag_set sg DKIM_SIGFLAG_PROCESSED \<and> \<not> flag_set sg DKIM_SIGFLAG_IGNORE \<and> sig_error sg = DKIM_SIGERROR_UNKNOWN
     then (case dkim_sig_process w e dk j of (status, dk) \<Rightarrow>
             if status \<noteq> DKIM_STAT_OK then (status, dk) else eoh_process w e js dk)
     else eoh_process w e js dk)"

text \<open>"OK we had a good one".\<close>

definition eoh_good :: "siginfo \<Rightarrow> bool" where
  "eoh_good sg \<longleftrightarrow> \<not> flag_set sg DKIM_SIGFLAG_IGNORE \<and>
    (sig_error sg = DKIM_SIGERROR_UNKNOWN \<or> sig_error sg = DKIM_SIGERROR_OK) \<and>
    \<not> (flag_set sg DKIM_SIGFLAG_PROCESSED \<and> \<not> flag_set sg DKIM_SIGFLAG_PASSED)"

definition first_enabled :: "dkim \<Rightarrow> nat option" where
  "first_enabled dk =
    find (\<lambda>j. \<not> flag_set (dkim_siglist dk ! j) DKIM_SIGFLAG_IGNORE) [0 ..< dkim_sigcount dk]"

definition eoh_run :: "world \<Rightarrow> env \<Rightarrow> dkim \<Rightarrow> int \<times> dkim" where
  "eoh_run w e dk =
    (if (case first_enabled dk of None \<Rightarrow> True | Some j \<Rightarrow> sig_taglist (dkim_siglist dk ! j) = None)
     then (DKIM_STAT_NOSIG, dk\<lparr>dkim_skipbody := True\<rparr>)
     else case dkim_canon_runheaders e dk False of (status, dk) \<Rightarrow>
       if status \<noteq> DKIM_STAT_OK then (status, dk)
       else case (if lib_flag dk DKIM_LIBFLAGS_DELAYSIGPROC then (DKIM_STAT_OK, dk)
                  else eoh_process w e [0 ..< dkim_sigcount dk] dk) of (status, dk) \<Rightarrow>
         if status \<noteq> DKIM_STAT_OK then (status, dk)
         else if lib_flag dk DKIM_LIBFLAGS_EOHCHECK \<and>
             \<not> list_ex (\<lambda>j. eoh_good (dkim_siglist dk ! j)) [0 ..< dkim_sigcount dk]
         then (DKIM_STAT_CANTVRFY, dk)
         else (DKIM_STAT_OK, dk))"

definition dkim_eoh_verify :: "world \<Rightarrow> env \<Rightarrow> dkim \<Rightarrow> int \<times> dkim" where
  "dkim_eoh_verify w e dk =
    (if dkim_state dk \<ge> DKIM_STATE_EOH2 then (DKIM_STAT_INVALID, dk)
     else
    (let dk = (if dkim_state dk < DKIM_STATE_EOH1 then dk\<lparr>dkim_state := DKIM_STATE_EOH1\<rparr> else dk) in
     case eoh_sender e dk of
       Inl r \<Rightarrow> r
     | Inr dk \<Rightarrow>
    (case eoh_signatures w e dk of
       Inl r \<Rightarrow> r
     | Inr dk \<Rightarrow>
    (case callback (w_prescreen w) dk of (status, dk) \<Rightarrow>
       if status \<noteq> DKIM_CBSTAT_CONTINUE then (callback_status status, dk)
       else eoh_run w e (dk\<lparr>dkim_state := DKIM_STATE_EOH2\<rparr>)))))"

subsection \<open>The end of the message\<close>

text \<open>
  A message without signatures: the domain of "From:" if it is not known yet. The address is split
  in place, in the stored header.
\<close>

definition eom_unsigned :: "env \<Rightarrow> dkim \<Rightarrow> int \<times> dkim" where
  "eom_unsigned e dk =
    (if dkim_domain dk \<noteq> None then (DKIM_STAT_NOSIG, dk)
     else case dkim_get_header dk ''From'' 4 0 of
       None \<Rightarrow> (DKIM_STAT_CANTVRFY, dk)
     | Some i \<Rightarrow>
    (let hdr = dkim_hdrs dk ! i in
     case hdr_colon hdr of
       None \<Rightarrow> (DKIM_STAT_CANTVRFY, dk)
     | Some c \<Rightarrow>
    (case rfc2822_mailbox_split (drop (c + 1) (hdr_text hdr)) of (status, user, domain, line) \<Rightarrow>
     let dk = dk\<lparr>dkim_hdrs := (dkim_hdrs dk)[i := hdr\<lparr>hdr_text := cstr (take (c + 1) (hdr_text hdr) @ line)\<rparr>]\<rparr> in
     if status \<noteq> RFC2822_OK \<or> absent domain then (DKIM_STAT_CANTVRFY, dk)
     else case dkim_strdup (env_malloc e) (the domain) 0 of
         None \<Rightarrow> (DKIM_STAT_NORESOURCE, dk)
       | Some d \<Rightarrow> (DKIM_STAT_NOSIG, dk\<lparr>dkim_domain := Some (cstr d)\<rparr>))))"

text \<open>"l=" greater than the canonicalized body.\<close>

definition toolarge :: "dkim \<Rightarrow> siginfo \<Rightarrow> siginfo" where
  "toolarge dk sg =
    (case sig_bodycanon sg of
       None \<Rightarrow> sg
     | Some b \<Rightarrow>
         (let c = dkim_canons dk ! b in
          if canon_length c \<noteq> - 1 \<and> int (canon_wrote c) < canon_length c
          then sg\<lparr>sig_error := DKIM_SIGERROR_TOOLARGE_L\<rparr> else sg))"

definition mark_toolarge :: "dkim \<Rightarrow> dkim" where
  "mark_toolarge dk = dk\<lparr>dkim_siglist := map (toolarge dk) (dkim_siglist dk)\<rparr>"

definition sig_good :: "siginfo \<Rightarrow> bool" where
  "sig_good sg \<longleftrightarrow> flag_set sg DKIM_SIGFLAG_PASSED \<and> sig_bh sg = DKIM_SIGBH_MATCH"

text \<open>"run 'em until we get one".\<close>

fun run_sigs :: "world \<Rightarrow> env \<Rightarrow> nat list \<Rightarrow> dkim \<Rightarrow> nat option \<times> dkim" where
  "run_sigs w e [] dk = (None, dk)"
| "run_sigs w e (j # js) dk =
    (if flag_set (dkim_siglist dk ! j) DKIM_SIGFLAG_IGNORE then run_sigs w e js dk
     else case dkim_sig_process w e dk j of (status, dk) \<Rightarrow>
       if status = DKIM_STAT_OK \<and> sig_good (dkim_siglist dk ! j) then (Some j, dk)
       else run_sigs w e js dk)"

text \<open>The signature the result is taken from.\<close>

definition choose_sig :: "world \<Rightarrow> env \<Rightarrow> dkim \<Rightarrow> nat option \<times> dkim" where
  "choose_sig w e dk =
    (case find (\<lambda>j. sig_good (dkim_siglist dk ! j) \<and> \<not> flag_set (dkim_siglist dk ! j) DKIM_SIGFLAG_IGNORE)
            [0 ..< dkim_sigcount dk] of
       Some j \<Rightarrow> (Some j, dk)
     | None \<Rightarrow>
         (case run_sigs w e [0 ..< dkim_sigcount dk] dk of
            (Some j, dk) \<Rightarrow> (Some j, dk)
          | (None, dk) \<Rightarrow> (first_enabled dk, dk)))"

definition final_result :: "siginfo \<Rightarrow> int" where
  "final_result sg =
    (if sig_error sg \<notin> {DKIM_SIGERROR_OK, DKIM_SIGERROR_UNKNOWN, DKIM_SIGERROR_KEYFAIL, DKIM_SIGERROR_BADSIG,
          DKIM_SIGERROR_KEYREVOKED, DKIM_SIGERROR_NOKEY} then DKIM_STAT_CANTVRFY
     else if sig_error sg = DKIM_SIGERROR_NOKEY then DKIM_STAT_NOKEY
     else if sig_error sg = DKIM_SIGERROR_KEYFAIL then DKIM_STAT_KEYFAIL
     else if sig_error sg = DKIM_SIGERROR_KEYREVOKED then DKIM_STAT_REVOKED
     else if \<not> flag_set sg DKIM_SIGFLAG_PASSED then DKIM_STAT_BADSIG
     else if sig_bh sg = DKIM_SIGBH_MISMATCH then DKIM_STAT_BADSIG
     else if sig_error sg = DKIM_SIGERROR_BADSIG then DKIM_STAT_BADSIG
     else DKIM_STAT_OK)"

text \<open>The status, whether TRUE is stored through \<open>testkey\<close>, and the handle.\<close>

definition dkim_eom_verify :: "world \<Rightarrow> env \<Rightarrow> dkim \<Rightarrow> int \<times> bool \<times> dkim" where
  "dkim_eom_verify w e dk =
    (if dkim_state dk \<ge> DKIM_STATE_EOM2 then (DKIM_STAT_INVALID, False, dk)
     else
    (let dk = (if dkim_state dk < DKIM_STATE_EOM1 then dk\<lparr>dkim_state := DKIM_STATE_EOM1\<rparr> else dk) in
     if dkim_chunkstate dk \<noteq> DKIM_CHUNKSTATE_INIT \<and> dkim_chunkstate dk \<noteq> DKIM_CHUNKSTATE_DONE
     then (DKIM_STAT_INVALID, False, dk)
     else
    (let dk = (snd (dkim_canon_closebody dk))\<lparr>dkim_bodydone := True\<rparr> in
     if dkim_sigcount dk = 0 then (case eom_unsigned e dk of (status, dk) \<Rightarrow> (status, False, dk))
     else
    (case callback (w_final w) (mark_toolarge dk) of (status, dk) \<Rightarrow>
     if status \<noteq> DKIM_CBSTAT_CONTINUE then (callback_status status, False, dk)
     else
    (case choose_sig w e (dk\<lparr>dkim_state := DKIM_STATE_EOM2\<rparr>) of
       (None, dk) \<Rightarrow> (DKIM_STAT_NOSIG, False, dk)
     | (Some j, dk) \<Rightarrow>
         (let sg = dkim_siglist dk ! j; ret = final_result sg in
          (ret, ret \<noteq> DKIM_STAT_CANTVRFY \<and> flag_set sg DKIM_SIGFLAG_TESTKEY, dk\<lparr>dkim_signature := Some j\<rparr>)))))))"

end
