(* ===== verification/Dkim_Policy.thy ===== *)
theory Dkim_Policy
  imports Dkim_Verify
begin

text \<open>
  The policy of the author's domain (ADSP, RFC 5617): the queries of \<open>dkim-policy.c\<close>, and of \<open>dkim.c\<close>
  \<open>dkim_get_policy\<close>, which takes the caller's callback or a query and parses the record, \<open>dkim_policy\<close>,
  which checks that the domain exists and then gets its policy, and \<open>dkim_policy_getreportinfo\<close>.

  The record \<open>pworld\<close> holds what comes from outside: the callback, a simulated reply queued by the
  test functions, the resolver and the text of the policy file. \<open>res_query\<close> gives \<open>h_errno\<close> or a length,
  and what \<open>ansbuf\<close> holds afterwards; the variant without the asynchronous resolver, unbound and the
  cache is modelled. A failed \<open>assert\<close> is \<open>None\<close>.

  The lemmas say what a published record and a nonexistent domain give, that a query that had to be
  put off ends as if it had not, and what several answers to one query are taken for.
\<close>

record pworld =
  pw_policy_lookup :: "(dkim \<Rightarrow> string \<Rightarrow> bool \<Rightarrow> int \<times> string \<times> nat) option"
  pw_test_reply :: "string \<Rightarrow> bool \<Rightarrow> (nat \<times> string) option"
  pw_res_query :: "nat \<Rightarrow> string \<Rightarrow> (nat + nat) \<times> string"
  pw_dn_skipname :: dn_scan
  pw_dn_expand :: dn_scan
  pw_policyfile :: "string option"

abbreviation (input) NOERROR :: nat where "NOERROR \<equiv> 0"
abbreviation (input) SERVFAIL :: nat where "SERVFAIL \<equiv> 2"
abbreviation (input) T_A :: nat where "T_A \<equiv> 1"
abbreviation (input) T_MX :: nat where "T_MX \<equiv> 15"
abbreviation (input) T_AAAA :: nat where "T_AAAA \<equiv> 28"
abbreviation (input) DKIM_DNSSEC_UNKNOWN :: "32 word" where "DKIM_DNSSEC_UNKNOWN \<equiv> - 1"
abbreviation (input) DKIM_POLICY_DEFAULT :: int where "DKIM_POLICY_DEFAULT \<equiv> DKIM_POLICY_UNKNOWN"

subsection \<open>The policy file\<close>

text \<open>What a line says of the name: a comment or the newline ends it, the name ends at white space.\<close>

definition policy_line :: "string \<Rightarrow> string \<Rightarrow> string option" where
  "policy_line query line =
    (let inbuf = takeWhile (\<lambda>c. c \<noteq> LF \<and> c \<noteq> CHR ''#'') (cstr line); n = length query in
     if strncaseeq inbuf query n \<and> n < length inbuf \<and> isascii (inbuf ! n) \<and> isspace (inbuf ! n)
     then Some (dropWhile (\<lambda>c. isascii c \<and> isspace c) (drop (n + 1) inbuf)) else None)"

text \<open>The value returned, \<open>*qstatus\<close> and the string in \<open>buf\<close>, of \<open>buflen\<close> bytes.\<close>

function policy_file_scan :: "string \<Rightarrow> nat \<Rightarrow> string \<Rightarrow> int \<times> nat \<times> string" where
  "policy_file_scan query buflen f =
    (if f = [] then (0, NXDOMAIN, [])
     else (case fgets (BUFRSZ - 1) f of (line, f') \<Rightarrow>
       (case policy_line query line of
          Some p \<Rightarrow> (1, NOERROR, strlcpy p buflen)
        | None \<Rightarrow> policy_file_scan query buflen f')))"
  by pat_completeness auto

termination policy_file_scan
  by (relation "measure (\<lambda>(query, buflen, f). length f)") (auto dest: fgets_shorter [where b = 1024, simplified])

declare policy_file_scan.simps [simp del]

definition dkim_get_policy_file :: "pworld \<Rightarrow> string \<Rightarrow> nat \<Rightarrow> int \<times> nat \<times> string" where
  "dkim_get_policy_file w query buflen =
    (case pw_policyfile w of None \<Rightarrow> (- 1, NOERROR, []) | Some f \<Rightarrow> policy_file_scan query buflen f)"

subsection \<open>The DNS queries\<close>

text \<open>
  Existence: the response codes in the three buffers, whatever \<open>res_query\<close> returned; a name exists if
  one of the queries has no error.
\<close>

definition dkim_get_policy_dns_excheck :: "pworld \<Rightarrow> string \<Rightarrow> int \<times> nat" where
  "dkim_get_policy_dns_excheck w query =
    (let rcode = (\<lambda>t. rd8 (snd (pw_res_query w t query)) 3 mod 16) in
     if rcode T_A = NOERROR then (1, NOERROR)
     else if rcode T_AAAA = NOERROR then (1, NOERROR)
     else if rcode T_MX = NOERROR then (1, NOERROR)
     else (0, rcode T_MX))"

text \<open>
  The answers up to the first TXT record: a value to return, or the pointer where the loop stopped and
  whether \<open>ancount\<close> went below 0. A CNAME is skipped by expanding a name at the pointer to its TTL.
\<close>

fun policy_answers :: "dn_scan \<Rightarrow> string \<Rightarrow> nat \<Rightarrow> nat \<Rightarrow> nat \<Rightarrow> int + nat \<times> bool" where
  "policy_answers dn_expand buf eom 0 cp = Inr (cp, True)"
| "policy_answers dn_expand buf eom (Suc ancount) cp =
    (if \<not> cp < eom then Inr (cp, False)
     else case dn_expand buf eom cp of
       None \<Rightarrow> Inl (- 1)
     | Some n \<Rightarrow>
         (let cp = cp + n in
          if cp + 2 + 2 > eom then Inl (- 1)
          else let typ = rd16 buf cp; cp = cp + 4 in
            if typ = T_CNAME then
              policy_answers dn_expand buf eom ancount (case dn_expand buf eom cp of None \<Rightarrow> cp - 1 | Some n \<Rightarrow> cp + n)
            else if typ \<noteq> T_TXT then Inl (- 1)
            else if ancount > 0 then Inl DKIM_STAT_MULTIDNSREPLY
            else Inr (cp, False)))"

definition policy_reply :: "pworld \<Rightarrow> nat \<Rightarrow> nat \<Rightarrow> string \<Rightarrow> int \<times> nat \<times> string" where
  "policy_reply w buflen anslen ansbuf =
    (case dns_questions (pw_dn_skipname w) ansbuf anslen (rd16 ansbuf 4) HFIXEDSZ 65535 65535 of
       Inl r \<Rightarrow> (- 1, NOERROR, [])
     | Inr (cp, typ, cls) \<Rightarrow>
         if typ \<noteq> T_TXT \<or> cls \<noteq> C_IN then (- 1, NOERROR, [])
         else if dkim_check_dns_reply (pw_dn_skipname w) (pw_dn_expand w) ansbuf anslen C_IN T_TXT = 1
         then (- 1, NOERROR, [])
         else let rcode = rd8 ansbuf 3 mod 16 in
         if rcode \<noteq> NOERROR then (0, rcode, [])
         else if rd16 ansbuf 6 = 0 then (0, rcode, [])
         else case policy_answers (pw_dn_expand w) ansbuf anslen (rd16 ansbuf 6) cp of
             Inl status \<Rightarrow> (status, rcode, [])
           | Inr (cp, below) \<Rightarrow>
               if below then (- 1, rcode, [])
               else let cp = cp + 4 in
               if cp + 2 > anslen then (- 1, rcode, [])
               else let n = rd16 ansbuf cp; cp = cp + 2 in
                 if cp + n > anslen \<or> n > BUFRSZ then (- 1, rcode, [])
                 else (1, rcode, strlcpy (cstr (txt_payload ansbuf cp (int n) BUFRSZ [])) buflen))"

definition dkim_get_policy_dns :: "pworld \<Rightarrow> string \<Rightarrow> bool \<Rightarrow> nat \<Rightarrow> int \<times> nat \<times> string" where
  "dkim_get_policy_dns w query excheck buflen =
    (case pw_test_reply w query excheck of
       Some (anslen, ansbuf) \<Rightarrow> policy_reply w buflen anslen ansbuf
     | None \<Rightarrow>
         if excheck then (case dkim_get_policy_dns_excheck w query of (status, qstatus) \<Rightarrow> (status, qstatus, []))
         else case pw_res_query w T_TXT query of
             (Inl h_errno, ansbuf) \<Rightarrow>
               (0, if h_errno = HOST_NOT_FOUND then NXDOMAIN else if h_errno = NO_DATA then NOERROR else SERVFAIL, [])
           | (Inr anslen, ansbuf) \<Rightarrow> policy_reply w buflen anslen ansbuf)"

subsection \<open>\<open>dkim_get_policy\<close>\<close>

text \<open>The variables that \<open>dkim_get_policy\<close> stores through its pointers.\<close>

record policy_vars =
  pv_qstatus :: nat
  pv_policy :: int
  pv_pflags :: "32 word"

text \<open>\<open>Inl\<close> is a return; otherwise \<open>status\<close>, \<open>qstat\<close> and \<open>buf\<close>. An unknown query method fails an \<open>assert\<close>.\<close>

definition policy_lookup :: "pworld \<Rightarrow> dkim \<Rightarrow> string \<Rightarrow> bool \<Rightarrow> (int + int \<times> nat \<times> string) option" where
  "policy_lookup w dk query excheck =
    (case pw_policy_lookup w of
       Some f \<Rightarrow> (case f dk query excheck of (cbstatus, buf, qstat) \<Rightarrow>
         Some (if cbstatus = DKIM_CBSTAT_CONTINUE then Inr (1, qstat, strlcpy buf (BUFRSZ + 1))
               else if cbstatus = DKIM_CBSTAT_REJECT then Inl DKIM_STAT_CBREJECT
               else if cbstatus = DKIM_CBSTAT_TRYAGAIN then Inl DKIM_STAT_CBTRYAGAIN
               else if cbstatus = DKIM_CBSTAT_NOTFOUND then Inr (0, qstat, strlcpy buf (BUFRSZ + 1))
               else if cbstatus = DKIM_CBSTAT_ERROR then Inl DKIM_STAT_CBERROR
               else Inl DKIM_STAT_CBINVALID))
     | None \<Rightarrow>
         (let qtype = (case dkim_signature dk of None \<Rightarrow> DKIM_QUERY_DNS | Some j \<Rightarrow> sig_query (dkim_siglist dk ! j)) in
          if qtype = DKIM_QUERY_DNS then Some (Inr (dkim_get_policy_dns w query excheck (BUFRSZ + 1)))
          else if qtype = DKIM_QUERY_FILE then Some (Inr (dkim_get_policy_file w query (BUFRSZ + 1)))
          else None))"

text \<open>The policy and the flags that a set publishes.\<close>

definition policy_code :: "dkim_set \<Rightarrow> int" where
  "policy_code st = (case dkim_param_get st ''dkim'' of None \<Rightarrow> DKIM_POLICY_DEFAULT | Some p \<Rightarrow> dkim_name_to_code prv_policies p)"

definition policy_flags :: "dkim_set \<Rightarrow> 32 word" where
  "policy_flags st =
    (case dkim_param_get st ''t'' of None \<Rightarrow> 0
     | Some p \<Rightarrow> fold (\<lambda>t lpflags. let flag = dkim_name_to_code prv_policyflags t in
           if flag \<noteq> - 1 then or lpflags (word_of_int flag) else lpflags)
         (strtok CHR '':'' (strlcpy p (BUFRSZ + 1))) 0)"

definition dkim_get_policy :: "pworld \<Rightarrow> env \<Rightarrow> dkim \<Rightarrow> string \<Rightarrow> bool \<Rightarrow> policy_vars \<Rightarrow> (int \<times> policy_vars \<times> dkim) option" where
  "dkim_get_policy w e dk query excheck pv =
    (case policy_lookup w dk query excheck of
       None \<Rightarrow> None
     | Some (Inl st) \<Rightarrow> Some (st, pv, dk)
     | Some (Inr (status, qstat, buf)) \<Rightarrow>
         if status = - 1 then Some (DKIM_STAT_CANTVRFY, pv, dk)
         else let pv = pv\<lparr>pv_qstatus := qstat\<rparr> in
         if \<not> excheck \<and> qstat = NOERROR \<and> status = 1 then
           (case dkim_process_set e dk DKIM_SETTYPE_POLICY buf (length buf) None False of (pstatus, dk) \<Rightarrow>
              if pstatus \<noteq> DKIM_STAT_OK then Some (pstatus, pv, dk)
              else let st = dkim_sets dk ! the (dkim_set_first dk DKIM_SETTYPE_POLICY) in
                Some (DKIM_STAT_OK, pv\<lparr>pv_policy := policy_code st, pv_pflags := policy_flags st\<rparr>, dk))
         else Some (DKIM_STAT_OK, pv, dk))"

subsection \<open>\<open>dkim_policy\<close>\<close>

text \<open>\<open>struct dkim_pstate\<close>, in which a query that the callback puts off is kept.\<close>

record pstate =
  ps_pflags :: "32 word"
  ps_qstatus :: nat
  ps_state :: nat
  ps_policy :: int

definition ps_save :: "int \<Rightarrow> policy_vars \<Rightarrow> pstate \<Rightarrow> pstate" where
  "ps_save status pv ps =
    (if status = DKIM_STAT_CBTRYAGAIN then ps\<lparr>ps_qstatus := pv_qstatus pv, ps_policy := pv_policy pv, ps_pflags := pv_pflags pv\<rparr> else ps)"

text \<open>The status, \<open>*pcode\<close> if it is stored, the state and the handle. The flags are not set without a state.\<close>

type_synonym policy_result = "int \<times> int option \<times> pstate option \<times> dkim"

definition policy_done :: "policy_vars \<Rightarrow> pstate option \<Rightarrow> dkim \<Rightarrow> policy_result" where
  "policy_done pv ps dk =
    (DKIM_STAT_OK, Some (pv_policy pv), ps, if pv_qstatus pv = NOERROR then dk\<lparr>dkim_presult := DKIM_PRESULT_AUTHOR\<rparr> else dk)"

definition policy_query :: "dkim \<Rightarrow> string" where
  "policy_query dk = DKIM_DNSPOLICYNAME @ ''.'' @ DKIM_DNSKEYNAME @ ''.'' @ the (dkim_domain dk)"

definition policy_second :: "pworld \<Rightarrow> env \<Rightarrow> policy_vars \<Rightarrow> pstate option \<Rightarrow> dkim \<Rightarrow> policy_result option" where
  "policy_second w e pv ps dk =
    (if pv_qstatus pv = NXDOMAIN
     then Some (DKIM_STAT_OK, Some (pv_policy pv), ps, dk\<lparr>dkim_presult := DKIM_PRESULT_NXDOMAIN\<rparr>)
     else if ps = None \<or> ps_state (the ps) < 2 then
       (if length (policy_query dk) \<ge> DKIM_MAXHOSTNAMELEN + 1 then Some (DKIM_STAT_NORESOURCE, None, ps, dk)
        else map_option (\<lambda>(status, pv, dk).
            if status \<noteq> DKIM_STAT_OK then (status, None, map_option (ps_save status pv) ps, dk)
            else policy_done pv (map_option (\<lambda>p. p\<lparr>ps_state := 2\<rparr>) ps) dk)
          (dkim_get_policy w e dk (policy_query dk) False pv))
     else Some (policy_done pv ps dk))"

definition dkim_policy :: "pworld \<Rightarrow> env \<Rightarrow> dkim \<Rightarrow> pstate option \<Rightarrow> policy_result option" where
  "dkim_policy w e dk ps =
    (if dkim_mode dk = DKIM_MODE_SIGN then Some (DKIM_STAT_INVALID, None, ps, dk)
     else if dkim_domain dk = None then Some (DKIM_STAT_SYNTAX, None, ps, dk)
     else
    (let dk = dk\<lparr>dkim_presult := DKIM_PRESULT_NONE\<rparr>;
         pv = (case ps of None \<Rightarrow> \<lparr>pv_qstatus = NOERROR, pv_policy = DKIM_POLICY_NONE, pv_pflags = 0\<rparr>
               | Some p \<Rightarrow> \<lparr>pv_qstatus = ps_qstatus p, pv_policy = ps_policy p, pv_pflags = ps_pflags p\<rparr>) in
     if ps = None \<or> ps_state (the ps) < 1 then
       (case dkim_get_policy w e dk (the (dkim_domain dk)) True pv of
          None \<Rightarrow> None
        | Some (status, pv, dk) \<Rightarrow>
            if status \<noteq> DKIM_STAT_OK then Some (status, None, map_option (ps_save status pv) ps, dk)
            else policy_second w e pv (map_option (\<lambda>p. p\<lparr>ps_state := 1\<rparr>) ps) dk)
     else policy_second w e pv ps dk))"

definition dkim_policy_getdnssec :: "dkim \<Rightarrow> 32 word" where
  "dkim_policy_getdnssec dk = DKIM_DNSSEC_UNKNOWN"

subsection \<open>Reporting\<close>

text \<open>The buffers a caller gives, with their sizes; \<open>None\<close> is NULL.\<close>

record report =
  rp_addr :: "(string \<times> nat) option"
  rp_fmt :: "(string \<times> nat) option"
  rp_opts :: "(string \<times> nat) option"
  rp_smtp :: "(string \<times> nat) option"
  rp_interval :: "32 word option"

definition report_decoded :: "string \<Rightarrow> string \<times> nat \<Rightarrow> string \<times> nat" where
  "report_decoded p b = (cstr (qp_written (dkim_qp_decode p (snd b))), snd b)"

definition report_fill :: "dkim_set \<Rightarrow> report \<Rightarrow> report" where
  "report_fill st rp =
    (let get = (\<lambda>name f b. case dkim_param_get st name of None \<Rightarrow> b | Some p \<Rightarrow> map_option (f p) b) in
     \<lparr>rp_addr = get ''r'' (\<lambda>p b. case report_decoded p b of (s, n) \<Rightarrow> (before s CHR ''@'', n)) (rp_addr rp),
      rp_fmt = get ''rf'' (\<lambda>p b. (strlcpy p (snd b), snd b)) (rp_fmt rp),
      rp_opts = get ''ro'' (\<lambda>p b. (strlcpy p (snd b), snd b)) (rp_opts rp),
      rp_smtp = get ''rs'' report_decoded (rp_smtp rp),
      rp_interval = (case dkim_param_get st ''ri'' of None \<Rightarrow> rp_interval rp
        | Some p \<Rightarrow> (case dkim_strtoul p of (out, q, errno) \<Rightarrow>
            if q = [] then map_option (\<lambda>i. ucast out) (rp_interval rp) else rp_interval rp))\<rparr>)"

definition dkim_policy_getreportinfo :: "dkim \<Rightarrow> report \<Rightarrow> int \<times> report" where
  "dkim_policy_getreportinfo dk rp =
    (if dkim_state dk \<noteq> DKIM_STATE_EOM2 \<or> dkim_mode dk \<noteq> DKIM_MODE_VERIFY then (DKIM_STAT_INVALID, rp)
     else case dkim_set_first dk DKIM_SETTYPE_POLICY of
       None \<Rightarrow> (DKIM_STAT_CANTVRFY, rp)
     | Some k \<Rightarrow> (DKIM_STAT_OK, report_fill (dkim_sets dk ! k) rp))"

subsection \<open>What a query gives\<close>

lemma set_first_same: "dkim_set_first dk type = dkim_set_first dk' type" if "dkim_sets dk = dkim_sets dk'"
  by (simp add: dkim_set_first_def that)

text \<open>The record that counts is the first policy set of the handle, not the one just parsed.\<close>

lemma set_search_append: "set_search i sts type = Some k \<Longrightarrow> set_search i (sts @ ts) type = Some k"
  by (induction i sts type rule: set_search.induct) auto

lemma set_search_range: "set_search i sts type = Some k \<Longrightarrow> i \<le> k \<and> k < i + length sts"
  by (induction i sts type rule: set_search.induct) (auto split: if_splits)

lemma set_first_kept:
  assumes "dkim_set_first dk type = Some k" "dkim_process_set e dk type' s n u sx = (st, dk')"
  shows "dkim_set_first dk' type = Some k \<and> dkim_sets dk' ! k = dkim_sets dk ! k"
proof -
  obtain sts where "dk' = dk\<lparr>dkim_sets := dkim_sets dk @ sts\<rparr>" using process_set_frame [OF assms(2)] by blast
  then show ?thesis
    using assms(1) set_search_append [of 0 "dkim_sets dk" type k sts] set_search_range [of 0 "dkim_sets dk" type k]
    by (simp add: dkim_set_first_def nth_append)
qed

lemma get_policy_stale:
  assumes "dkim_set_first dk DKIM_SETTYPE_POLICY = Some k" "policy_lookup w dk query False = Some (Inr (1, NOERROR, buf))"
    "dkim_get_policy w e dk query False pv = Some (DKIM_STAT_OK, pv', dk')"
  shows "pv_policy pv' = policy_code (dkim_sets dk ! k) \<and> pv_pflags pv' = policy_flags (dkim_sets dk ! k)"
proof -
  obtain st dk1 where p: "dkim_process_set e dk DKIM_SETTYPE_POLICY buf (length buf) None False = (st, dk1)" by force
  then show ?thesis using assms set_first_kept [OF assms(1) p] by (auto simp: dkim_get_policy_def Let_def split: if_splits)
qed

text \<open>The handle that a query leaves.\<close>

lemma get_policy_frame:
  assumes "dkim_get_policy w e dk query x pv = Some (st, pv', dk')"
  obtains sts where "dk' = dk\<lparr>dkim_sets := dkim_sets dk @ sts\<rparr>"
proof -
  have "\<exists>sts. dk' = dk\<lparr>dkim_sets := dkim_sets dk @ sts\<rparr>"
  proof (cases "dk' = dk")
    case True
    then have "dk' = dk\<lparr>dkim_sets := dkim_sets dk @ []\<rparr>" by simp
    then show ?thesis by blast
  next
    case False
    then obtain buf ps where "dkim_process_set e dk DKIM_SETTYPE_POLICY buf (length buf) None False = (ps, dk')"
      using assms by (auto simp: dkim_get_policy_def Let_def split: option.splits sum.splits if_splits prod.splits)
    then show ?thesis by (rule process_set_frame)
  qed
  then show thesis using that by blast
qed

text \<open>An existence query stores the status only.\<close>

lemma get_policy_exists:
  "dkim_get_policy w e dk query True pv = Some (st, pv', dk') \<Longrightarrow>
   dk' = dk \<and> pv' = pv\<lparr>pv_qstatus := pv_qstatus pv'\<rparr> \<and> (st \<noteq> DKIM_STAT_OK \<longrightarrow> pv' = pv)"
  by (auto simp: dkim_get_policy_def Let_def split: option.splits sum.splits if_splits prod.splits)

subsection \<open>A record and its meaning\<close>

definition unset :: "dkim \<Rightarrow> dkim" where
  "unset dk = dk\<lparr>dkim_presult := DKIM_PRESULT_NONE\<rparr>"

lemma unset_fields [simp]:
  "dkim_domain (unset dk) = dkim_domain dk" "dkim_mode (unset dk) = dkim_mode dk" "dkim_sets (unset dk) = dkim_sets dk"
  "unset (unset dk) = unset dk" "policy_query (unset dk) = policy_query dk" "dkim_presult (unset dk) = DKIM_PRESULT_NONE"
  by (simp_all add: unset_def policy_query_def)

lemma set_search_last: "set_search i sts type = None \<Longrightarrow> set_type st = type \<Longrightarrow> set_search i (sts @ [st]) type = Some (i + length sts)"
  by (induction i sts type rule: set_search.induct) (auto split: if_splits)

lemma get_policy_record:
  assumes "policy_lookup w dk query False = Some (Inr (1, NOERROR, tags_text ts))" "dkim_set_first dk DKIM_SETTYPE_POLICY = None"
    and tags: "\<forall>t\<in>set ts. tag_ok t" "ts \<noteq> []" "last_ok (last ts)" "distinct (folded_names (map tag_pair ts))"
      "set_complete DKIM_SETTYPE_POLICY (map tag_pair ts)" and mem: "\<forall>n. env_malloc e n"
  obtains st fl where "dkim_get_policy w e dk query False pv = Some (DKIM_STAT_OK,
      pv\<lparr>pv_qstatus := NOERROR, pv_policy := dkim_name_to_code prv_policies (the (tag_lookup DKIM_SETTYPE_POLICY (map tag_pair ts) ''dkim'')),
         pv_pflags := fl\<rparr>, dk\<lparr>dkim_sets := dkim_sets dk @ [st]\<rparr>)"
proof -
  obtain st where st: "dkim_process_set e dk DKIM_SETTYPE_POLICY (tags_text ts) (length (tags_text ts)) None False
      = (DKIM_STAT_OK, dk\<lparr>dkim_sets := dkim_sets dk @ [st]\<rparr>)" "set_type st = DKIM_SETTYPE_POLICY"
    "\<forall>n. dkim_param_get st n = tag_lookup DKIM_SETTYPE_POLICY (map tag_pair ts) n"
    using process_set_parses [OF tags(1-4) _ tags(5) mem order_refl, of dk None] by auto
  have "dkim_set_first (dk\<lparr>dkim_sets := dkim_sets dk @ [st]\<rparr>) DKIM_SETTYPE_POLICY = Some (length (dkim_sets dk))"
    using set_search_last [of 0 "dkim_sets dk" DKIM_SETTYPE_POLICY st] assms(2) st(2) by (simp add: dkim_set_first_def)
  moreover have "map_of (map tag_pair ts) ''dkim'' \<noteq> None" using tags(5) by (simp add: set_complete_def)
  then have "tag_lookup DKIM_SETTYPE_POLICY (map tag_pair ts) ''dkim'' \<noteq> None"
    by (auto simp: tag_lookup_def lookup_over_def split: option.splits)
  then have "policy_code st = dkim_name_to_code prv_policies (the (tag_lookup DKIM_SETTYPE_POLICY (map tag_pair ts) ''dkim''))"
    using st(3) by (auto simp: policy_code_def)
  ultimately have "dkim_get_policy w e dk query False pv = Some (DKIM_STAT_OK,
      pv\<lparr>pv_qstatus := NOERROR, pv_policy := dkim_name_to_code prv_policies (the (tag_lookup DKIM_SETTYPE_POLICY (map tag_pair ts) ''dkim'')),
         pv_pflags := policy_flags st\<rparr>, dk\<lparr>dkim_sets := dkim_sets dk @ [st]\<rparr>)"
    using st(1) assms(1) by (simp add: dkim_get_policy_def Let_def)
  then show thesis by (rule that)
qed

text \<open>The first query, whose answer is not that the domain does not exist, and then the second.\<close>

lemma policy_exists:
  assumes "dkim_mode dk \<noteq> DKIM_MODE_SIGN" "dkim_domain dk = Some d"
    "policy_lookup w (unset dk) d True = Some (Inr (status, qstat, buf))" "status \<noteq> - 1" "qstat \<noteq> NXDOMAIN"
    "length (policy_query dk) \<le> DKIM_MAXHOSTNAMELEN"
  shows "dkim_policy w e dk None = map_option (\<lambda>(status, pv, dk). if status \<noteq> DKIM_STAT_OK then (status, None, None, dk) else policy_done pv None dk)
    (dkim_get_policy w e (unset dk) (policy_query dk) False \<lparr>pv_qstatus = qstat, pv_policy = DKIM_POLICY_NONE, pv_pflags = 0\<rparr>)"
proof -
  let ?pv = "\<lparr>pv_qstatus = qstat, pv_policy = DKIM_POLICY_NONE, pv_pflags = 0\<rparr>"
  have "dkim_get_policy w e (unset dk) d True \<lparr>pv_qstatus = NOERROR, pv_policy = DKIM_POLICY_NONE, pv_pflags = 0\<rparr> = Some (DKIM_STAT_OK, ?pv, unset dk)"
    using assms(3,4) by (simp add: dkim_get_policy_def)
  then have "dkim_policy w e dk None = policy_second w e ?pv None (unset dk)"
    using assms(1,2) by (simp add: dkim_policy_def unset_def)
  then show ?thesis
    using assms(5,6) by (cases "dkim_get_policy w e (unset dk) (policy_query dk) False ?pv") (auto simp: policy_second_def)
qed

text \<open>
  C36: the policy of a domain that publishes one. When the domain exists and the text record of its policy
  name is a printed tag list that holds "dkim", \<open>dkim_policy\<close> answers OK with the policy of that name,
  sets the result to "author domain policy found" and leaves the handle as it was but for one more
  tag set; the query for existence does not matter otherwise.
\<close>
theorem policy_record:
  assumes mode: "dkim_mode dk \<noteq> DKIM_MODE_SIGN" "dkim_domain dk = Some d" "length (policy_query dk) \<le> DKIM_MAXHOSTNAMELEN"
    and found: "policy_lookup w (unset dk) d True = Some (Inr (status, qstat, buf))" "status \<noteq> - 1" "qstat \<noteq> NXDOMAIN"
    and txt_record: "policy_lookup w (unset dk) (policy_query dk) False = Some (Inr (1, NOERROR, tags_text ts))"
      "dkim_set_first dk DKIM_SETTYPE_POLICY = None"
    and tags: "\<forall>t\<in>set ts. tag_ok t" "ts \<noteq> []" "last_ok (last ts)" "distinct (folded_names (map tag_pair ts))"
      "set_complete DKIM_SETTYPE_POLICY (map tag_pair ts)" and mem: "\<forall>n. env_malloc e n"
  shows "\<exists>st. dkim_policy w e dk None = Some (DKIM_STAT_OK,
      Some (dkim_name_to_code prv_policies (the (tag_lookup DKIM_SETTYPE_POLICY (map tag_pair ts) ''dkim''))), None,
      dk\<lparr>dkim_presult := DKIM_PRESULT_AUTHOR, dkim_sets := dkim_sets dk @ [st]\<rparr>)"
proof -
  have none: "dkim_set_first (unset dk) DKIM_SETTYPE_POLICY = None" using txt_record(2) by (simp add: dkim_set_first_def)
  let ?pv = "\<lparr>pv_qstatus = qstat, pv_policy = DKIM_POLICY_NONE, pv_pflags = 0\<rparr>"
  let ?code = "dkim_name_to_code prv_policies (the (tag_lookup DKIM_SETTYPE_POLICY (map tag_pair ts) ''dkim''))"
  obtain st fl where g: "dkim_get_policy w e (unset dk) (policy_query dk) False ?pv =
      Some (DKIM_STAT_OK, ?pv\<lparr>pv_qstatus := NOERROR, pv_policy := ?code, pv_pflags := fl\<rparr>, (unset dk)\<lparr>dkim_sets := dkim_sets (unset dk) @ [st]\<rparr>)"
    by (rule get_policy_record [OF txt_record(1) none tags mem])
  have "dkim_policy w e dk None = Some (policy_done (?pv\<lparr>pv_qstatus := NOERROR, pv_policy := ?code, pv_pflags := fl\<rparr>) None
      ((unset dk)\<lparr>dkim_sets := dkim_sets (unset dk) @ [st]\<rparr>))"
    unfolding policy_exists [OF mode(1,2) found mode(3)] g by simp
  then show ?thesis by (intro exI [of _ st]) (simp add: policy_done_def, simp add: unset_def)
qed


subsection \<open>A query that is put off\<close>

lemma policy_lookup_error: "policy_lookup w dk q x = Some (Inl st) \<Longrightarrow> st \<noteq> DKIM_STAT_OK"
  by (auto simp: policy_lookup_def Let_def split: option.splits prod.splits if_splits)

lemma policy_second_unset: "ps_state p = 1 \<Longrightarrow> dkim_mode dk \<noteq> DKIM_MODE_SIGN \<Longrightarrow> dkim_domain dk \<noteq> None \<Longrightarrow>
   dkim_policy w e dk (Some p) = policy_second w e \<lparr>pv_qstatus = ps_qstatus p, pv_policy = ps_policy p, pv_pflags = ps_pflags p\<rparr> (Some p) (unset dk)"
  by (auto simp: dkim_policy_def unset_def)

text \<open>What a caller sees of an answer, besides the state it keeps.\<close>

definition policy_seen :: "policy_result option \<Rightarrow> (int \<times> int option \<times> dkim) option" where
  "policy_seen r = map_option (\<lambda>(status, pcode, ps, dk). (status, pcode, dk)) r"

lemma policy_second_seen:
  "ps_state p < 2 \<Longrightarrow> ps_state q < 2 \<Longrightarrow>
   policy_seen (policy_second w e pv (Some p) dk) = policy_seen (policy_second w e pv (Some q) dk)"
  by (cases "dkim_get_policy w e dk (policy_query dk) False pv")
    (auto simp: policy_second_def policy_seen_def policy_done_def)

text \<open>
  C37: a query that the callback puts off is resumed. If \<open>dkim_policy\<close> answers "try again" because the
  callback does so for either query, the next call with the state it kept and the handle it left
  is seen to end as a first call would that asks the later callback from the start, provided the answer on
  the existence of the domain, if there was one, has not changed.
\<close>
theorem policy_resume:
  assumes first: "dkim_policy w e dk (Some p) = Some (DKIM_STAT_CBTRYAGAIN, pc, Some p1, dk1)" "ps_state p = 0"
    and domain: "dkim_domain dk = Some d"
    and off: "policy_lookup w (unset dk) d True = Some (Inl DKIM_STAT_CBTRYAGAIN) \<or>
      policy_lookup w (unset dk) (policy_query dk) False = Some (Inl DKIM_STAT_CBTRYAGAIN) \<and>
      policy_lookup w' (unset dk) d True = policy_lookup w (unset dk) d True"
  shows "policy_seen (dkim_policy w' e dk1 (Some p1)) = policy_seen (dkim_policy w' e dk (Some p))"
proof -
  let ?pv = "\<lparr>pv_qstatus = ps_qstatus p, pv_policy = ps_policy p, pv_pflags = ps_pflags p\<rparr>"
  have mode: "dkim_mode dk \<noteq> DKIM_MODE_SIGN" using first(1) by (auto simp: dkim_policy_def split: if_splits)
  have start: "dkim_policy v e dk (Some p) =
      (case dkim_get_policy v e (unset dk) d True ?pv of None \<Rightarrow> None
       | Some (status, pv, dk) \<Rightarrow> if status \<noteq> DKIM_STAT_OK then Some (status, None, Some (ps_save status pv p), dk)
           else policy_second v e pv (Some (p\<lparr>ps_state := 1\<rparr>)) dk)" for v
    using mode domain first(2)
    by (cases "dkim_get_policy v e (unset dk) d True ?pv") (auto simp: dkim_policy_def unset_def [symmetric] split: prod.split)
  have same: "dkim_policy w' e (unset dk) (Some p) = dkim_policy w' e dk (Some p)"
    using mode domain by (simp add: dkim_policy_def unset_def [symmetric])
  show ?thesis
  proof (cases "\<exists>st. policy_lookup w (unset dk) d True = Some (Inl st)")
    case True
    then obtain st where st: "policy_lookup w (unset dk) d True = Some (Inl st)" "st \<noteq> DKIM_STAT_OK" using policy_lookup_error by blast
    then have "dk1 = unset dk \<and> p1 = p" using first(1) unfolding start by (auto simp: dkim_get_policy_def ps_save_def)
    then show ?thesis using same by simp
  next
    case False
    then have off: "policy_lookup w (unset dk) (policy_query dk) False = Some (Inl DKIM_STAT_CBTRYAGAIN)"
      "policy_lookup w' (unset dk) d True = policy_lookup w (unset dk) d True" using off by auto
    obtain a where a: "policy_lookup w (unset dk) d True = Some a"
      using first(1) unfolding start by (cases "policy_lookup w (unset dk) d True") (auto simp: dkim_get_policy_def)
    then obtain st q b where ex: "policy_lookup w (unset dk) d True = Some (Inr (st, q, b))"
      using False by (cases a) auto
    have g: "dkim_get_policy v e (unset dk) d True ?pv = Some (if st = - 1 then (DKIM_STAT_CANTVRFY, ?pv, unset dk) else (DKIM_STAT_OK, ?pv\<lparr>pv_qstatus := q\<rparr>, unset dk))"
      if "policy_lookup v (unset dk) d True = Some (Inr (st, q, b))" for v
      using that by (simp add: dkim_get_policy_def)
    let ?pv1 = "?pv\<lparr>pv_qstatus := q\<rparr>" and ?p1 = "p\<lparr>ps_state := 1\<rparr>"
    have st: "st \<noteq> - 1" using first(1) unfolding start g [OF ex] by auto
    have sec: "policy_second w e ?pv1 (Some ?p1) (unset dk) = Some (DKIM_STAT_CBTRYAGAIN, pc, Some p1, dk1)"
      using first(1) st unfolding start g [OF ex] by simp
    then have "q \<noteq> NXDOMAIN \<and> \<not> length (policy_query dk) \<ge> DKIM_MAXHOSTNAMELEN + 1"
      by (auto simp: policy_second_def split: if_splits)
    then have p1: "dk1 = unset dk" "p1 = ?p1\<lparr>ps_qstatus := q\<rparr>"
      using sec off(1) by (auto simp: policy_second_def dkim_get_policy_def ps_save_def)
    have "policy_seen (dkim_policy w' e dk1 (Some p1)) = policy_seen (policy_second w' e ?pv1 (Some p1) (unset dk))"
      unfolding p1 using policy_second_unset [of "?p1\<lparr>ps_qstatus := q\<rparr>" "unset dk" w' e] mode domain by simp
    also have "\<dots> = policy_seen (policy_second w' e ?pv1 (Some ?p1) (unset dk))"
      by (rule policy_second_seen) (simp_all add: p1)
    also have "\<dots> = policy_seen (dkim_policy w' e dk (Some p))"
      unfolding start g [OF trans [OF off(2) ex]] using st by simp
    finally show ?thesis .
  qed
qed

text \<open>A state that is used again after the answer: neither query is made, and what the record said is lost.\<close>

lemma policy_again:
  assumes "dkim_mode dk \<noteq> DKIM_MODE_SIGN" "dkim_domain dk \<noteq> None" "ps_state p = 2" "ps_qstatus p = NOERROR"
  shows "dkim_policy w e dk (Some p) = Some (DKIM_STAT_OK, Some (ps_policy p), Some p, dk\<lparr>dkim_presult := DKIM_PRESULT_AUTHOR\<rparr>)"
  using assms by (simp add: dkim_policy_def policy_second_def policy_done_def)

subsection \<open>Runs\<close>

definition pol_dk :: dkim where
  "pol_dk = (dkim_zero lib0)\<lparr>dkim_mode := DKIM_MODE_VERIFY, dkim_domain := Some ''x.org''\<rparr>"

definition pol_world :: "int \<Rightarrow> pworld" where
  "pol_world st = \<lparr>pw_policy_lookup = Some (\<lambda>dk q x. if x then (DKIM_CBSTAT_CONTINUE, [], NOERROR) else (st, ''dkim = all'', NOERROR)),
     pw_test_reply = (\<lambda>q x. None), pw_res_query = (\<lambda>t q. (Inl 0, [])), pw_dn_skipname = (\<lambda>b e p. None), pw_dn_expand = (\<lambda>b e p. None),
     pw_policyfile = None\<rparr>"

lemma policy_record_witness:
  "\<exists>st. dkim_policy (pol_world DKIM_CBSTAT_CONTINUE) env0 pol_dk None =
     Some (DKIM_STAT_OK, Some DKIM_POLICY_ALL, None, pol_dk\<lparr>dkim_presult := DKIM_PRESULT_AUTHOR, dkim_sets := [st]\<rparr>)"
proof -
  let ?w = "pol_world DKIM_CBSTAT_CONTINUE" and ?ts = "[Raw_Tag [] ''dkim'' '' '' '' all'']"
  have tx: "tags_text ?ts = ''dkim = all''" by (simp add: tag_text_def)
  have look: "policy_lookup ?w (unset pol_dk) ''x.org'' True = Some (Inr (1, 0, []))"
    "policy_lookup ?w (unset pol_dk) (policy_query pol_dk) False = Some (Inr (1, NOERROR, tags_text ?ts))"
    unfolding tx by (simp_all add: policy_lookup_def pol_world_def strlcpy_def)
  have pair: "map tag_pair ?ts = [(''dkim'', ''all'')]" by (simp add: tag_value_def dkim_collapse_def cctype)
  have code: "dkim_name_to_code prv_policies (the (tag_lookup DKIM_SETTYPE_POLICY (map tag_pair ?ts) ''dkim'')) = DKIM_POLICY_ALL"
    unfolding pair by (simp add: tag_lookup_def lookup_over_def) code_simp
  have ok: "\<forall>t\<in>set ?ts. tag_ok t" by (simp add: tag_ok_def text_char_def name_char_def cctype)
  have rest: "dkim_mode pol_dk \<noteq> DKIM_MODE_SIGN" "dkim_domain pol_dk = Some ''x.org''" "length (policy_query pol_dk) \<le> DKIM_MAXHOSTNAMELEN"
    "dkim_set_first pol_dk DKIM_SETTYPE_POLICY = None" "?ts \<noteq> []" "last_ok (last ?ts)" "distinct (folded_names (map tag_pair ?ts))"
    "set_complete DKIM_SETTYPE_POLICY (map tag_pair ?ts)" "\<forall>n. env_malloc env0 n"
    by (simp_all add: pol_dk_def dkim_zero_def policy_query_def dkim_set_first_def last_ok_def folded_names_def set_complete_def env0_def tag_value_def dkim_collapse_def cctype)
  show ?thesis
    using policy_record [OF rest(1-3) look(1) _ _ look(2) rest(4) ok rest(5-9)] unfolding code
    by (simp add: pol_dk_def dkim_zero_def)
qed

text \<open>A reply with two text records.\<close>

definition two_replies :: string where
  "two_replies = map char_of [0, 0, 0, 0, 0, 1, 0, 2, 0, 0, 0, 0 :: nat] @ map char_of [0, 0, 16, 0, 1 :: nat] @
     map char_of [0, 0, 16, 0, 1, 0, 0, 0, 0, 0, 1, 0 :: nat] @ map char_of [0, 0, 16, 0, 1, 0, 0, 0, 0, 0, 1, 0 :: nat]"

definition dns_world :: pworld where
  "dns_world = \<lparr>pw_policy_lookup = None, pw_test_reply = (\<lambda>q x. if x then None else Some (41, two_replies)),
     pw_res_query = (\<lambda>t q. (Inl 0, two_replies)), pw_dn_skipname = (\<lambda>b e p. Some 1), pw_dn_expand = (\<lambda>b e p. Some 1), pw_policyfile = None\<rparr>"


lemma policy_resume_witness:
  "\<exists>p1 dk1. dkim_policy (pol_world DKIM_CBSTAT_TRYAGAIN) env0 pol_dk (Some \<lparr>ps_pflags = 0, ps_qstatus = 0, ps_state = 0, ps_policy = 0\<rparr>) =
      Some (DKIM_STAT_CBTRYAGAIN, None, Some p1, dk1) \<and>
    policy_seen (dkim_policy (pol_world DKIM_CBSTAT_CONTINUE) env0 dk1 (Some p1)) =
      policy_seen (dkim_policy (pol_world DKIM_CBSTAT_CONTINUE) env0 pol_dk (Some \<lparr>ps_pflags = 0, ps_qstatus = 0, ps_state = 0, ps_policy = 0\<rparr>))"
proof -
  let ?p = "\<lparr>ps_pflags = 0, ps_qstatus = 0, ps_state = 0, ps_policy = 0\<rparr> :: pstate"
  obtain p1 dk1 where r: "dkim_policy (pol_world DKIM_CBSTAT_TRYAGAIN) env0 pol_dk (Some ?p) = Some (DKIM_STAT_CBTRYAGAIN, None, Some p1, dk1)"
    by (simp add: dkim_policy_def policy_second_def dkim_get_policy_def policy_lookup_def pol_world_def pol_dk_def dkim_zero_def policy_query_def)
  have d: "dkim_domain pol_dk = Some ''x.org''" "ps_state ?p = 0" by (simp_all add: pol_dk_def)
  have off: "policy_lookup (pol_world DKIM_CBSTAT_TRYAGAIN) (unset pol_dk) (policy_query pol_dk) False = Some (Inl DKIM_STAT_CBTRYAGAIN)"
    "policy_lookup (pol_world DKIM_CBSTAT_CONTINUE) (unset pol_dk) ''x.org'' True = policy_lookup (pol_world DKIM_CBSTAT_TRYAGAIN) (unset pol_dk) ''x.org'' True"
    by (simp_all add: policy_lookup_def pol_world_def)
  show ?thesis using r policy_resume [OF r d(2,1) disjI2 [OF conjI [OF off]]] by blast
qed

end
