(* ===== verification/Dkim_Sighdr.thy ===== *)
theory Dkim_Sighdr
  imports Dkim_Verify
begin

text \<open>
  The signature header a signer produces: its tags (\<open>dkim_gensighdr\<close>) and their layout in lines
  (\<open>dkim_getsighdr_d\<close>, \<open>dkim_getsighdr\<close>), \<open>dkim.c\<close>.

  Both functions only append to a dynamic string and ignore whether an append succeeded, so each is
  given as the list of its appends, in their order, and the fold that performs them. The formatted
  text of a \<open>printf\<close> is the text handed to \<open>dkim_dstring_printf\<close>.

  The lemmas show that the layout adds nothing but white space, and that it puts what precedes the
  value of "b=" at the same place whether the value is there or not: what is signed is what is sent.
\<close>

subsection \<open>Appends\<close>

datatype ds_op = Cat string | Cat1 byte | Printf string

fun op_text :: "ds_op \<Rightarrow> string" where
  "op_text (Cat s) = s"
| "op_text (Cat1 c) = [c]"
| "op_text (Printf s) = s"

fun emit :: "(nat \<Rightarrow> bool) \<Rightarrow> dstring \<Rightarrow> ds_op \<Rightarrow> dstring" where
  "emit mk d (Cat s) = snd (dkim_dstring_cat mk d s)"
| "emit mk d (Cat1 c) = snd (dkim_dstring_cat1 mk d c)"
| "emit mk d (Printf s) = snd (dkim_dstring_printf mk d s)"

definition emits :: "(nat \<Rightarrow> bool) \<Rightarrow> dstring \<Rightarrow> ds_op list \<Rightarrow> dstring" where
  "emits mk = foldl (emit mk)"

definition ops_text :: "ds_op list \<Rightarrow> string" where
  "ops_text ops = concat (map op_text ops)"

lemma emits_simps [simp]:
  "emits mk d [] = d" "emits mk d (op # ops) = emits mk (emit mk d op) ops" "emits mk d (ops @ ops') = emits mk (emits mk d ops) ops'"
  by (simp_all add: emits_def)

lemma ops_text_simps [simp]:
  "ops_text [] = []" "ops_text (op # ops) = op_text op @ ops_text ops" "ops_text (ops @ ops') = ops_text ops @ ops_text ops'"
  by (simp_all add: ops_text_def)

subsection \<open>Numbers\<close>

fun dec :: "nat \<Rightarrow> string" where
  "dec n = (if n < 10 then [char_of (48 + n)] else dec (n div 10) @ [char_of (48 + n mod 10)])"

declare dec.simps [simp del]

definition hexdig :: "nat \<Rightarrow> byte" where
  "hexdig n = ''0123456789ABCDEF'' ! n"

text \<open>\<open>"=%02X"\<close> of a (signed) \<open>char\<close>: a byte above 127 is a negative \<open>int\<close>.\<close>

definition hex_escape :: "byte \<Rightarrow> string" where
  "hex_escape c = ''='' @ (if ord c < 128 then [] else ''FFFFFF'') @ [hexdig (ord c div 16), hexdig (ord c mod 16)]"

subsection \<open>The tags\<close>

text \<open>"basic required stuff", "x=" and "i=".\<close>

definition head_tags :: "dkim \<Rightarrow> siginfo \<Rightarrow> string \<Rightarrow> ds_op list" where
  "head_tags dk sg delim =
    [Printf (''v='' @ DKIM_VERSION_SIG @ '';'' @ delim @ ''a='' @ the (dkim_code_to_name prv_algorithms (sig_signalg sg)) @
       '';'' @ delim @ ''c='' @ the (dkim_code_to_name prv_canonicalizations (sig_hdrcanonalg sg)) @ ''/'' @
       the (dkim_code_to_name prv_canonicalizations (sig_bodycanonalg sg)) @
       '';'' @ delim @ ''d='' @ the (sig_domain sg) @ '';'' @ delim @ ''s='' @ the (sig_selector sg) @
       '';'' @ delim @ ''t='' @ dec (unat (sig_timestamp sg)))] @
    (if dkiml_sigttl (dkim_libhandle dk) \<noteq> 0
     then [Printf ('';'' @ delim @ ''x='' @ dec (unat (sig_timestamp sg + dkiml_sigttl (dkim_libhandle dk))))] else []) @
    (case dkim_signer dk of None \<Rightarrow> [] | Some signer \<Rightarrow> [Printf ('';'' @ delim @ ''i='' @ signer)])"

text \<open>The name of a header as it goes into "h=".\<close>

definition hdr_name :: "header \<Rightarrow> string" where
  "hdr_name h = cstr (take (min DKIM_MAXHEADER (hdr_namelen h)) (hdr_text h))"

text \<open>An entry of "h=" and what precedes it; the flag is \<open>firsthdr\<close>.\<close>

definition h_entry :: "string \<Rightarrow> bool \<Rightarrow> string \<Rightarrow> ds_op list" where
  "h_entry delim firsthdr name =
    (if \<not> firsthdr then [Cat '':''] else [Cat '';'', Cat delim, Cat ''h='']) @ [Cat name]"

text \<open>
  The signed headers; \<open>always\<close> has a flag for each entry of the "always sign" list up to the number
  of headers, cleared when the header is there.
\<close>

definition clear_always :: "string list \<Rightarrow> string \<Rightarrow> bool list \<Rightarrow> bool list" where
  "clear_always ah name always =
    (case find (\<lambda>n. strcaseeq name (ah ! n)) [0 ..< min (length ah) (length always)] of
       None \<Rightarrow> always | Some n \<Rightarrow> always[n := False])"

fun h_signed :: "string \<Rightarrow> string list \<Rightarrow> header list \<Rightarrow> bool \<Rightarrow> bool list \<Rightarrow> ds_op list \<times> bool \<times> bool list" where
  "h_signed delim ah [] firsthdr always = ([], firsthdr, always)"
| "h_signed delim ah (h # hs) firsthdr always =
    (if \<not> hdr_signed h then h_signed delim ah hs firsthdr always
     else case h_signed delim ah hs False (clear_always ah (hdr_name h) always) of (ops, firsthdr', always') \<Rightarrow>
       (h_entry delim firsthdr (hdr_name h) @ ops, firsthdr', always'))"

fun h_always :: "string \<Rightarrow> (string \<times> bool) list \<Rightarrow> bool \<Rightarrow> ds_op list" where
  "h_always delim [] firsthdr = []"
| "h_always delim ((name, wanted) # ah) firsthdr =
    (if wanted then h_entry delim firsthdr name @ h_always delim ah False else h_always delim ah firsthdr)"

definition h_tag :: "dkim \<Rightarrow> string \<Rightarrow> ds_op list" where
  "h_tag dk delim =
    (let ah = (case dkiml_alwayshdrs (dkim_libhandle dk) of None \<Rightarrow> [] | Some ah \<Rightarrow> ah) in
     case h_signed delim ah (dkim_hdrs dk) True (replicate (length (dkim_hdrs dk)) True) of (ops, firsthdr, always) \<Rightarrow>
       ops @ h_always delim (zip ah always) firsthdr)"

text \<open>
  "z=": a header is encoded in the buffer \<open>tmp\<close>, at \<open>q\<close>, with \<open>len\<close> bytes left, where an escape always
  moves on by three.
\<close>

fun z_loop :: "string \<Rightarrow> nat \<Rightarrow> nat \<Rightarrow> string \<Rightarrow> string" where
  "z_loop tmp q len [] = tmp"
| "z_loop tmp q len (c # p) =
    (if q \<ge> DKIM_MAXHEADER then tmp
     else if (0x21 \<le> ord c \<and> ord c \<le> 0x3a) \<or> ord c = 0x3c \<or> (0x3e \<le> ord c \<and> ord c \<le> 0x7e)
     then z_loop (poke tmp q [c]) (q + 1) (len - 1) p
     else z_loop (poke tmp q (take (len - 1) (hex_escape c) @ [NUL])) (q + 3) (len - 3) p)"

definition z_header :: "bool \<Rightarrow> header \<Rightarrow> string" where
  "z_header first h =
    (let tmp = replicate (DKIM_MAXHEADER + 1) NUL in
     cstr (if first then z_loop tmp 0 DKIM_MAXHEADER (hdr_text h)
           else z_loop (poke tmp 0 ''|'') 1 (DKIM_MAXHEADER - 1) (hdr_text h)))"

definition z_tag :: "dkim \<Rightarrow> string \<Rightarrow> ds_op list" where
  "z_tag dk delim =
    (if lib_flag dk DKIM_LIBFLAGS_ZTAGS then
       [Cat '';'', Cat delim, Cat ''z=''] @
       (case dkim_hdrs dk of [] \<Rightarrow> [] | h # hs \<Rightarrow> Cat (z_header True h) # map (\<lambda>h. Cat (z_header False h)) hs)
     else [])"

definition tail_tags :: "dkim \<Rightarrow> siginfo \<Rightarrow> string \<Rightarrow> string \<Rightarrow> ds_op list" where
  "tail_tags dk sg digest delim =
    [Printf ('';'' @ delim @ ''bh='' @ (case dkim_base64_encode digest (DKIM_MAXHEADER + 1) of Some s \<Rightarrow> s | None \<Rightarrow> []))] @
    (if dkim_partial dk
     then [Printf ('';'' @ delim @ ''l='' @ dec (canon_wrote (dkim_canons dk ! the (sig_bodycanon sg))))] else []) @
    h_tag dk delim @ z_tag dk delim @ [Cat '';'', Cat delim, Cat ''b='']"

text \<open>\<open>None\<close> is the return value -1, with the tags that were written before.\<close>

definition dkim_gensighdr :: "env \<Rightarrow> dkim \<Rightarrow> siginfo \<Rightarrow> dstring \<Rightarrow> string \<Rightarrow> nat option \<times> dkim \<times> dstring" where
  "dkim_gensighdr e dk sg d delim =
    (let mk = env_malloc e; d = emits mk d (head_tags dk sg delim); dk = snd (dkim_canon_closebody dk) in
     case dkim_canon_getfinal e (dkim_canons dk ! the (sig_bodycanon sg)) of
       (_, None) \<Rightarrow> (None, dk, d)
     | (_, Some digest) \<Rightarrow>
         (let d = emits mk d (tail_tags dk sg digest delim) in (Some (dkim_dstring_len d), dk, d)))"

subsection \<open>The layout\<close>

text \<open>
  The layout works on the pieces between delimiters with the width used so far, the flag \<open>first\<close> and
  the name of the tag at hand, which a piece that starts with "=" would inherit.
\<close>

abbreviation (input) MAXTAGNAME :: nat where "MAXTAGNAME \<equiv> 8"
abbreviation (input) TAB_LINE :: string where "TAB_LINE \<equiv> [CR, LF, TAB]"

definition BASE64SIZE :: "nat \<Rightarrow> nat" where
  "BASE64SIZE x = ((x + 2) div 3) * 4"

definition tag_which :: "string \<Rightarrow> string \<Rightarrow> string" where
  "tag_which which pv = (let n = take (MAXTAGNAME + 1) (before pv CHR ''='') in if n = [] then which else n)"

text \<open>"break at colons", from the second entry on.\<close>

fun lay_colons :: "nat \<Rightarrow> nat \<Rightarrow> string list \<Rightarrow> ds_op list \<times> nat" where
  "lay_colons margin len [] = ([], len)"
| "lay_colons margin len (tmp # toks) =
    (if len + length tmp + 1 > margin
     then (case lay_colons margin (9 + length tmp) toks of (ops, len') \<Rightarrow>
             (Cat '':'' # Cat (TAB_LINE @ '' '') # Cat tmp # ops, len'))
     else (case lay_colons margin (len + 1 + length tmp) toks of (ops, len') \<Rightarrow> (Cat '':'' # Cat tmp # ops, len')))"

text \<open>"break at margins".\<close>

fun lay_value :: "nat \<Rightarrow> nat \<Rightarrow> string \<Rightarrow> ds_op list \<times> nat" where
  "lay_value margin len [] = ([], len)"
| "lay_value margin len (x # xs) =
    (if len + 1 \<ge> margin \<and> xs \<noteq> []
     then (case lay_value margin 9 xs of (ops, len') \<Rightarrow> (Cat1 x # Cat (TAB_LINE @ '' '') # ops, len'))
     else (case lay_value margin (len + 1) xs of (ops, len') \<Rightarrow> (Cat1 x # ops, len')))"

definition lay_wrapped :: "nat \<Rightarrow> string \<Rightarrow> string \<Rightarrow> ds_op list \<times> nat" where
  "lay_wrapped margin which pv =
    (if which = ''h'' then
       (case strtok CHR '':'' pv of
          [] \<Rightarrow> ([], 8)
        | t # ts \<Rightarrow>
            (let head = takeWhile (\<lambda>c. c = CHR '':'') pv @ t in
             case lay_colons margin (8 + length head) ts of (ops, len) \<Rightarrow> (Cat head # ops, len)))
     else if which = ''b'' \<or> which = ''bh'' \<or> which = ''z'' then
       (case lay_value margin (8 + length which + 1) (drop (length which + 1) pv) of (ops, len) \<Rightarrow>
          (Cat which # Cat ''='' # ops, len))
     else ([Cat pv], 8 + length pv))"

definition lay_force :: "nat \<Rightarrow> siginfo \<Rightarrow> nat \<Rightarrow> string \<Rightarrow> bool" where
  "lay_force margin sg len which \<longleftrightarrow> sig_keytype sg = DKIM_KEYTYPE_RSA \<and> which = ''b'' \<and>
     len + length which + BASE64SIZE (sig_keybits sg div 8) + 1 \<ge> margin"

fun lay_pieces :: "nat \<Rightarrow> siginfo \<Rightarrow> nat \<Rightarrow> bool \<Rightarrow> string \<Rightarrow> string list \<Rightarrow> ds_op list" where
  "lay_pieces margin sg len first which [] = []"
| "lay_pieces margin sg len first which (pv # pvs) =
    (let which = tag_which which pv in
     if len = 0 \<or> first then Cat pv # lay_pieces margin sg (len + length pv) False which pvs
     else if lay_force margin sg len which \<or> len + length pv > margin then
       (case lay_wrapped margin which pv of (ops, len) \<Rightarrow>
          Cat TAB_LINE # ops @ lay_pieces margin sg len first which pvs)
     else Cat '' '' # Cat pv # lay_pieces margin sg (len + 1 + length pv) False which pvs)"

text \<open>Without a margin the pieces are on one line.\<close>

definition lay_line :: "string list \<Rightarrow> ds_op list" where
  "lay_line pvs = (case pvs of [] \<Rightarrow> [] | pv # pvs \<Rightarrow> Cat pv # concat (map (\<lambda>pv. [Cat '' '', Cat pv]) pvs))"

definition layout :: "nat \<Rightarrow> siginfo \<Rightarrow> nat \<Rightarrow> string list \<Rightarrow> ds_op list" where
  "layout margin sg initial pvs =
    (if margin = 0 then lay_line pvs else lay_pieces margin sg initial True [] pvs)"

abbreviation (input) DELIMITER :: byte where "DELIMITER \<equiv> CHR 0x01"

text \<open>The status, the header and the handle. The return value of \<open>dkim_gensighdr\<close> is not looked at.\<close>

definition dkim_getsighdr_d :: "env \<Rightarrow> dkim \<Rightarrow> nat \<Rightarrow> int \<times> string \<times> dkim" where
  "dkim_getsighdr_d e dk initial =
    (if dkim_state dk \<noteq> DKIM_STATE_EOM2 \<or> dkim_mode dk \<noteq> DKIM_MODE_SIGN then (DKIM_STAT_INVALID, [], dk)
     else
    (let sg = dkim_siglist dk ! (case dkim_signature dk of None \<Rightarrow> 0 | Some j \<Rightarrow> j);
         new = dkim_dstring_new (env_malloc e) (int BUFRSZ) (int MAXBUFRSZ) in
     case (new, case dkim_hdrbuf dk of None \<Rightarrow> new | Some d \<Rightarrow> Some (dkim_dstring_blank d)) of
       (Some tmpbuf, Some hdrbuf) \<Rightarrow>
         (case dkim_gensighdr e (dk\<lparr>dkim_hdrbuf := Some hdrbuf\<rparr>) sg tmpbuf [DELIMITER] of (_, dk, tmpbuf) \<Rightarrow>
           (let tmpbuf = (case dkim_b64sig dk of None \<Rightarrow> tmpbuf | Some b \<Rightarrow> emit (env_malloc e) tmpbuf (Cat b));
                ops = layout (dkim_margin dk) sg initial (strtok DELIMITER (dkim_dstring_get tmpbuf));
                hdrbuf = emits (env_malloc e) hdrbuf ops in
            (DKIM_STAT_OK, take (dkim_dstring_len hdrbuf) (dkim_dstring_get hdrbuf), dk\<lparr>dkim_hdrbuf := Some hdrbuf\<rparr>)))
     | _ \<Rightarrow> (DKIM_STAT_NORESOURCE, [], dk)))"

text \<open>Into a buffer of the caller: what it holds afterwards.\<close>

definition dkim_getsighdr :: "env \<Rightarrow> dkim \<Rightarrow> nat \<Rightarrow> nat \<Rightarrow> int \<times> string \<times> dkim" where
  "dkim_getsighdr e dk buflen initial =
    (case dkim_getsighdr_d e dk initial of (status, p, dk) \<Rightarrow>
       if status \<noteq> DKIM_STAT_OK then (status, [], dk)
       else if length p > buflen then (DKIM_STAT_NORESOURCE, [], dk)
       else (DKIM_STAT_OK, strlcpy p buflen, dk))"

subsection \<open>Folding\<close>

text \<open>Text with white space put in.\<close>

inductive folds :: "string \<Rightarrow> string \<Rightarrow> bool" where
  empty: "folds [] []"
| keep: "folds w w' \<Longrightarrow> folds (c # w) (c # w')"
| fold: "isspace c \<Longrightarrow> folds w w' \<Longrightarrow> folds w (c # w')"

lemma folds_refl [simp, intro]: "folds w w"
  by (induction w) (auto intro: folds.intros)

lemma folds_append: "folds a a' \<Longrightarrow> folds b b' \<Longrightarrow> folds (a @ b) (a' @ b')"
  by (induction rule: folds.induct) (auto intro: folds.intros)

lemma folds_white: "\<forall>c\<in>set ws. isspace c \<Longrightarrow> folds w w' \<Longrightarrow> folds w (ws @ w')"
  by (induction ws) (auto intro: folds.intros)

lemma folds_collapse: "folds w w' \<Longrightarrow> dkim_collapse w' = dkim_collapse w"
  by (induction rule: folds.induct) (auto simp: dkim_collapse_filter)

lemma folds_set: "folds w w' \<Longrightarrow> c \<in> set w' \<Longrightarrow> c \<in> set w \<or> isspace c"
  by (induction rule: folds.induct) auto

lemma folds_snoc: "folds (v @ [c]) w' \<Longrightarrow> \<exists>v' ws. w' = v' @ c # ws \<and> folds v v' \<and> (\<forall>x\<in>set ws. isspace x)"
proof (induction "v @ [c]" w' arbitrary: v rule: folds.induct)
  case (keep w w' c')
  show ?case
  proof (cases v)
    case Nil
    have "\<forall>x\<in>set w'. isspace x" if "folds [] w'" for w'
      using that by (induction "[] :: string" w' rule: folds.induct) auto
    then show ?thesis using keep Nil by (intro exI [of _ "[]"] exI [of _ w']) (auto intro: folds.empty)
  next
    case (Cons x v1)
    with keep obtain v' ws where "w' = v' @ c # ws" "folds v1 v'" "\<forall>x\<in>set ws. isspace x" by auto
    then show ?thesis using keep(3) Cons by (intro exI [of _ "c' # v'"] exI [of _ ws]) (auto intro: folds.keep)
  qed
next
  case (fold x w')
  then obtain v' ws where "w' = v' @ c # ws" "folds v v'" "\<forall>x\<in>set ws. isspace x" by blast
  then show ?case using fold(1) by (intro exI [of _ "x # v'"] exI [of _ ws]) (auto intro: folds.fold)
qed simp

lemma spaces [simp]: "isspace CR" "isspace LF" "isspace TAB" "isspace (CHR '' '')"
  by (simp_all add: isspace_def)

lemma lay_value_folds: "lay_value margin len xs = (ops, len') \<Longrightarrow> folds xs (ops_text ops)"
proof (induction margin len xs arbitrary: ops rule: lay_value.induct)
  case (2 margin len x xs)
  then show ?case
    by (auto split: if_splits prod.splits intro!: folds.keep folds.fold)
qed (auto intro: folds.intros)

lemma lay_colons_folds:
  "lay_colons margin len toks = (ops, len') \<Longrightarrow> folds (concat (map (\<lambda>t. CHR '':'' # t) toks)) (ops_text ops)"
proof (induction margin len toks arbitrary: ops rule: lay_colons.induct)
  case (2 margin len t toks)
  then show ?case
    by (auto split: if_splits prod.splits intro!: folds.keep folds.fold folds_append)
qed (auto intro: folds.intros)

lemma split_on_join: "split_on d s = f # fs \<Longrightarrow> s = f @ concat (map (\<lambda>t. d # t) fs)"
proof (induction s arbitrary: f fs)
  case (Cons c s)
  show ?case
  proof (cases "split_on d s")
    case Nil
    then show ?thesis using Cons by simp
  next
    case (Cons g gs)
    with Cons.prems Cons.IH [OF this] show ?thesis by (cases "c = d") auto
  qed
qed simp

lemma split_on_prefix: "d \<notin> set p \<Longrightarrow> split_on d s = f # fs \<Longrightarrow> split_on d (p @ s) = (p @ f) # fs"
  by (induction p) auto

text \<open>A tag as the signer writes it; a header list has no empty entries.\<close>

definition piece_name :: "string \<Rightarrow> string \<Rightarrow> bool" where
  "piece_name n w \<longleftrightarrow> n \<noteq> [] \<and> length n \<le> MAXTAGNAME + 1 \<and> CHR ''='' \<notin> set n \<and> CHR '':'' \<notin> set n \<and>
     (n = ''h'' \<longrightarrow> [] \<notin> set (split_on CHR '':'' w))"

lemma tag_which_name: "piece_name n w \<Longrightarrow> tag_which which (n @ CHR ''='' # w) = n"
proof -
  assume p: "piece_name n w"
  then have "takeWhile (\<lambda>x. x \<noteq> CHR ''='') (n @ CHR ''='' # w) = n"
    by (subst takeWhile_append2) (auto simp: piece_name_def)
  with p show ?thesis by (simp add: tag_which_def piece_name_def before_def)
qed

lemma wrapped_folds:
  assumes "piece_name n w" "lay_wrapped margin n (n @ CHR ''='' # w) = (ops, len)"
  shows "\<exists>w'. ops_text ops = n @ CHR ''='' # w' \<and> folds w w'"
proof (cases "n = ''h''")
  case True
  obtain f fs where sp: "split_on CHR '':'' w = f # fs" by (metis list.exhaust split_on_nonempty)
  then have ne: "[] \<notin> set (f # fs)" using assms(1) True by (simp add: piece_name_def)
  have "split_on CHR '':'' (''h='' @ w) = (''h='' @ f) # fs" by (rule split_on_prefix [OF _ sp]) simp
  then have tok: "strtok CHR '':'' (''h='' @ w) = (''h='' @ f) # fs"
    using ne by (auto simp: strtok_def filter_id_conv)
  obtain ops1 where c: "lay_colons margin (8 + length (''h='' @ f)) fs = (ops1, len)" "ops = Cat (''h='' @ f) # ops1"
    using assms(2) True tok by (auto simp: lay_wrapped_def Let_def split: prod.splits)
  have "folds w (f @ ops_text ops1)"
    using folds_append [OF folds_refl [of f] lay_colons_folds [OF c(1)]] split_on_join [OF sp] by simp
  then show ?thesis using True c(2) by auto
next
  case False
  have d: "drop (length n + 1) (n @ CHR ''='' # w) = w" by simp
  show ?thesis
  proof (cases "n \<in> {''b'', ''bh'', ''z''}")
    case True
    obtain ops1 where "lay_value margin (8 + length n + 1) w = (ops1, len)" "ops = Cat n # Cat ''='' # ops1"
      using assms(2) True False d by (auto simp: lay_wrapped_def split: prod.splits)
    then show ?thesis using lay_value_folds by auto
  qed (use assms(2) False in \<open>auto simp: lay_wrapped_def\<close>)
qed

lemma lay_piece:
  assumes "piece_name n w"
  shows "\<exists>sep w' len'. (\<forall>pvs. ops_text (lay_pieces margin sg len first which ((n @ CHR ''='' # w) # pvs)) =
      sep @ n @ CHR ''='' # w' @ ops_text (lay_pieces margin sg len' False n pvs)) \<and>
    (\<forall>c\<in>set sep. isspace c) \<and> folds w w'"
proof -
  note wh = tag_which_name [OF assms, of which]
  consider "len = 0 \<or> first" | "\<not> (len = 0 \<or> first)" "lay_force margin sg len n \<or> len + length (n @ CHR ''='' # w) > margin"
    | "\<not> (len = 0 \<or> first)" "\<not> (lay_force margin sg len n \<or> len + length (n @ CHR ''='' # w) > margin)" by blast
  then show ?thesis
  proof cases
    case 1
    then show ?thesis by (intro exI [of _ "[]"] exI [of _ w]) (auto simp: wh Let_def)
  next
    case 2
    obtain ops len' where l: "lay_wrapped margin n (n @ CHR ''='' # w) = (ops, len')" by force
    from wrapped_folds [OF assms l] obtain w' where "ops_text ops = n @ CHR ''='' # w'" "folds w w'" by blast
    then show ?thesis using 2
      by (intro exI [of _ TAB_LINE] exI [of _ w'] exI [of _ len']) (auto simp: wh l Let_def)
  next
    case 3
    then show ?thesis
      by (intro exI [of _ "'' ''"] exI [of _ w] exI [of _ "len + 1 + length (n @ CHR ''='' # w)"]) (auto simp: wh Let_def)
  qed
qed

declare lay_pieces.simps(2) [simp del]

text \<open>Laid out tags: white space before each name and in each value.\<close>

inductive laid :: "(string \<times> string) list \<Rightarrow> string \<Rightarrow> bool" where
  none: "laid [] []"
| tag: "\<forall>c\<in>set sep. isspace c \<Longrightarrow> folds w w' \<Longrightarrow> laid nws t \<Longrightarrow> laid ((n, w) # nws) (sep @ n @ CHR ''='' # w' @ t)"

inductive_cases laid_NilE: "laid [] t"
inductive_cases laid_ConsE: "laid ((n, w) # nws) t"

definition piece_text :: "string \<times> string \<Rightarrow> string" where
  "piece_text nw = fst nw @ CHR ''='' # snd nw"

lemma lay_pieces_laid:
  "\<forall>(n, w)\<in>set nws. piece_name n w \<Longrightarrow> laid nws (ops_text (lay_pieces margin sg len first which (map piece_text nws)))"
proof (induction nws arbitrary: len first which)
  case Nil
  then show ?case by (simp add: laid.none)
next
  case (Cons nw nws)
  obtain n w where nw: "nw = (n, w)" by (cases nw)
  have pn: "piece_name n w" and rest: "\<forall>(n, w)\<in>set nws. piece_name n w" using Cons.prems nw by auto
  obtain sep w' len' where l: "\<And>pvs. ops_text (lay_pieces margin sg len first which ((n @ CHR ''='' # w) # pvs)) =
      sep @ n @ CHR ''='' # w' @ ops_text (lay_pieces margin sg len' False n pvs)"
    "\<forall>c\<in>set sep. isspace c" "folds w w'"
    using lay_piece [OF pn, of margin sg len first which] by blast
  have "map piece_text (nw # nws) = (n @ CHR ''='' # w) # map piece_text nws" by (simp add: nw piece_text_def)
  then have "ops_text (lay_pieces margin sg len first which (map piece_text (nw # nws))) =
      sep @ n @ CHR ''='' # w' @ ops_text (lay_pieces margin sg len' False n (map piece_text nws))"
    by (simp only: l(1))
  then show ?case using laid.tag [OF l(2,3) Cons.IH [OF rest], of n] nw by (simp only:)
qed

lemma lay_line_laid: "laid nws (ops_text (lay_line (map piece_text nws)))"
proof -
  have tail: "laid nws (ops_text (concat (map (\<lambda>pv. [Cat '' '', Cat pv]) (map piece_text nws))))" for nws
  proof (induction nws)
    case (Cons nw nws)
    then show ?case
      using laid.tag [of "'' ''" "snd nw" "snd nw" nws _ "fst nw"] by (cases nw) (simp add: piece_text_def)
  qed (simp add: laid.none)
  show ?thesis
  proof (cases nws)
    case (Cons nw r)
    then show ?thesis
      using laid.tag [of "[]" "snd nw" "snd nw" r _ "fst nw", OF _ _ tail [of r]] by (cases nw) (simp add: piece_text_def lay_line_def)
  qed (simp add: lay_line_def laid.none)
qed

lemma layout_laid:
  "\<forall>(n, w)\<in>set nws. piece_name n w \<Longrightarrow> laid nws (ops_text (layout margin sg initial (map piece_text nws)))"
  using lay_pieces_laid lay_line_laid by (simp add: layout_def)

text \<open>A list of tags, each with a semicolon but the last.\<close>

fun semis :: "(string \<times> string) list \<Rightarrow> (string \<times> string) list" where
  "semis [] = []"
| "semis [nv] = [nv]"
| "semis (nv # nvs) = (fst nv, snd nv @ '';'') # semis nvs"

definition pieces :: "(string \<times> string) list \<Rightarrow> string list" where
  "pieces nvs = map piece_text (semis nvs)"

definition pair_ok :: "string \<times> string \<Rightarrow> bool" where
  "pair_ok nv \<longleftrightarrow> (case nv of (n, v) \<Rightarrow> n \<noteq> [] \<and> length n \<le> MAXTAGNAME + 1 \<and> isalnum (hd n) \<and>
     (\<forall>c\<in>set n. name_char c \<and> c \<noteq> CHR '':'') \<and> (\<forall>c\<in>set v. text_char c \<and> \<not> isspace c) \<and>
     (n = ''h'' \<longrightarrow> [] \<notin> set (split_on CHR '':'' v)))"

lemma split_on_snoc: "c \<noteq> d \<Longrightarrow> split_on d (s @ [c]) = butlast (split_on d s) @ [last (split_on d s) @ [c]]"
  by (induction s) (auto split: list.splits)

lemma pair_piece: "pair_ok (n, v) \<Longrightarrow> piece_name n v \<and> piece_name n (v @ '';'')"
  using split_on_snoc [of "CHR '';''" "CHR '':''" v]
  by (auto simp: pair_ok_def piece_name_def name_char_def dest: in_set_butlastD)

lemma semis_piece: "\<forall>nv\<in>set nvs. pair_ok nv \<Longrightarrow> \<forall>(n, w)\<in>set (semis nvs). piece_name n w"
  by (induction nvs rule: semis.induct) (auto dest: pair_piece)

lemma laid_lead:
  assumes "laid nws t" "nws \<noteq> []" "\<forall>c\<in>set ws. isspace c"
  shows "laid nws (ws @ t)"
  using assms(1)
proof cases
  case (tag sep w w' nws' t' n)
  have "\<forall>c\<in>set (ws @ sep). isspace c" using tag(3) assms(3) by auto
  then show ?thesis using laid.tag [of "ws @ sep" w w' nws' t' n] tag by (simp only: append_assoc)
qed (use assms(2) in simp)

lemma laid_ConsD:
  assumes "laid ((n, w) # nws) t"
  obtains sep w' u where "t = sep @ n @ CHR ''='' # w' @ u" "\<forall>c\<in>set sep. isspace c" "folds w w'" "laid nws u"
  using assms by (elim laid_ConsE)

lemma pair_tag:
  assumes "pair_ok (n, v)" "\<forall>c\<in>set sep. isspace c" "folds v v'"
  shows "tag_ok (Raw_Tag sep n [] v')" "tag_value (Raw_Tag sep n [] v') = v"
proof -
  have v: "\<forall>c\<in>set v. text_char c \<and> \<not> isspace c" using assms(1) by (simp add: pair_ok_def)
  then have "dkim_collapse v = v" by (simp add: dkim_collapse_filter filter_id_conv)
  then show "tag_value (Raw_Tag sep n [] v') = v" using folds_collapse [OF assms(3)] by (simp add: tag_value_def)
  have sp: "text_char c" if "isspace c" for c using that by (auto simp: text_char_def cctype)
  have "text_char c" if "c \<in> set v'" for c using folds_set [OF assms(3) that] v sp by blast
  then show "tag_ok (Raw_Tag sep n [] v')" using assms(1,2) by (simp add: tag_ok_def pair_ok_def)
qed

lemma laid_tags:
  assumes "laid (semis nvs) t" "\<forall>nv\<in>set nvs. pair_ok nv" "nvs \<noteq> []"
  shows "\<exists>ts. t = tags_text ts \<and> (\<forall>x\<in>set ts. tag_ok x \<and> rt_gap x = []) \<and> ts \<noteq> [] \<and> map tag_pair ts = nvs"
  using assms
proof (induction nvs arbitrary: t rule: semis.induct)
  case (2 nv)
  obtain n v where nv: "nv = (n, v)" by (cases nv)
  have p: "pair_ok (n, v)" using "2.prems" nv by simp
  have "laid ((n, v) # []) t" using "2.prems"(1) nv by simp
  then obtain sep w' u where t: "t = sep @ n @ CHR ''='' # w' @ u" "\<forall>c\<in>set sep. isspace c" "folds v w'" "laid [] u"
    by (rule laid_ConsD)
  have u: "u = []" using t(4) by (rule laid_NilE)
  note ok = pair_tag [OF p t(2,3)]
  show ?case
    by (intro exI [of _ "[Raw_Tag sep n [] w']"] conjI) (simp_all add: t(1) u nv ok tag_text_def)
next
  case (3 nv nv2 nvs)
  obtain n v where nv: "nv = (n, v)" by (cases nv)
  have p: "pair_ok (n, v)" using "3.prems" nv by simp
  have "laid ((n, v @ '';'') # semis (nv2 # nvs)) t" using "3.prems"(1) nv by simp
  then obtain sep w' u where t: "t = sep @ n @ CHR ''='' # w' @ u" "\<forall>c\<in>set sep. isspace c" "folds (v @ '';'') w'"
    "laid (semis (nv2 # nvs)) u"
    by (rule laid_ConsD)
  obtain v' ws where w': "w' = v' @ CHR '';'' # ws" "folds v v'" "\<forall>c\<in>set ws. isspace c"
    using folds_snoc [OF t(3)] by blast
  have "semis (nv2 # nvs) \<noteq> []" by (cases nvs) auto
  then have "laid (semis (nv2 # nvs)) (ws @ u)" using laid_lead t(4) w'(3) by blast
  moreover have "\<forall>x\<in>set (nv2 # nvs). pair_ok x" using "3.prems"(2) by simp
  ultimately obtain ts where ts: "ws @ u = tags_text ts" "\<forall>x\<in>set ts. tag_ok x \<and> rt_gap x = []" "ts \<noteq> []"
    "map tag_pair ts = nv2 # nvs" using "3.IH" [of "ws @ u"] by auto
  note ok = pair_tag [OF p t(2) w'(2)]
  have "t = tags_text (Raw_Tag sep n [] v' # ts)"
    using ts(1,3) t(1) w'(1) by (cases ts) (simp_all add: tag_text_def)
  then show ?case using ok ts(2-4) nv by (intro exI [of _ "Raw_Tag sep n [] v' # ts"]) simp
qed simp

text \<open>
  C11: whatever the margin and the width already used, the header that \<open>dkim_getsighdr_d\<close> lays out
  from the tags of a signature is accepted by \<open>dkim_process_set\<close>, which finds in it each tag with
  the value that was laid out: wrapping only adds white space, and only where it is dropped again.
\<close>
theorem sighdr_parses:
  assumes "\<forall>nv\<in>set nvs. pair_ok nv" "nvs \<noteq> []" "distinct (folded_names nvs)" "set_complete DKIM_SETTYPE_SIGNATURE nvs"
    "\<forall>n. env_malloc e n" "length (ops_text (layout margin sg initial (pieces nvs))) \<le> len"
  shows "\<exists>st. dkim_process_set e d DKIM_SETTYPE_SIGNATURE (ops_text (layout margin sg initial (pieces nvs))) len u False =
      (DKIM_STAT_OK, d\<lparr>dkim_sets := dkim_sets d @ [st]\<rparr>) \<and> \<not> set_bad st \<and>
    (\<forall>n. dkim_param_get st n = tag_lookup DKIM_SETTYPE_SIGNATURE nvs n)"
proof -
  have "laid (semis nvs) (ops_text (layout margin sg initial (pieces nvs)))"
    unfolding pieces_def by (rule layout_laid [OF semis_piece [OF assms(1)]])
  from laid_tags [OF this assms(1,2)] obtain ts where ts:
    "ops_text (layout margin sg initial (pieces nvs)) = tags_text ts" "\<forall>x\<in>set ts. tag_ok x \<and> rt_gap x = []" "ts \<noteq> []"
    "map tag_pair ts = nvs" by blast
  have "last_ok (last ts)" using ts(2,3) by (simp add: last_ok_def)
  then show ?thesis
    using process_set_parses [of ts DKIM_SETTYPE_SIGNATURE e len d u] assms ts by auto
qed

definition nvs_ex :: "(string \<times> string) list" where
  "nvs_ex = [(''v'', ''1''), (''a'', ''rsa-sha256''), (''d'', ''x.org''), (''s'', ''k''), (''h'', ''From:To:Subject''),
     (''b'', ''QUJDREVGR0g='')]"

definition sig_ex :: siginfo where
  "sig_ex = siginfo0\<lparr>sig_keytype := DKIM_KEYTYPE_RSA, sig_keybits := 64\<rparr>"

lemma layout_ex:
  "ops_text (layout 20 sig_ex 16 (pieces nvs_ex)) =
     ''v=1;'' @ TAB_LINE @ ''a=rsa-sha256;'' @ TAB_LINE @ ''d=x.org; s=k;'' @ TAB_LINE @ ''h=From:To:'' @ TAB_LINE @
     '' Subject;'' @ TAB_LINE @ ''b=QUJDREVGR0'' @ TAB_LINE @ '' g=''"
  by code_simp

lemma sighdr_parses_witness:
  "\<exists>st. dkim_process_set env0 (dkim_zero lib0) DKIM_SETTYPE_SIGNATURE (ops_text (layout 20 sig_ex 16 (pieces nvs_ex))) 200 None False =
      (DKIM_STAT_OK, (dkim_zero lib0)\<lparr>dkim_sets := [st]\<rparr>) \<and> dkim_param_get st ''h'' = Some ''From:To:Subject''"
proof -
  have "\<exists>st. dkim_process_set env0 (dkim_zero lib0) DKIM_SETTYPE_SIGNATURE (ops_text (layout 20 sig_ex 16 (pieces nvs_ex))) 200 None False
      = (DKIM_STAT_OK, (dkim_zero lib0)\<lparr>dkim_sets := dkim_sets (dkim_zero lib0) @ [st]\<rparr>) \<and> \<not> set_bad st \<and>
    (\<forall>n. dkim_param_get st n = tag_lookup DKIM_SETTYPE_SIGNATURE nvs_ex n)"
  proof (rule sighdr_parses)
    show "set_complete DKIM_SETTYPE_SIGNATURE nvs_ex"
      by (simp add: set_complete_def signature_tags_def nvs_ex_def)
    show "\<forall>nv\<in>set nvs_ex. pair_ok nv"
      by (simp add: nvs_ex_def pair_ok_def text_char_def name_char_def cctype)
    show "length (ops_text (layout 20 sig_ex 16 (pieces nvs_ex))) \<le> 200" unfolding layout_ex by simp
  qed (simp_all add: nvs_ex_def folded_names_def char_eval env0_def)
  moreover have "tag_lookup DKIM_SETTYPE_SIGNATURE nvs_ex ''h'' = Some ''From:To:Subject''"
    by (simp add: tag_lookup_def lookup_over_def nvs_ex_def strcaseeq_def char_eval)
  ultimately show ?thesis by (force simp: dkim_zero_def)
qed

subsection \<open>The place of the signature\<close>

text \<open>An empty value stays empty.\<close>

definition fills :: "string \<Rightarrow> string \<Rightarrow> bool" where
  "fills v v' \<longleftrightarrow> folds v v' \<and> (v = [] \<longrightarrow> v' = [])"

lemma fills_refl: "fills v v"
  by (simp add: fills_def)

lemma lay_last:
  assumes "sig_keytype sg = DKIM_KEYTYPE_RSA" "v = [] \<or> length v = BASE64SIZE (sig_keybits sg div 8)"
  shows "\<exists>v'. ops_text (lay_pieces margin sg len first which [''b='' @ v]) =
      (if len = 0 \<or> first then [] else if lay_force margin sg len ''b'' then TAB_LINE else '' '') @ ''b='' @ v' \<and> fills v v'"
proof -
  have pn: "piece_name ''b'' v" by (simp add: piece_name_def)
  have wh: "tag_which which (''b='' @ v) = ''b''" using tag_which_name [OF pn, of which] by simp
  have wide: "lay_force margin sg len ''b'' \<or> len + length (''b='' @ v) > margin \<longleftrightarrow> lay_force margin sg len ''b''"
    using assms by (auto simp: lay_force_def)
  obtain ops len' where l: "lay_wrapped margin ''b'' (''b='' @ v) = (ops, len')" by force
  then obtain v' where v': "ops_text ops = ''b='' @ v'" "folds v v'"
    using wrapped_folds [OF pn, of margin ops len'] by auto
  moreover have "v' = []" if "v = []" using l v'(1) that by (auto simp: lay_wrapped_def)
  ultimately have v': "ops_text ops = ''b='' @ v'" "fills v v'" by (simp_all add: fills_def)
  have step: "lay_pieces margin sg len first which [''b='' @ v] =
     (if len = 0 \<or> first then [Cat (''b='' @ v)] else if lay_force margin sg len ''b'' then Cat TAB_LINE # ops
      else [Cat '' '', Cat (''b='' @ v)])"
    unfolding lay_pieces.simps(2) wh Let_def wide l by simp
  show ?thesis using v' fills_refl [of v] unfolding step by (cases "len = 0 \<or> first"; cases "lay_force margin sg len ''b''") auto
qed

lemma lay_pieces_tail:
  assumes "\<forall>(n, w)\<in>set nws. piece_name n w" "sig_keytype sg = DKIM_KEYTYPE_RSA"
  shows "\<exists>t sep. laid nws t \<and> (\<forall>c\<in>set sep. isspace c) \<and>
    (\<forall>v. v = [] \<or> length v = BASE64SIZE (sig_keybits sg div 8) \<longrightarrow>
      (\<exists>v'. ops_text (lay_pieces margin sg len first which (map piece_text nws @ [''b='' @ v])) = t @ sep @ ''b='' @ v' \<and> fills v v'))"
  using assms(1)
proof (induction nws arbitrary: len first which)
  case Nil
  show ?case
    using lay_last [OF assms(2), where margin = margin and len = len and first = first and which = which]
    by (intro exI [of _ "[]"] exI [of _ "if len = 0 \<or> first then [] else if lay_force margin sg len ''b'' then TAB_LINE else '' ''"] conjI)
      (simp_all add: laid.none)
next
  case (Cons nw nws)
  obtain n w where nw: "nw = (n, w)" by (cases nw)
  have pn: "piece_name n w" and rest: "\<forall>(n, w)\<in>set nws. piece_name n w" using Cons.prems nw by auto
  obtain sep w' len' where l: "\<And>pvs. ops_text (lay_pieces margin sg len first which ((n @ CHR ''='' # w) # pvs)) =
      sep @ n @ CHR ''='' # w' @ ops_text (lay_pieces margin sg len' False n pvs)"
    "\<forall>c\<in>set sep. isspace c" "folds w w'"
    using lay_piece [OF pn, of margin sg len first which] by blast
  obtain t sep' where t: "laid nws t" "\<forall>c\<in>set sep'. isspace c"
    "\<And>v. v = [] \<or> length v = BASE64SIZE (sig_keybits sg div 8) \<Longrightarrow>
      \<exists>v'. ops_text (lay_pieces margin sg len' False n (map piece_text nws @ [''b='' @ v])) = t @ sep' @ ''b='' @ v' \<and> fills v v'"
    using Cons.IH [OF rest, of len' False n] by blast
  have eq: "map piece_text (nw # nws) @ [''b='' @ v] = (n @ CHR ''='' # w) # map piece_text nws @ [''b='' @ v]" for v
    by (simp add: nw piece_text_def)
  have "\<exists>v'. ops_text (lay_pieces margin sg len first which (map piece_text (nw # nws) @ [''b='' @ v])) =
      (sep @ n @ CHR ''='' # w' @ t) @ sep' @ ''b='' @ v' \<and> fills v v'"
    if "v = [] \<or> length v = BASE64SIZE (sig_keybits sg div 8)" for v
    using t(3) [OF that] unfolding eq l(1) by auto
  then show ?case using laid.tag [OF l(2,3) t(1), of n] t(2) unfolding nw by blast
qed

lemma lay_line_tail:
  "\<exists>t sep. laid nws t \<and> (\<forall>c\<in>set sep. isspace c) \<and>
    (\<forall>v. ops_text (lay_line (map piece_text nws @ [''b='' @ v])) = t @ sep @ ''b='' @ v)"
proof (cases nws)
  case Nil
  then show ?thesis by (intro exI [of _ "[]"]) (simp add: laid.none lay_line_def)
next
  case (Cons nw r)
  then have "ops_text (lay_line (map piece_text nws @ [''b='' @ v])) = ops_text (lay_line (map piece_text nws)) @ '' '' @ ''b='' @ v" for v
    by (simp add: lay_line_def)
  then show ?thesis using lay_line_laid [of nws]
    by (intro exI [of _ "ops_text (lay_line (map piece_text nws))"] exI [of _ "'' ''"]) simp
qed

lemma layout_tail:
  assumes "\<forall>(n, w)\<in>set nws. piece_name n w" "sig_keytype sg = DKIM_KEYTYPE_RSA"
  obtains t sep where "laid nws t" "\<forall>c\<in>set sep. isspace c"
    "\<And>v. v = [] \<or> length v = BASE64SIZE (sig_keybits sg div 8) \<Longrightarrow>
      \<exists>v'. ops_text (layout margin sg initial (map piece_text nws @ [''b='' @ v])) = t @ sep @ ''b='' @ v' \<and> fills v v'"
proof (cases "margin = 0")
  case True
  then show ?thesis using lay_line_tail [of nws] that fills_refl by (auto simp: layout_def)
next
  case False
  then have eq: "layout margin sg initial pvs = lay_pieces margin sg initial True [] pvs" for pvs by (simp add: layout_def)
  from lay_pieces_tail [OF assms, of margin initial True "[]"] show ?thesis
    unfolding eq [symmetric] by (elim exE conjE) (rule that, assumption+, blast)
qed

lemma laid_end:
  assumes "laid nws t" "nws \<noteq> []" "snd (last nws) = w @ [c]"
  shows "\<exists>u ws. t = u @ c # ws \<and> (\<forall>x\<in>set ws. isspace x)"
  using assms
proof (induction rule: laid.induct)
  case (tag sep w0 w' nws t n)
  show ?case
  proof (cases "nws = []")
    case True
    then have "t = []" "folds (w @ [c]) w'" using tag by (auto elim: laid_NilE)
    then show ?thesis using folds_snoc [of w c w'] by (metis append.assoc append_Cons append_Nil2)
  next
    case False
    then obtain u ws where "t = u @ c # ws" "\<forall>x\<in>set ws. isspace x" using tag by auto
    then show ?thesis by (intro exI [of _ "sep @ n @ CHR ''='' # w' @ u"] exI [of _ ws]) simp
  qed
qed simp

text \<open>A header whose "b=" is empty loses nothing.\<close>

lemma strip_b_plain:
  "CHR ''='' \<notin> set s \<Longrightarrow> CHR '';'' \<notin> set s \<Longrightarrow> strip_b NUL l (s @ r) = s @ strip_b NUL (last (l # s)) r"
  by (induction s arbitrary: l) (auto simp: Let_def)

lemma strip_b_kept:
  "inn \<noteq> NUL \<Longrightarrow> inn \<noteq> CHR ''b'' \<Longrightarrow> CHR '';'' \<notin> set v \<Longrightarrow>
     strip_b inn l (v @ CHR '';'' # r) = v @ CHR '';'' # strip_b NUL (CHR '';'') r"
  by (induction v arbitrary: l) (auto simp: Let_def)

definition plain_tag :: "string \<times> string \<Rightarrow> bool" where
  "plain_tag nw \<longleftrightarrow> (case nw of (n, w) \<Rightarrow> n \<noteq> [] \<and> last n \<noteq> CHR ''b'' \<and> last n \<noteq> NUL \<and>
     CHR ''='' \<notin> set n \<and> CHR '';'' \<notin> set n \<and> (\<exists>v. w = v @ '';'' \<and> CHR '';'' \<notin> set v))"

lemma semi_not_space: "\<not> isspace (CHR '';'')"
  by (simp add: isspace_def)

lemma white_plain: "\<forall>c\<in>set ws. isspace c \<Longrightarrow> CHR ''='' \<notin> set ws \<and> CHR '';'' \<notin> set ws"
  by (auto simp: isspace_def)

lemma strip_b_laid:
  assumes "laid nws t" "\<forall>nw\<in>set nws. plain_tag nw"
  shows "\<exists>l'. strip_b NUL l (t @ r) = t @ strip_b NUL l' r"
  using assms
proof (induction arbitrary: l rule: laid.induct)
  case none
  then show ?case by auto
next
  case (tag sep w w' nws t n)
  obtain v where n: "n \<noteq> []" "last n \<noteq> CHR ''b''" "last n \<noteq> NUL" "CHR ''='' \<notin> set n" "CHR '';'' \<notin> set n"
    and v: "w = v @ [CHR '';'']" "CHR '';'' \<notin> set v" using tag.prems by (auto simp: plain_tag_def)
  obtain v' ws where w': "w' = v' @ CHR '';'' # ws" "folds v v'" "\<forall>c\<in>set ws. isspace c"
    using folds_snoc tag.hyps(2) v(1) by blast
  have semi: "CHR '';'' \<notin> set v'" using folds_set [OF w'(2), of "CHR '';''"] v(2) semi_not_space by blast
  note sep = white_plain [OF tag.hyps(1)] and ws = white_plain [OF w'(3)]
  obtain l' where l': "strip_b NUL (last (CHR '';'' # ws)) (t @ r) = t @ strip_b NUL l' r"
    using tag.IH [of "last (CHR '';'' # ws)"] tag.prems by auto
  have "strip_b NUL l ((sep @ n) @ CHR ''='' # v' @ CHR '';'' # ws @ t @ r) =
      (sep @ n) @ strip_b NUL (last n) (CHR ''='' # v' @ CHR '';'' # ws @ t @ r)"
    using strip_b_plain [of "sep @ n" l] n(1,4,5) sep by simp
  also have "strip_b NUL (last n) (CHR ''='' # v' @ CHR '';'' # ws @ t @ r) =
      CHR ''='' # strip_b (last n) (CHR ''='') (v' @ CHR '';'' # ws @ t @ r)"
    by (simp add: Let_def)
  also have "strip_b (last n) (CHR ''='') (v' @ CHR '';'' # ws @ t @ r) = v' @ CHR '';'' # strip_b NUL (CHR '';'') (ws @ t @ r)"
    by (rule strip_b_kept [OF n(3,2) semi])
  also have "strip_b NUL (CHR '';'') (ws @ t @ r) = ws @ t @ strip_b NUL l' r"
    using strip_b_plain [of ws "CHR '';''" "t @ r"] ws l' by simp
  finally show ?case unfolding w'(1) by (intro exI [of _ l']) simp
qed

lemma strip_b_empty:
  assumes "laid nws t" "\<forall>nw\<in>set nws. plain_tag nw" "\<forall>c\<in>set sep. isspace c" "CHR ''='' \<notin> set pre" "CHR '';'' \<notin> set pre"
  shows "strip_b NUL l (pre @ t @ sep @ ''b='') = pre @ t @ sep @ ''b=''"
proof -
  obtain l' where "strip_b NUL (last (l # pre)) (t @ sep @ ''b='') = t @ strip_b NUL l' (sep @ ''b='')"
    using strip_b_laid [OF assms(1,2)] by blast
  then show ?thesis
    using strip_b_plain [OF assms(4,5), of l "t @ sep @ ''b=''"] strip_b_plain [of sep l' "''b=''"] white_plain [OF assms(3)] by simp
qed

text \<open>
  What is signed is what is sent: whatever the margin, the width already used and the text in
  front, the header laid out with the signature as the value of "b=" and the one laid out before the
  signature was known have the same text once the value is left out, for a signature of the length
  the layout reserves for it.
\<close>
lemma sighdr_stripped:
  assumes "\<forall>(n, w)\<in>set nws. piece_name n w" "nws \<noteq> []" "snd (last nws) = w @ '';''"
    "sig_keytype sg = DKIM_KEYTYPE_RSA" "length v = BASE64SIZE (sig_keybits sg div 8)" "CHR '';'' \<notin> set v"
  shows "strip_b NUL l (pre @ ops_text (layout margin sg initial (map piece_text nws @ [''b='' @ v]))) =
    strip_b NUL l (pre @ ops_text (layout margin sg initial (map piece_text nws @ [''b=''])))"
proof -
  obtain t sep where t: "laid nws t" "\<forall>c\<in>set sep. isspace c"
    "\<And>v. v = [] \<or> length v = BASE64SIZE (sig_keybits sg div 8) \<Longrightarrow>
      \<exists>v'. ops_text (layout margin sg initial (map piece_text nws @ [''b='' @ v])) = t @ sep @ ''b='' @ v' \<and> fills v v'"
    using layout_tail [OF assms(1,4)] by metis
  obtain v1 where v1: "ops_text (layout margin sg initial (map piece_text nws @ [''b='' @ v])) = t @ sep @ ''b='' @ v1" "fills v v1"
    using t(3) [of v] assms(5) by blast
  obtain v2 where v2: "ops_text (layout margin sg initial (map piece_text nws @ [''b=''])) = t @ sep @ ''b='' @ v2" "fills [] v2"
    using t(3) [of "[]"] by auto
  obtain u ws where u: "t = u @ CHR '';'' # ws" "\<forall>x\<in>set ws. isspace x" using laid_end [OF t(1) assms(2,3)] by blast
  have white: "CHR ''='' \<notin> set (ws @ sep)" using u(2) t(2) by (auto simp: isspace_def)
  have semi: "CHR '';'' \<notin> set v1" "CHR '';'' \<notin> set v2"
    using folds_set [of v v1 "CHR '';''"] v1(2) v2(2) assms(6) semi_not_space
    by (auto simp: fills_def)
  have same: "strip_b NUL l (pre @ t @ sep @ ''b='' @ x) = strip_b NUL l (pre @ t @ sep @ ''b='')" if "CHR '';'' \<notin> set x" for x
  proof -
    have "strip_b NUL l ((pre @ u) @ '';'' @ (ws @ sep) @ ''b='' @ x @ []) = strip_b NUL l ((pre @ u) @ '';'' @ (ws @ sep) @ ''b='' @ [])"
      by (rule strip_b_value_independent [OF that _ white]) simp
    then show ?thesis by (simp add: u(1))
  qed
  show ?thesis unfolding v1(1) v2(1) same [OF semi(1)] same [OF semi(2)] by (rule refl)
qed

end
