(* ===== verification/Dkim_Sigtags.thy ===== *)
theory Dkim_Sigtags
  imports Dkim_Sighdr
begin

text \<open>
  What the header of a new signature says: the tags that \<open>dkim_gensighdr\<close> writes as pairs of a name and
  a value, the contents that its appends leave when there is room for them, and the pieces that
  \<open>dkim_getsighdr_d\<close> lays out.
\<close>

subsection \<open>The contents left by appends\<close>

lemma printf_fits:
  assumes "ds_wf d" "ds_len d + length t < ds_alloc d" "ds_max d = 0 \<or> ds_len d + length t < ds_max d"
  shows "ds_wf (snd (dkim_dstring_printf mk d t)) \<and> ds_content (snd (dkim_dstring_printf mk d t)) = ds_content d @ t \<and>
    ds_alloc (snd (dkim_dstring_printf mk d t)) = ds_alloc d \<and> ds_max (snd (dkim_dstring_printf mk d t)) = ds_max d \<and>
    ds_len (snd (dkim_dstring_printf mk d t)) = ds_len d + length t"
proof -
  have t: "take (ds_alloc d - 1) t = t" using assms(2) by simp
  have len: "length (ds_buf d) = ds_alloc d" using assms(1) by (simp add: ds_wf_def)
  let ?b = "poke (ds_buf d) (ds_len d) (t @ [NUL])"
  have b: "length ?b = ds_alloc d" "take (ds_len d + length t) ?b = ds_content d @ t" "?b ! (ds_len d + length t) = NUL"
    using assms(2) len by (simp_all add: poke_def ds_content_def nth_append)
  have "take (ds_len d) ?b = take (ds_len d) (ds_buf d)" using assms(2) len by (simp add: poke_def)
  then have again: "poke ?b (ds_len d) (t @ [NUL]) = ?b"
    using assms(2) len by (simp add: poke_def)
  have "dkim_dstring_resize mk (d\<lparr>ds_buf := ?b\<rparr>) (length t + 1) = (True, d\<lparr>ds_buf := ?b\<rparr>)"
    using assms(2) by (simp add: dkim_dstring_resize_def)
  then show ?thesis
    using assms(2,3) t b again by (auto simp: dkim_dstring_printf_def Let_def vsnprintf_def ds_content_def ds_wf_def)
qed

lemma emits_printfs:
  assumes "ds_wf d" "ds_len d + length (concat ts) < ds_alloc d" "ds_max d = 0 \<or> ds_len d + length (concat ts) < ds_max d"
  shows "ds_wf (emits mk d (map Printf ts)) \<and> ds_content (emits mk d (map Printf ts)) = ds_content d @ concat ts \<and>
    ds_alloc (emits mk d (map Printf ts)) = ds_alloc d \<and> ds_max (emits mk d (map Printf ts)) = ds_max d \<and>
    ds_len (emits mk d (map Printf ts)) = ds_len d + length (concat ts)"
  using assms
proof (induction ts arbitrary: d)
  case (Cons t ts)
  have p: "ds_wf (snd (dkim_dstring_printf mk d t)) \<and> ds_content (snd (dkim_dstring_printf mk d t)) = ds_content d @ t \<and>
    ds_alloc (snd (dkim_dstring_printf mk d t)) = ds_alloc d \<and> ds_max (snd (dkim_dstring_printf mk d t)) = ds_max d \<and>
    ds_len (snd (dkim_dstring_printf mk d t)) = ds_len d + length t"
    using Cons.prems by (intro printf_fits) auto
  then show ?case using Cons.IH [of "snd (dkim_dstring_printf mk d t)"] Cons.prems by (simp add: add.assoc)
qed simp

definition appends :: "ds_op list \<Rightarrow> bool" where
  "appends ops \<longleftrightarrow> list_all (\<lambda>op. case op of Printf _ \<Rightarrow> False | _ \<Rightarrow> True) ops"

lemma appends_simps [simp]:
  "appends []" "appends (Cat s # ops) \<longleftrightarrow> appends ops" "appends (Cat1 c # ops) \<longleftrightarrow> appends ops" "\<not> appends (Printf t # ops)"
  "appends (ops @ ops') \<longleftrightarrow> appends ops \<and> appends ops'" "appends (map (\<lambda>x. Cat (f x)) xs)"
  by (auto simp: appends_def list_all_iff)

lemma emit_append:
  assumes "\<forall>n. mk n" "ds_wf d" "ds_max d = MAXBUFRSZ" "appends [op]" "ds_len d + length (op_text op) < MAXBUFRSZ"
  shows "ds_wf (emit mk d op) \<and> ds_content (emit mk d op) = ds_content d @ op_text op \<and> ds_max (emit mk d op) = MAXBUFRSZ"
proof -
  have *: "ds_wf e \<and> ds_content e = ds_content d @ s \<and> ds_max e = MAXBUFRSZ"
    if "e = snd (dkim_dstring_catn mk d s (length s))" "ds_len d + length s < MAXBUFRSZ" for e s
  proof -
    have "fst (dkim_dstring_catn mk d s (length s))" using that(2) assms by (intro catn_succeeds) auto
    then have "dkim_dstring_catn mk d s (length s) = (True, e)" using that(1) by (simp add: prod_eq_iff)
    then show ?thesis using catn_True [of mk d s "length s" e] assms(2,3) by simp
  qed
  show ?thesis
  proof (cases op)
    case (Cat s)
    then show ?thesis using * [of _ s] assms(5) cat_eq_catn [OF assms(2), of mk s] by simp
  next
    case (Cat1 c)
    then show ?thesis using * [of _ "[c]"] assms(5) by (simp add: cat1_eq_catn)
  qed (use assms(4) in simp)
qed

lemma emits_appends:
  assumes "\<forall>n. mk n" "ds_wf d" "ds_max d = MAXBUFRSZ" "appends ops" "ds_len d + length (ops_text ops) < MAXBUFRSZ"
  shows "ds_wf (emits mk d ops) \<and> ds_content (emits mk d ops) = ds_content d @ ops_text ops \<and> ds_max (emits mk d ops) = MAXBUFRSZ"
  using assms
proof (induction ops arbitrary: d)
  case (Cons op ops)
  have a: "ds_wf (emit mk d op)" "ds_content (emit mk d op) = ds_content d @ op_text op" "ds_max (emit mk d op) = MAXBUFRSZ"
    using emit_append [OF Cons.prems(1-3), of op] Cons.prems(4,5) by (auto simp: appends_def)
  then have "ds_len (emit mk d op) = ds_len d + length (op_text op)"
    using ds_content_length [OF a(1)] ds_content_length [OF Cons.prems(2)] by simp
  then show ?case using Cons.IH [OF Cons.prems(1) a(1) a(3)] Cons.prems(4,5) a(2) by (simp add: appends_def)
qed simp

lemma lay_value_appends: "lay_value margin len xs = (ops, len') \<Longrightarrow> appends ops"
  by (induction margin len xs arbitrary: ops rule: lay_value.induct) (auto split: prod.splits if_splits)

lemma lay_colons_appends: "lay_colons margin len toks = (ops, len') \<Longrightarrow> appends ops"
  by (induction margin len toks arbitrary: ops rule: lay_colons.induct) (auto split: prod.splits if_splits)

lemma lay_wrapped_appends: "lay_wrapped margin which pv = (ops, len') \<Longrightarrow> appends ops"
  by (auto simp: lay_wrapped_def Let_def split: prod.splits list.splits if_splits dest: lay_value_appends lay_colons_appends)

lemma lay_pieces_appends: "appends (lay_pieces margin sg len first which pvs)"
proof (induction pvs arbitrary: len first which)
  case (Cons pv pvs)
  obtain ops len' where "lay_wrapped margin (tag_which which pv) pv = (ops, len')" by force
  then show ?case using Cons.IH lay_wrapped_appends by (simp add: lay_pieces.simps(2) Let_def)
qed simp

lemma layout_appends: "appends (layout margin sg initial pvs)"
proof -
  have "appends (lay_line pvs)"
    by (auto simp: lay_line_def appends_def list_all_iff split: list.splits)
  then show ?thesis using lay_pieces_appends by (simp add: layout_def)
qed

subsection \<open>The tags\<close>

text \<open>The names in "h=": the signed headers, then what is left of the "always sign" list.\<close>

definition always_list :: "dkim \<Rightarrow> string list" where
  "always_list dk = (case dkiml_alwayshdrs (dkim_libhandle dk) of None \<Rightarrow> [] | Some ah \<Rightarrow> ah)"

definition h_names :: "dkim \<Rightarrow> string list" where
  "h_names dk = map hdr_name (filter hdr_signed (dkim_hdrs dk)) @
     map fst (filter snd (zip (always_list dk)
       (foldl (\<lambda>al h. clear_always (always_list dk) (hdr_name h) al) (replicate (length (dkim_hdrs dk)) True)
         (filter hdr_signed (dkim_hdrs dk)))))"

fun h_text :: "string \<Rightarrow> bool \<Rightarrow> string list \<Rightarrow> string" where
  "h_text delim first [] = []"
| "h_text delim first (n # ns) = (if first then '';'' @ delim @ ''h='' else '':'') @ n @ h_text delim False ns"

lemma h_text_append: "h_text delim first (a @ b) = h_text delim first a @ h_text delim (first \<and> a = []) b"
  by (induction delim first a rule: h_text.induct) auto

lemma h_entry_text: "ops_text (h_entry delim first n) = (if first then '';'' @ delim @ ''h='' else '':'') @ n"
  by (simp add: h_entry_def)

lemma h_signed_text:
  "h_signed delim ah hs first always = (ops, first', always') \<Longrightarrow>
     ops_text ops = h_text delim first (map hdr_name (filter hdr_signed hs)) \<and>
     first' = (first \<and> filter hdr_signed hs = []) \<and>
     always' = foldl (\<lambda>al h. clear_always ah (hdr_name h) al) always (filter hdr_signed hs)"
proof (induction delim ah hs first always arbitrary: ops rule: h_signed.induct)
  case (2 delim ah h hs first always)
  show ?case
  proof (cases "hdr_signed h")
    case True
    obtain ops1 where r: "h_signed delim ah hs False (clear_always ah (hdr_name h) always) = (ops1, first', always')"
      "ops = h_entry delim first (hdr_name h) @ ops1"
      using "2.prems" True by (auto split: prod.splits)
    then show ?thesis using "2.IH"(2) [OF _ r(1)] True by (simp add: h_entry_text)
  next
    case False
    then show ?thesis using "2.IH"(1) "2.prems" by simp
  qed
qed simp

lemma h_always_text: "ops_text (h_always delim nas first) = h_text delim first (map fst (filter snd nas))"
  by (induction delim nas first rule: h_always.induct) (auto simp: h_entry_text)

lemma h_tag_text: "ops_text (h_tag dk delim) = h_text delim True (h_names dk)"
proof -
  obtain ops first always where h: "h_signed delim (always_list dk) (dkim_hdrs dk) True (replicate (length (dkim_hdrs dk)) True) = (ops, first, always)"
    by (metis prod_cases3)
  show ?thesis
    using h_signed_text [OF h] h unfolding h_tag_def h_names_def always_list_def [symmetric]
    by (simp add: h_always_text h_text_append Let_def)
qed

definition colons :: "string list \<Rightarrow> string" where
  "colons names = tl (h_text [] False names)"

lemma h_text_delim: "h_text delim False names = h_text [] False names"
  by (induction names) auto

lemma h_text_first: "names \<noteq> [] \<Longrightarrow> h_text delim True names = '';'' @ delim @ ''h='' @ colons names"
  by (cases names) (simp_all add: colons_def h_text_delim [of delim])

text \<open>The header without its first line, as pairs; \<open>digest\<close> is that of the body.\<close>

definition sig_pairs :: "dkim \<Rightarrow> siginfo \<Rightarrow> string \<Rightarrow> (string \<times> string) list" where
  "sig_pairs dk sg digest =
    [(''v'', DKIM_VERSION_SIG), (''a'', the (dkim_code_to_name prv_algorithms (sig_signalg sg))),
     (''c'', the (dkim_code_to_name prv_canonicalizations (sig_hdrcanonalg sg)) @ ''/'' @
        the (dkim_code_to_name prv_canonicalizations (sig_bodycanonalg sg))),
     (''d'', the (sig_domain sg)), (''s'', the (sig_selector sg)), (''t'', dec (unat (sig_timestamp sg)))] @
    (if dkiml_sigttl (dkim_libhandle dk) \<noteq> 0
     then [(''x'', dec (unat (sig_timestamp sg + dkiml_sigttl (dkim_libhandle dk))))] else []) @
    (case dkim_signer dk of None \<Rightarrow> [] | Some signer \<Rightarrow> [(''i'', signer)]) @
    [(''bh'', case dkim_base64_encode digest (DKIM_MAXHEADER + 1) of Some s \<Rightarrow> s | None \<Rightarrow> [])] @
    (if dkim_partial dk then [(''l'', dec (canon_wrote (dkim_canons dk ! the (sig_bodycanon sg))))] else []) @
    (if h_names dk = [] then [] else [(''h'', colons (h_names dk))]) @
    (if lib_flag dk DKIM_LIBFLAGS_ZTAGS then
       [(''z'', case dkim_hdrs dk of [] \<Rightarrow> [] | h # hs \<Rightarrow> z_header True h @ concat (map (z_header False) hs))] else [])"

definition pairs_text :: "(string \<times> string) list \<Rightarrow> string" where
  "pairs_text nvs = concat (map (\<lambda>nv. piece_text nv @ '';'' @ [DELIMITER]) nvs)"

lemma pairs_text_simps [simp]:
  "pairs_text [] = []" "pairs_text (nv # nvs) = piece_text nv @ CHR '';'' # DELIMITER # pairs_text nvs"
  "pairs_text (nvs @ nvs') = pairs_text nvs @ pairs_text nvs'"
  by (simp_all add: pairs_text_def)

lemma z_tag_text:
  "ops_text (z_tag dk delim) = (if lib_flag dk DKIM_LIBFLAGS_ZTAGS then '';'' @ delim @ ''z='' @
     (case dkim_hdrs dk of [] \<Rightarrow> [] | h # hs \<Rightarrow> z_header True h @ concat (map (z_header False) hs)) else [])"
  by (auto simp: z_tag_def ops_text_def o_def split: list.splits)

lemma sig_tags_text:
  "ops_text (head_tags dk sg [DELIMITER]) @ ops_text (tail_tags dk sg digest [DELIMITER]) =
     pairs_text (sig_pairs dk sg digest) @ ''b=''"
proof -
  have h: "ops_text (h_tag dk [DELIMITER]) @ CHR '';'' # DELIMITER # r =
      CHR '';'' # DELIMITER # pairs_text (if h_names dk = [] then [] else [(''h'', colons (h_names dk))]) @ r" for r
    by (simp add: h_tag_text h_text_first piece_text_def)
  have z: "ops_text (z_tag dk [DELIMITER]) @ CHR '';'' # DELIMITER # r = CHR '';'' # DELIMITER #
     pairs_text (if lib_flag dk DKIM_LIBFLAGS_ZTAGS then
       [(''z'', case dkim_hdrs dk of [] \<Rightarrow> [] | h # hs \<Rightarrow> z_header True h @ concat (map (z_header False) hs))] else []) @ r" for r
    by (simp add: z_tag_text piece_text_def)
  show ?thesis
    unfolding head_tags_def tail_tags_def sig_pairs_def
    by (simp add: h z piece_text_def split: option.split)
qed

subsection \<open>The pieces and the header\<close>

definition sig_nws :: "(string \<times> string) list \<Rightarrow> (string \<times> string) list" where
  "sig_nws nvs = map (\<lambda>nv. (fst nv, snd nv @ '';'')) nvs"

lemma sig_nws_simps [simp]: "sig_nws [] = []" "sig_nws (nv # nvs) = (fst nv, snd nv @ '';'') # sig_nws nvs" "sig_nws nvs = [] \<longleftrightarrow> nvs = []"
  by (simp_all add: sig_nws_def)

lemma strtok_pairs:
  "\<forall>nv\<in>set nvs. DELIMITER \<notin> set (piece_text nv) \<Longrightarrow> DELIMITER \<notin> set v \<Longrightarrow>
     strtok DELIMITER (pairs_text nvs @ ''b='' @ v) = map piece_text (sig_nws nvs) @ [''b='' @ v]"
proof (induction nvs)
  case Nil
  then show ?case using strtok_single [of DELIMITER "''b='' @ v"] by simp
next
  case (Cons nv nvs)
  have "strtok DELIMITER ((piece_text nv @ '';'') @ DELIMITER # (pairs_text nvs @ ''b='' @ v)) =
      (piece_text nv @ '';'') # strtok DELIMITER (pairs_text nvs @ ''b='' @ v)"
    using Cons.prems by (intro strtok_append) auto
  then show ?case using Cons by (simp add: piece_text_def)
qed

definition printed :: "ds_op list \<Rightarrow> string" where
  "printed ops = concat (map (\<lambda>op. case op of Printf t \<Rightarrow> t | _ \<Rightarrow> []) ops)"

lemma printed_simps [simp]:
  "printed [] = []" "printed (Printf t # ops) = t @ printed ops" "printed (ops @ ops') = printed ops @ printed ops'"
  "printed (map Printf ts) = concat ts" "appends ops \<Longrightarrow> printed ops = []"
  by (auto simp: printed_def appends_def list_all_iff o_def split: ds_op.splits)

lemma ops_text_printfs [simp]: "ops_text (map Printf ts) = concat ts"
  by (simp add: ops_text_def o_def)

lemma head_printfs: "\<exists>ts. head_tags dk sg delim = map Printf ts"
proof -
  have p: "\<exists>ts. [Printf t] = map Printf ts" for t by (rule exI [of _ "[t]"]) simp
  have a: "\<exists>ts. xs @ ys = map Printf ts" if "\<exists>ts. xs = map Printf ts" "\<exists>ts. ys = map Printf ts" for xs ys :: "ds_op list"
    using that by (metis map_append)
  show ?thesis unfolding head_tags_def by (intro a p) (auto intro: p split: option.split)
qed

lemma h_tag_appends: "appends (h_tag dk delim)"
proof -
  have entry: "appends (h_entry delim first n)" for delim first n by (simp add: h_entry_def)
  have signed: "h_signed delim ah hs first always = (ops, first', always') \<Longrightarrow> appends ops" for ah hs first always ops first' always'
    by (induction delim ah hs first always arbitrary: ops rule: h_signed.induct) (auto simp: entry split: if_splits prod.splits)
  have "appends (h_always delim nas first)" for delim nas first
    by (induction delim nas first rule: h_always.induct) (auto simp: entry)
  then show ?thesis using signed by (auto simp: h_tag_def Let_def split: prod.splits)
qed

lemma tail_printfs: "\<exists>ts ops. tail_tags dk sg digest delim = map Printf ts @ ops \<and> appends ops"
proof -
  have z: "appends (z_tag dk delim)" by (auto simp: z_tag_def split: list.splits)
  let ?ops = "h_tag dk delim @ z_tag dk delim @ [Cat '';'', Cat delim, Cat ''b='']"
  let ?bh = "'';'' @ delim @ ''bh='' @ (case dkim_base64_encode digest (DKIM_MAXHEADER + 1) of Some s \<Rightarrow> s | None \<Rightarrow> [])"
  let ?l = "'';'' @ delim @ ''l='' @ dec (canon_wrote (dkim_canons dk ! the (sig_bodycanon sg)))"
  have "appends ?ops" using z h_tag_appends by simp
  moreover have "tail_tags dk sg digest delim = map Printf (if dkim_partial dk then [?bh, ?l] else [?bh]) @ ?ops"
    by (simp add: tail_tags_def)
  ultimately show ?thesis by blast
qed

lemma ds_content_len: "ds_wf d \<Longrightarrow> ds_len d = length (ds_content d)"
  by (simp add: ds_content_length)

text \<open>What must fit, and what the values may not hold.\<close>

definition tags_fit :: "dkim \<Rightarrow> siginfo \<Rightarrow> string \<Rightarrow> bool" where
  "tags_fit dk sg digest \<longleftrightarrow>
     length (printed (head_tags dk sg [DELIMITER] @ tail_tags dk sg digest [DELIMITER])) < BUFRSZ \<and>
     (\<forall>nv\<in>set (sig_pairs dk sg digest). DELIMITER \<notin> set (piece_text nv) \<and> is_cstring (piece_text nv))"

definition body_closed :: "dkim \<Rightarrow> dkim" where
  "body_closed dk = snd (dkim_canon_closebody dk)"

lemma body_closed_fields: "body_closed dk = dk\<lparr>dkim_canons := map canon_close (dkim_canons dk)\<rparr>"
  by (simp add: body_closed_def dkim_canon_closebody_def)

lemma gensighdr_text:
  assumes mem: "\<forall>n. env_malloc e n" and d: "ds_wf d" "ds_content d = []" "ds_max d = MAXBUFRSZ" "BUFRSZ \<le> ds_alloc d"
    and bc: "canon_done (dkim_canons (body_closed dk) ! the (sig_bodycanon sg))"
    and dg: "digest = canon_digest e (dkim_canons (body_closed dk) ! the (sig_bodycanon sg))"
    and fit: "tags_fit (body_closed dk) sg digest" "length (pairs_text (sig_pairs (body_closed dk) sg digest)) + 2 < MAXBUFRSZ"
  shows "\<exists>n d'. dkim_gensighdr e dk sg d [DELIMITER] = (Some n, body_closed dk, d') \<and> ds_wf d' \<and> ds_max d' = MAXBUFRSZ \<and>
    ds_content d' = pairs_text (sig_pairs (body_closed dk) sg digest) @ ''b=''"
proof -
  let ?dk = "body_closed dk" and ?D = "[DELIMITER]" and ?mk = "env_malloc e"
  obtain ts1 where h: "head_tags ?dk sg ?D = map Printf ts1" using head_printfs by blast
  obtain ts2 ops where t: "tail_tags ?dk sg digest ?D = map Printf ts2 @ ops" "appends ops" using tail_printfs by blast
  have "head_tags ?dk sg ?D = head_tags dk sg ?D" by (simp add: body_closed_fields head_tags_def)
  with h have head: "head_tags dk sg ?D = map Printf ts1" by simp
  have "printed (head_tags ?dk sg ?D @ tail_tags ?dk sg digest ?D) = concat (ts1 @ ts2)" unfolding h t(1) using t(2) by simp
  then have len: "length (concat (ts1 @ ts2)) < BUFRSZ" using fit(1) unfolding tags_fit_def by (simp only:)
  have eq: "concat (ts1 @ ts2) @ ops_text ops = pairs_text (sig_pairs ?dk sg digest) @ ''b=''"
    using sig_tags_text [of ?dk sg digest] unfolding h t(1) by simp
  define d2 where "d2 = emits ?mk d (map Printf (ts1 @ ts2))"
  have d0: "ds_len d = 0" using ds_content_len [OF d(1)] d(2) by simp
  have "ds_len d + length (concat (ts1 @ ts2)) < ds_alloc d" "ds_max d = 0 \<or> ds_len d + length (concat (ts1 @ ts2)) < ds_max d"
    using len d(3,4) by (simp_all only: d0)  simp_all
  then have d2: "ds_wf d2" "ds_content d2 = concat (ts1 @ ts2)" "ds_max d2 = MAXBUFRSZ"
    using emits_printfs [OF d(1), of "ts1 @ ts2" ?mk] d(2,3) by (simp_all only: d2_def append_Nil)
  have "ds_len d2 + length (ops_text ops) < MAXBUFRSZ"
    using ds_content_len [OF d2(1)] d2(2) fit(2) arg_cong [OF eq, of length] by simp
  then have d3: "ds_wf (emits ?mk d2 ops)" "ds_content (emits ?mk d2 ops) = pairs_text (sig_pairs ?dk sg digest) @ ''b=''"
    "ds_max (emits ?mk d2 ops) = MAXBUFRSZ"
    using emits_appends [OF mem d2(1,3) t(2)] d2(2) eq by simp_all
  have fin: "dkim_canon_getfinal e (dkim_canons ?dk ! the (sig_bodycanon sg)) = (DKIM_STAT_OK, Some digest)"
    using bc dg by (simp add: dkim_canon_getfinal_def)
  show ?thesis
    using d3 fin t(1) head unfolding body_closed_def d2_def by (simp add: dkim_gensighdr_def Let_def)
qed

lemma lay_value_cstring: "lay_value margin len xs = (ops, len') \<Longrightarrow> is_cstring xs \<Longrightarrow> is_cstring (ops_text ops)"
  by (induction margin len xs arbitrary: ops rule: lay_value.induct) (auto split: prod.splits if_splits)

lemma lay_colons_cstring:
  "lay_colons margin len toks = (ops, len') \<Longrightarrow> \<forall>t\<in>set toks. is_cstring t \<Longrightarrow> is_cstring (ops_text ops)"
  by (induction margin len toks arbitrary: ops rule: lay_colons.induct) (auto split: prod.splits if_splits)

lemma strtok_cstring: "is_cstring s \<Longrightarrow> t \<in> set (strtok d s) \<Longrightarrow> is_cstring t"
  using split_on_set [of t d s] by (auto simp: strtok_def is_cstring_def)

lemma lay_wrapped_cstring:
  assumes "lay_wrapped margin which pv = (ops, len')" "is_cstring pv"
  shows "is_cstring (ops_text ops)"
proof -
  consider "which = ''h''" | "which \<in> {''b'', ''bh'', ''z''}" | "which \<notin> {''h'', ''b'', ''bh'', ''z''}" by blast
  then show ?thesis
  proof cases
    case 1
    have pre: "is_cstring (takeWhile (\<lambda>c. c = CHR '':'') pv)" using assms(2) by (auto simp: is_cstring_def dest: set_takeWhileD)
    have toks: "\<forall>t\<in>set (strtok CHR '':'' pv). is_cstring t" using strtok_cstring assms(2) by blast
    show ?thesis using assms(1) 1 pre toks
      by (auto simp: lay_wrapped_def Let_def dest!: lay_colons_cstring split: list.splits prod.splits)
  next
    case 2
    have "is_cstring (drop (length which + 1) pv)" using assms(2) by (auto simp: is_cstring_def dest: in_set_dropD)
    then show ?thesis using assms(1) 2 by (auto simp: lay_wrapped_def dest!: lay_value_cstring split: prod.splits)
  qed (use assms in \<open>auto simp: lay_wrapped_def\<close>)
qed

lemma lay_pieces_cstring: "\<forall>pv\<in>set pvs. is_cstring pv \<Longrightarrow> is_cstring (ops_text (lay_pieces margin sg len first which pvs))"
proof (induction pvs arbitrary: len first which)
  case (Cons pv pvs)
  obtain ops len' where "lay_wrapped margin (tag_which which pv) pv = (ops, len')" by force
  then show ?case using Cons lay_wrapped_cstring by (simp add: lay_pieces.simps(2) Let_def)
qed simp

lemma layout_cstring: "\<forall>pv\<in>set pvs. is_cstring pv \<Longrightarrow> is_cstring (ops_text (layout margin sg initial pvs))"
proof -
  have "is_cstring (ops_text (concat (map (\<lambda>pv. [Cat '' '', Cat pv]) pvs)))" if "\<forall>pv\<in>set pvs. is_cstring pv" for pvs
    using that by (induction pvs) auto
  then show "\<forall>pv\<in>set pvs. is_cstring pv \<Longrightarrow> ?thesis"
    using lay_pieces_cstring by (auto simp: layout_def lay_line_def split: list.splits)
qed

text \<open>The pieces of a header with the value \<open>v\<close> of "b=".\<close>

definition sig_pieces :: "dkim \<Rightarrow> siginfo \<Rightarrow> string \<Rightarrow> string \<Rightarrow> string list" where
  "sig_pieces dk sg digest v = map piece_text (sig_nws (sig_pairs dk sg digest)) @ [''b='' @ v]"

lemma sig_pieces_cstring:
  assumes "tags_fit dk sg digest" "is_cstring b"
  shows "\<forall>pv\<in>set (sig_pieces dk sg digest b). is_cstring pv"
  using assms by (auto simp: tags_fit_def sig_pieces_def sig_nws_def piece_text_def)

lemma tags_hdrbuf [simp]:
  "head_tags (dk\<lparr>dkim_hdrbuf := h\<rparr>) sg delim = head_tags dk sg delim" "h_tag (dk\<lparr>dkim_hdrbuf := h\<rparr>) delim = h_tag dk delim"
  "z_tag (dk\<lparr>dkim_hdrbuf := h\<rparr>) delim = z_tag dk delim" "h_names (dk\<lparr>dkim_hdrbuf := h\<rparr>) = h_names dk"
  by (simp_all add: head_tags_def h_tag_def z_tag_def h_names_def always_list_def)

lemma pairs_hdrbuf [simp]:
  "sig_pairs (dk\<lparr>dkim_hdrbuf := h\<rparr>) sg digest = sig_pairs dk sg digest"
  "tail_tags (dk\<lparr>dkim_hdrbuf := h\<rparr>) sg digest delim = tail_tags dk sg digest delim"
  by (simp_all add: sig_pairs_def tail_tags_def)

lemma fit_hdrbuf [simp]: "tags_fit (dk\<lparr>dkim_hdrbuf := h\<rparr>) sg digest = tags_fit dk sg digest"
  by (simp add: tags_fit_def)

lemma pairs_text_cstring: "\<forall>nv\<in>set nvs. is_cstring (piece_text nv) \<Longrightarrow> is_cstring (pairs_text nvs)"
  by (induction nvs) auto

lemma getsighdr_d_steps:
  assumes "dkim_state dk = DKIM_STATE_EOM2" "dkim_mode dk = DKIM_MODE_SIGN"
    "dkim_siglist dk ! (case dkim_signature dk of None \<Rightarrow> 0 | Some j \<Rightarrow> j) = sg"
    "dkim_dstring_new (env_malloc e) (int BUFRSZ) (int MAXBUFRSZ) = Some d0"
    "(case dkim_hdrbuf dk of None \<Rightarrow> Some d0 | Some d \<Rightarrow> Some (dkim_dstring_blank d)) = Some hb0"
    "dkim_gensighdr e (dk\<lparr>dkim_hdrbuf := Some hb0\<rparr>) sg d0 [DELIMITER] = (r, dk1, d1)"
    "d2 = (case dkim_b64sig dk1 of None \<Rightarrow> d1 | Some b \<Rightarrow> emit (env_malloc e) d1 (Cat b))"
    "hb = emits (env_malloc e) hb0 (layout (dkim_margin dk1) sg initial (strtok DELIMITER (dkim_dstring_get d2)))"
  shows "dkim_getsighdr_d e dk initial =
    (DKIM_STAT_OK, take (dkim_dstring_len hb) (dkim_dstring_get hb), dk1\<lparr>dkim_hdrbuf := Some hb\<rparr>)"
  unfolding dkim_getsighdr_d_def Let_def assms(3-5) assms(7,8) using assms(1,2,6) by simp

lemma blank_max: "ds_max (dkim_dstring_blank d) = ds_max d"
  by (simp add: dkim_dstring_blank_def)

lemma getsighdr_d_text:
  assumes mem: "\<forall>n. env_malloc e n" and st: "dkim_state dk = DKIM_STATE_EOM2" "dkim_mode dk = DKIM_MODE_SIGN"
    and hb: "dkim_hdrbuf dk = None \<or> hdrbuf_ok dk"
    and sg: "dkim_siglist dk ! (case dkim_signature dk of None \<Rightarrow> 0 | Some j \<Rightarrow> j) = sg"
    and bc: "canon_done (dkim_canons (body_closed dk) ! the (sig_bodycanon sg))"
    and dg: "digest = canon_digest e (dkim_canons (body_closed dk) ! the (sig_bodycanon sg))"
    and b: "b = (case dkim_b64sig dk of None \<Rightarrow> [] | Some b \<Rightarrow> b)" "DELIMITER \<notin> set b" "is_cstring b"
    and fit: "tags_fit (body_closed dk) sg digest" "length (pairs_text (sig_pairs (body_closed dk) sg digest)) + 2 + length b < MAXBUFRSZ"
    and tx: "tx = ops_text (layout (dkim_margin dk) sg initial (sig_pieces (body_closed dk) sg digest b))" "length tx < MAXBUFRSZ"
  shows "\<exists>hb. dkim_getsighdr_d e dk initial = (DKIM_STAT_OK, tx, (body_closed dk)\<lparr>dkim_hdrbuf := Some hb\<rparr>) \<and>
    ds_wf hb \<and> ds_max hb = MAXBUFRSZ"
proof -
  let ?mk = "env_malloc e" and ?nvs = "sig_pairs (body_closed dk) sg digest"
  obtain d0 where d0: "dkim_dstring_new ?mk (int BUFRSZ) (int MAXBUFRSZ) = Some d0"
    using mem by (simp add: dkim_dstring_new_def Let_def)
  then have w0: "ds_wf d0" "ds_content d0 = []" "ds_max d0 = MAXBUFRSZ" "BUFRSZ \<le> ds_alloc d0"
    using new_wf [OF d0] by simp_all
  define hb0 where "hb0 = (case dkim_hdrbuf dk of None \<Rightarrow> d0 | Some d \<Rightarrow> dkim_dstring_blank d)"
  have hb0: "ds_wf hb0" "ds_content hb0 = []" "ds_max hb0 = MAXBUFRSZ"
    using hb w0(1-3) by (auto simp: hb0_def hdrbuf_ok_def blank_wf blank_max)
  define dk1 where "dk1 = dk\<lparr>dkim_hdrbuf := Some hb0\<rparr>"
  have closed: "body_closed dk1 = (body_closed dk)\<lparr>dkim_hdrbuf := Some hb0\<rparr>" by (simp add: dk1_def body_closed_fields)
  obtain n d1 where g: "dkim_gensighdr e dk1 sg d0 [DELIMITER] = (Some n, body_closed dk1, d1)" "ds_wf d1" "ds_max d1 = MAXBUFRSZ"
    "ds_content d1 = pairs_text ?nvs @ ''b=''"
    using gensighdr_text [OF mem w0, of dk1 sg digest] bc dg fit by (auto simp: closed)
  define d2 where "d2 = (case dkim_b64sig dk of None \<Rightarrow> d1 | Some b \<Rightarrow> emit ?mk d1 (Cat b))"
  have len: "ds_len d1 + length b < MAXBUFRSZ" using ds_content_len [OF g(2)] g(4) fit(2) by simp
  have d2: "ds_wf d2" "ds_content d2 = pairs_text ?nvs @ ''b='' @ b"
    using emit_append [OF mem g(2,3), of "Cat b"] len g(2,4) b(1) by (auto simp: d2_def split: option.splits)
  have chars: "\<forall>nv\<in>set ?nvs. DELIMITER \<notin> set (piece_text nv) \<and> is_cstring (piece_text nv)"
    using fit(1) by (simp add: tags_fit_def)
  then have "is_cstring (pairs_text ?nvs)" by (intro pairs_text_cstring) simp
  then have get: "dkim_dstring_get d2 = pairs_text ?nvs @ ''b='' @ b"
    using ds_content_get [OF d2(1)] d2(2) b(3) by simp
  have tok: "strtok DELIMITER (dkim_dstring_get d2) = sig_pieces (body_closed dk) sg digest b"
    unfolding get sig_pieces_def using chars b(2) by (intro strtok_pairs) auto
  have ctx: "is_cstring tx" unfolding tx(1) by (rule layout_cstring [OF sig_pieces_cstring [OF fit(1) b(3)]])
  define hb where "hb = emits ?mk hb0 (layout (dkim_margin dk) sg initial (sig_pieces (body_closed dk) sg digest b))"
  have "ds_len hb0 = 0" using ds_content_len [OF hb0(1)] hb0(2) by simp
  then have hb: "ds_wf hb" "ds_content hb = tx" "ds_max hb = MAXBUFRSZ"
    using emits_appends [OF mem hb0(1,3) layout_appends, of "dkim_margin dk" sg initial "sig_pieces (body_closed dk) sg digest b"] hb0(2) tx
    by (simp_all add: hb_def)
  have out: "take (dkim_dstring_len hb) (dkim_dstring_get hb) = tx"
    using ds_content_get [OF hb(1)] hb(2) ctx ds_content_len [OF hb(1)] by (simp add: dkim_dstring_len_def)
  have cb: "dkim_b64sig (body_closed dk1) = dkim_b64sig dk" "dkim_margin (body_closed dk1) = dkim_margin dk"
    by (simp_all add: dk1_def body_closed_fields)
  have st2: "(case dkim_hdrbuf dk of None \<Rightarrow> Some d0 | Some d \<Rightarrow> Some (dkim_dstring_blank d)) = Some hb0"
    by (auto simp: hb0_def split: option.split)
  have b64: "d2 = (case dkim_b64sig (body_closed dk1) of None \<Rightarrow> d1 | Some b \<Rightarrow> emit ?mk d1 (Cat b))"
    unfolding d2_def cb ..
  have lay: "hb = emits ?mk hb0 (layout (dkim_margin (body_closed dk1)) sg initial (strtok DELIMITER (dkim_dstring_get d2)))"
    unfolding hb_def cb tok ..
  from getsighdr_d_steps [OF st sg d0 st2 g(1) [unfolded dk1_def] b64 [unfolded dk1_def] lay [unfolded dk1_def]]
  have "dkim_getsighdr_d e dk initial = (DKIM_STAT_OK, tx, (body_closed dk1)\<lparr>dkim_hdrbuf := Some hb\<rparr>)"
    unfolding out dk1_def .
  then show ?thesis using hb(1,3) unfolding closed by (intro exI [of _ hb]) simp
qed

subsection \<open>The header that is signed\<close>

text \<open>What the values may not hold for the header to be read back.\<close>

definition tags_clean :: "(string \<times> string) list \<Rightarrow> bool" where
  "tags_clean nvs \<longleftrightarrow> (\<forall>(n, v)\<in>set nvs. CHR '';'' \<notin> set v \<and> (n = ''h'' \<longrightarrow> [] \<notin> set (split_on CHR '':'' v)))"

lemma sig_names: "(n, v) \<in> set (sig_pairs dk sg digest) \<Longrightarrow>
    n \<in> {''v'', ''a'', ''c'', ''d'', ''s'', ''t'', ''x'', ''i'', ''bh'', ''l'', ''h'', ''z''}"
  by (auto simp: sig_pairs_def split: if_splits option.splits)

lemma sig_nws_ok:
  assumes "tags_clean (sig_pairs dk sg digest)"
  shows "\<forall>(n, w)\<in>set (sig_nws (sig_pairs dk sg digest)). piece_name n w"
    "\<forall>nw\<in>set (sig_nws (sig_pairs dk sg digest)). plain_tag nw"
proof -
  have "piece_name n (v @ '';'') \<and> plain_tag (n, v @ '';'')" if nv: "(n, v) \<in> set (sig_pairs dk sg digest)" for n v
  proof -
    have v: "CHR '';'' \<notin> set v" "n = ''h'' \<longrightarrow> [] \<notin> set (split_on CHR '':'' v)"
      using assms nv by (auto simp: tags_clean_def)
    have "n = ''h'' \<longrightarrow> [] \<notin> set (split_on CHR '':'' (v @ '';''))"
      using v(2) split_on_snoc [of "CHR '';''" "CHR '':''" v] by (auto dest: in_set_butlastD)
    moreover have "n \<noteq> [] \<and> length n \<le> MAXTAGNAME + 1 \<and> CHR ''='' \<notin> set n \<and> CHR '':'' \<notin> set n \<and> CHR '';'' \<notin> set n \<and>
        last n \<noteq> CHR ''b'' \<and> last n \<noteq> NUL"
      using sig_names [OF nv] by auto
    ultimately show ?thesis using v(1) by (auto simp: piece_name_def plain_tag_def)
  qed
  then show "\<forall>(n, w)\<in>set (sig_nws (sig_pairs dk sg digest)). piece_name n w"
    "\<forall>nw\<in>set (sig_nws (sig_pairs dk sg digest)). plain_tag nw"
    by (auto simp: sig_nws_def)
qed

lemma sig_nws_last: "sig_nws (sig_pairs dk sg digest) \<noteq> [] \<and> (\<exists>w. snd (last (sig_nws (sig_pairs dk sg digest))) = w @ [CHR '';''])"
proof -
  have "sig_pairs dk sg digest \<noteq> []" by (simp add: sig_pairs_def)
  then show ?thesis by (simp add: sig_nws_def last_map)
qed

lemma sig_header_stripped:
  assumes "tags_clean (sig_pairs dk sg digest)" "sig_keytype sg = DKIM_KEYTYPE_RSA"
    "length b = BASE64SIZE (sig_keybits sg div 8)" "CHR '';'' \<notin> set b" "CHR ''='' \<notin> set pre" "CHR '';'' \<notin> set pre"
  shows "strip_b NUL NUL (pre @ ops_text (layout margin sg initial (sig_pieces dk sg digest b))) =
    pre @ ops_text (layout margin sg initial (sig_pieces dk sg digest []))"
proof -
  note ok = sig_nws_ok [OF assms(1)]
  obtain w where w: "sig_nws (sig_pairs dk sg digest) \<noteq> []" "snd (last (sig_nws (sig_pairs dk sg digest))) = w @ '';''"
    using sig_nws_last by blast
  obtain t sep where t: "laid (sig_nws (sig_pairs dk sg digest)) t" "\<forall>c\<in>set sep. isspace c"
    "\<And>v. v = [] \<or> length v = BASE64SIZE (sig_keybits sg div 8) \<Longrightarrow>
      \<exists>v'. ops_text (layout margin sg initial (map piece_text (sig_nws (sig_pairs dk sg digest)) @ [''b='' @ v])) = t @ sep @ ''b='' @ v' \<and> fills v v'"
    using layout_tail [OF ok(1) assms(2)] by metis
  have "ops_text (layout margin sg initial (sig_pieces dk sg digest [])) = t @ sep @ ''b=''"
    using t(3) [of "[]"] by (auto simp: sig_pieces_def fills_def)
  then have "strip_b NUL NUL (pre @ ops_text (layout margin sg initial (sig_pieces dk sg digest []))) =
      pre @ ops_text (layout margin sg initial (sig_pieces dk sg digest []))"
    using strip_b_empty [OF t(1) ok(2) t(2) assms(5,6)] by simp
  then show ?thesis
    using sighdr_stripped [OF ok(1) w assms(2-4), of NUL pre margin initial] by (simp add: sig_pieces_def)
qed

end
