(* ===== verification/Dkim_Sign.thy ===== *)
theory Dkim_Sign
  imports Dkim_Sigtags
begin

text \<open>
  Signing in \<open>dkim.c\<close>: the end of the header (\<open>dkim_eoh_sign\<close>) and of the message
  (\<open>dkim_eom_sign\<close>). Of OpenSSL the model takes the size of the RSA key a PEM text holds and the
  signature of a digest under it (empty where \<open>RSA_sign\<close> fails). A failed \<open>assert\<close> is \<open>None\<close>.

  The lemmas show that the digest that is signed is that of the selected headers and of the very
  header that \<open>dkim_getsighdr_d\<close> returns afterwards, with the value of "b=" left out.
\<close>

abbreviation (input) DKIM_SIGNHEADER :: string where "DKIM_SIGNHEADER \<equiv> ''DKIM-Signature''"

record signer =
  sg_keysize :: "string \<Rightarrow> nat option"
  sg_rsa_sign :: "int \<Rightarrow> string \<Rightarrow> string \<Rightarrow> string"
  sg_tmpfile :: int

subsection \<open>The end of the header\<close>

definition required_present :: "header list \<Rightarrow> bool" where
  "required_present hs \<longleftrightarrow>
    list_all (\<lambda>r. list_ex (\<lambda>h. hdr_namelen h = length r \<and> strncaseeq (hdr_text h) r (length r)) hs) required_signhdrs"

definition sign_hashtype :: "int \<Rightarrow> int option" where
  "sign_hashtype signalg =
    (if signalg = DKIM_SIGN_RSASHA1 then Some DKIM_HASHTYPE_SHA1
     else if signalg = DKIM_SIGN_RSASHA256 then Some DKIM_HASHTYPE_SHA256 else None)"

definition sign_time :: "env \<Rightarrow> dkim \<Rightarrow> int" where
  "sign_time e dk =
    (if dkiml_fixedtime (dkim_libhandle dk) \<noteq> 0 then dkiml_fixedtime (dkim_libhandle dk) else env_time e)"

text \<open>The element of the new signature and its two canonicalizations.\<close>

definition sign_canons :: "env \<Rightarrow> dkim \<Rightarrow> int \<Rightarrow> int \<times> dkim" where
  "sign_canons e dk hashtype =
    (let sg = siginfo0\<lparr>sig_domain := dkim_domain dk, sig_selector := dkim_selector dk,
                sig_hashtype := hashtype, sig_signalg := dkim_signalg dk\<rparr>;
         dk = dk\<lparr>dkim_sigcount := 1, dkim_siglist := [sg]\<rparr> in
     case dkim_add_canon e dk True (dkim_hdrcanonalg dk) hashtype None None 0 of (status, hc, dk) \<Rightarrow>
       if status \<noteq> DKIM_STAT_OK then (status, dk)
       else case dkim_add_canon e dk False (dkim_bodycanonalg dk) hashtype None None (dkim_signlen dk) of (status, bc, dk) \<Rightarrow>
         if status \<noteq> DKIM_STAT_OK then (status, dk)
         else (DKIM_STAT_OK, dk\<lparr>dkim_siglist := [sg\<lparr>sig_hdrcanon := hc, sig_hdrcanonalg := dkim_hdrcanonalg dk,
                 sig_bodycanon := bc, sig_bodycanonalg := dkim_bodycanonalg dk,
                 sig_timestamp := of_int (sign_time e dk)\<rparr>]\<rparr>))"

definition dkim_eoh_sign :: "signer \<Rightarrow> env \<Rightarrow> dkim \<Rightarrow> (int \<times> dkim) option" where
  "dkim_eoh_sign s e dk =
    (if dkim_state dk \<ge> DKIM_STATE_EOH2 then Some (DKIM_STAT_INVALID, dk)
     else
    (let dk = dk\<lparr>dkim_state := DKIM_STATE_EOH2\<rparr> in
     if \<not> required_present (dkim_hdrs dk)
     then Some (DKIM_STAT_SYNTAX, dk\<lparr>dkim_state := DKIM_STATE_UNUSABLE\<rparr>)
     else case sign_hashtype (dkim_signalg dk) of
       None \<Rightarrow> None
     | Some hashtype \<Rightarrow> Some
         (if \<not> env_malloc e sizeof_struct then (DKIM_STAT_NORESOURCE, dk)
          else case sign_canons e dk hashtype of (status, dk) \<Rightarrow>
            if status \<noteq> DKIM_STAT_OK then (status, dk)
            else case dkim_canon_init e dk (lib_flag dk DKIM_LIBFLAGS_TMPFILES) (sg_tmpfile s) of (status, dk) \<Rightarrow>
              if status \<noteq> DKIM_STAT_OK then (status, dk) else dkim_canon_runheaders e dk True)))"

subsection \<open>The end of the message\<close>

text \<open>"determine key properties": \<open>Inl\<close> is a return.\<close>

definition sign_key :: "signer \<Rightarrow> env \<Rightarrow> string \<Rightarrow> siginfo \<Rightarrow> (int \<times> siginfo) + siginfo" where
  "sign_key s e key sg =
    (if \<not> env_malloc e sizeof_struct then Inl (DKIM_STAT_NORESOURCE, sg)
     else let sg = sg\<lparr>sig_keytype := DKIM_KEYTYPE_RSA\<rparr> in
       case sg_keysize s key of
         None \<Rightarrow> Inl (DKIM_STAT_NORESOURCE, sg)
       | Some keysize \<Rightarrow>
           if \<not> env_malloc e keysize then Inl (DKIM_STAT_NORESOURCE, sg)
           else Inr (sg\<lparr>sig_keybits := keysize * 8\<rparr>))"

text \<open>"construct the DKIM signature header to be canonicalized".\<close>

definition sign_header :: "env \<Rightarrow> dkim \<Rightarrow> (int \<times> dkim) + (header \<times> dkim)" where
  "sign_header e dk =
    (let pre = DKIM_SIGNHEADER @ '': ''; n = length pre in
     case dkim_getsighdr e dk (DKIM_MAXHEADER + 1 - n) n of (ret, text, dk) \<Rightarrow>
       if ret \<noteq> DKIM_STAT_OK then Inl (ret, dk)
       else
         let tmp = pre @ cstr text in
         if length tmp = DKIM_MAXHEADER then Inl (DKIM_STAT_NORESOURCE, dk)
         else Inr (\<lparr>hdr_signed = False, hdr_textlen = length tmp, hdr_namelen = n - 2, hdr_text = tmp,
                    hdr_colon = Some (length DKIM_SIGNHEADER)\<rparr>, dk))"

text \<open>"compute and store the signature"; the size of the buffer for its base64 text.\<close>

definition b64siglen :: "nat \<Rightarrow> nat" where
  "b64siglen siglen = (let n = siglen * 3 + 5 in n + n div 60)"

definition sign_digest :: "signer \<Rightarrow> env \<Rightarrow> dkim \<Rightarrow> siginfo \<Rightarrow> string \<Rightarrow> int \<times> dkim" where
  "sign_digest s e dk sg digest =
    (let nid = (if sig_hashtype sg = DKIM_HASHTYPE_SHA256 then NID_sha256 else NID_sha1);
         signature = sg_rsa_sign s nid digest (the (dkim_key dk)) in
     if signature = [] then (DKIM_STAT_INTERNAL, dk)
     else if \<not> env_malloc e (b64siglen (length signature)) then (DKIM_STAT_NORESOURCE, dk)
     else case dkim_base64_encode signature (b64siglen (length signature)) of
         None \<Rightarrow> (DKIM_STAT_NORESOURCE, dk\<lparr>dkim_b64sig := Some []\<rparr>)
       | Some b64 \<Rightarrow> (DKIM_STAT_OK, dk\<lparr>dkim_b64sig := Some b64, dkim_signature := Some 0\<rparr>))"

definition sign_message :: "signer \<Rightarrow> env \<Rightarrow> dkim \<Rightarrow> int \<times> dkim" where
  "sign_message s e dk =
    (case sign_key s e (the (dkim_key dk)) (dkim_siglist dk ! 0) of
       Inl (ret, sg) \<Rightarrow> (ret, set_sig dk 0 sg)
     | Inr sg \<Rightarrow>
    (case sign_header e (set_sig dk 0 sg) of
       Inl r \<Rightarrow> r
     | Inr (hdr, dk) \<Rightarrow>
    (case dkim_canon_signature e dk hdr of (_, dk) \<Rightarrow>
     case dkim_canon_getfinal e (dkim_canons dk ! the (sig_hdrcanon sg)) of
       (_, None) \<Rightarrow> (DKIM_STAT_INTERNAL, dk)
     | (_, Some digest) \<Rightarrow> sign_digest s e dk sg digest)))"

text \<open>The body, the time and "l=".\<close>

definition sign_prepare :: "env \<Rightarrow> dkim \<Rightarrow> dkim" where
  "sign_prepare e dk =
    (let dk = (snd (dkim_canon_closebody dk))\<lparr>dkim_bodydone := True, dkim_timestamp := sign_time e dk\<rparr> in
     if lib_flag dk DKIM_LIBFLAGS_SIGNLEN then dk\<lparr>dkim_partial := True\<rparr> else dk)"

definition dkim_eom_sign :: "signer \<Rightarrow> env \<Rightarrow> dkim \<Rightarrow> (int \<times> dkim) option" where
  "dkim_eom_sign s e dk =
    (if dkim_state dk \<ge> DKIM_STATE_EOM2 then Some (DKIM_STAT_INVALID, dk)
     else
    (let dk = dk\<lparr>dkim_state := DKIM_STATE_EOM2\<rparr> in
     if dkim_chunkstate dk \<noteq> DKIM_CHUNKSTATE_INIT \<and> dkim_chunkstate dk \<noteq> DKIM_CHUNKSTATE_DONE
     then Some (DKIM_STAT_INVALID, dk)
     else
    (let dk = sign_prepare e dk in
     case dkim_siglist dk of
       [] \<Rightarrow> None
     | sg # _ \<Rightarrow>
         if \<not> env_malloc e sizeof_struct then Some (DKIM_STAT_NORESOURCE, dk)
         else case sign_hashtype (sig_signalg sg) of
             None \<Rightarrow> None
           | Some _ \<Rightarrow>
               if sig_hashtype sg \<noteq> DKIM_HASHTYPE_SHA1 \<and> sig_hashtype sg \<noteq> DKIM_HASHTYPE_SHA256 then None
               else Some (sign_message s e dk))))"

lemma b64siglen_fits: "dkim_base64_encode signature (b64siglen (length signature)) = Some (b64_ref signature)"
proof -
  have "4 * ((n + 2) div 3) \<le> b64siglen n" for n by (simp add: b64siglen_def Let_def)
  then show ?thesis
    unfolding dkim_base64_encode_def using b64_encode_loop_ref [where out = "[]"] by (auto simp: length_b64_ref)
qed

subsection \<open>Hashing the new header\<close>

lemma copy_succeeds:
  assumes "\<forall>n. mk n" "ds_wf d" "ds_max d = MAXBUFRSZ" "length s < MAXBUFRSZ"
  shows "\<exists>e. dkim_dstring_copy mk d s = (True, e) \<and> ds_wf e \<and> ds_content e = s \<and> ds_max e = MAXBUFRSZ"
proof -
  have "fst (ds_room mk d (length s))"
    using resize_succeeds [of mk "length s + 1" d] assms by (auto simp: ds_room_def ds_wf_def)
  then obtain d' where r: "ds_room mk d (length s) = (True, d')" by (metis prod.collapse)
  then have "dkim_dstring_copy mk d s = (True, d'\<lparr>ds_buf := poke (ds_buf d') 0 (s @ [NUL]), ds_len := length s\<rparr>)"
    using assms(3,4) by (simp add: dkim_dstring_copy_def ds_room_def Let_def)
  then show ?thesis using copy_True [OF _ assms(2), of mk s] room_True [OF r assms(2)] assms(3) by auto
qed

lemma signature_canons_closed:
  "\<forall>i\<in>set is. \<not> open_hdr (dkim_canons dk ! i) \<Longrightarrow> signature_canons e hdr dk is = (DKIM_STAT_OK, dk)"
  by (induction "is") (auto simp: open_hdr_def Let_def)

text \<open>The one open header canonicalization gets the canonical form of the field and is closed.\<close>

lemma signature_canons_open:
  assumes mem: "\<forall>n. env_malloc e n" and ok: "canonbuf_ok dk" "hdrbuf_ok dk" and c: "dkim_canons dk ! h = c" "h < length (dkim_canons dk)"
    and op: "open_hdr c" "canon_wf c" "canon_canon c \<in> {DKIM_CANON_SIMPLE, DKIM_CANON_RELAXED}"
    and tx: "is_cstring (hdr_text hdr)" "length (hdr_text hdr) < MAXBUFRSZ"
    and one: "h \<in> set is" "\<forall>i\<in>set is. i \<noteq> h \<longrightarrow> \<not> open_hdr (dkim_canons dk ! i)"
  shows "\<exists>hb cb c'. signature_canons e hdr dk is =
      (DKIM_STAT_OK, dk\<lparr>dkim_hdrbuf := hb, dkim_canonbuf := cb, dkim_canons := (dkim_canons dk)[h := c']\<rparr>) \<and>
    hdrbuf_ok (dk\<lparr>dkim_hdrbuf := hb\<rparr>) \<and> canonbuf_ok (dk\<lparr>dkim_canonbuf := cb\<rparr>) \<and> canon_done c' \<and> canon_hdr c' \<and> canon_hashtype c' = canon_hashtype c \<and>
    canon_hash c' = sv_hash (sv_put (canon_view c)
      (if canon_canon c = DKIM_CANON_SIMPLE then hdr_text hdr else relaxed_field (hdr_text hdr)))"
  using one
proof (induction "is")
  case (Cons i "is")
  show ?case
  proof (cases "i = h")
    case False
    then have "\<not> open_hdr (dkim_canons dk ! i)" using Cons.prems by simp
    then have "signature_canons e hdr dk (i # is) = signature_canons e hdr dk is" by (auto simp: open_hdr_def Let_def)
    then show ?thesis using Cons False by simp
  next
    case True
    obtain d where d: "dkim_hdrbuf dk = Some d" "ds_wf d" "ds_max d = MAXBUFRSZ" using ok(2) by (auto simp: hdrbuf_ok_def)
    obtain d1 where d1: "dkim_dstring_copy (env_malloc e) d (hdr_text hdr) = (True, d1)" "ds_wf d1" "ds_content d1 = hdr_text hdr"
      "ds_max d1 = MAXBUFRSZ" using copy_succeeds [OF mem d(2,3) tx(2)] by blast
    have get: "dkim_dstring_get d1 = hdr_text hdr" "dkim_dstring_len d1 = length (hdr_text hdr)"
      using ds_content_get [OF d1(2)] ds_content_length [OF d1(2)] d1(3) tx(1) by (simp_all add: dkim_dstring_len_def)
    define t where "t = (if canon_canon c = DKIM_CANON_RELAXED then dkim_lowerhdr (hdr_text hdr) else hdr_text hdr)"
    define th where "th = hdr\<lparr>hdr_signed := False, hdr_textlen := length (hdr_text hdr), hdr_text := t\<rparr>"
    have th: "hdr_textlen th = length (hdr_text th)" "length (hdr_text th) < 2 ^ 28"
      using tx(2) by (auto simp: th_def t_def)
    let ?dk = "dk\<lparr>dkim_hdrbuf := Some d1\<rparr>"
    have "canonbuf_ok ?dk" using ok(1) by (simp add: canonbuf_ok_def)
    then obtain b c1 where 1: "dkim_canon_header e ?dk c th False = (DKIM_STAT_OK, ?dk\<lparr>dkim_canonbuf := b\<rparr>, c1)"
      "canonbuf_ok (?dk\<lparr>dkim_canonbuf := b\<rparr>)" "canon_wf c1" "kept c1 = kept c"
      "canon_view c1 = sv_put (canon_view c) (canon_field (canon_canon c) th)"
      using canon_header_ok [OF mem _ op(2) th, of ?dk False] by auto
    have field: "canon_field (canon_canon c) th = (if canon_canon c = DKIM_CANON_SIMPLE then hdr_text hdr else relaxed_field (hdr_text hdr))"
      using op(3) by (auto simp: canon_field_def th_def t_def relaxed_lowerhdr)
    define c' where "c' = (dkim_canon_buffer c1 [])\<lparr>canon_done := True\<rparr>"
    let ?dk' = "?dk\<lparr>dkim_canonbuf := b, dkim_canons := (dkim_canons dk)[h := c']\<rparr>"
    have rest: "signature_canons e hdr ?dk' is = (DKIM_STAT_OK, ?dk')"
    proof (rule signature_canons_closed, intro ballI)
      fix j assume "j \<in> set is"
      then show "\<not> open_hdr (dkim_canons ?dk' ! j)"
        using Cons.prems(2) c(2) by (cases "j = h") (auto simp: open_hdr_def c'_def)
    qed
    have op': "\<not> canon_done c" "canon_hdr c" using op(1) by (simp_all add: open_hdr_def)
    have step: "signature_canons e hdr dk (i # is) = signature_canons e hdr ?dk' is"
      using d(1) d1(1) get 1(1) op' True c(1)
      by (cases "canon_canon c = DKIM_CANON_RELAXED") (simp_all add: Let_def t_def th_def c'_def)
    have "kept (dkim_canon_buffer c1 []) = kept c" using 1(4) by simp
    then have keep: "canon_hdr c' \<and> canon_hashtype c' = canon_hashtype c" using op' unfolding c'_def kept_def by simp
    have hash: "canon_hash c' = sv_hash (sv_put (canon_view c)
        (if canon_canon c = DKIM_CANON_SIMPLE then hdr_text hdr else relaxed_field (hdr_text hdr)))"
      using buffered_hash [OF 1(3)] unfolding 1(5) field by (simp add: c'_def)
    have bufs: "hdrbuf_ok (dk\<lparr>dkim_hdrbuf := Some d1\<rparr>)" "canonbuf_ok (dk\<lparr>dkim_canonbuf := b\<rparr>)" "canon_done c'"
      using 1(2) d1(2,4) by (simp_all add: hdrbuf_ok_def canonbuf_ok_def c'_def)
    note eq = trans [OF step rest]
    show ?thesis
    proof (rule exI [of _ "Some d1"], rule exI [of _ b], rule exI [of _ c'], intro conjI)
      show "signature_canons e hdr dk (i # is) = (DKIM_STAT_OK, ?dk')" by (rule eq)
      show "hdrbuf_ok (dk\<lparr>dkim_hdrbuf := Some d1\<rparr>)" "canonbuf_ok (dk\<lparr>dkim_canonbuf := b\<rparr>)" "canon_done c'" by (rule bufs)+
      show "canon_hdr c'" "canon_hashtype c' = canon_hashtype c" by (rule keep [THEN conjunct1], rule keep [THEN conjunct2])
      show "canon_hash c' = sv_hash (sv_put (canon_view c)
        (if canon_canon c = DKIM_CANON_SIMPLE then hdr_text hdr else relaxed_field (hdr_text hdr)))" by (rule hash)
    qed
  qed
next
  case Nil
  from Nil(1) have False by simp
  then show ?case ..
qed

lemma canon_signature_open:
  assumes mem: "\<forall>n. env_malloc e n" and ok: "canonbuf_ok dk" "hdrbuf_ok dk" and c: "dkim_canons dk ! h = c" "h < length (dkim_canons dk)"
    and op: "open_hdr c" "canon_wf c" "canon_canon c \<in> {DKIM_CANON_SIMPLE, DKIM_CANON_RELAXED}"
    and tx: "is_cstring (hdr_text hdr)" "length (hdr_text hdr) < MAXBUFRSZ"
    and one: "\<forall>i<length (dkim_canons dk). i \<noteq> h \<longrightarrow> \<not> open_hdr (dkim_canons dk ! i)"
  shows "\<exists>hb cb c'. dkim_canon_signature e dk hdr =
      (DKIM_STAT_OK, dk\<lparr>dkim_hdrbuf := hb, dkim_canonbuf := cb, dkim_canons := (dkim_canons dk)[h := c']\<rparr>) \<and>
    hdrbuf_ok (dk\<lparr>dkim_hdrbuf := hb\<rparr>) \<and> canonbuf_ok (dk\<lparr>dkim_canonbuf := cb\<rparr>) \<and> canon_done c' \<and> canon_hdr c' \<and> canon_hashtype c' = canon_hashtype c \<and>
    canon_hash c' = sv_hash (sv_put (canon_view c)
      (if canon_canon c = DKIM_CANON_SIMPLE then hdr_text hdr else relaxed_field (hdr_text hdr)))"
proof -
  obtain d where d: "dkim_hdrbuf dk = Some d" "ds_wf d" "ds_max d = MAXBUFRSZ" using ok(2) by (auto simp: hdrbuf_ok_def)
  let ?dk = "dk\<lparr>dkim_hdrbuf := Some (dkim_dstring_blank d)\<rparr>"
  have "canonbuf_ok ?dk" "hdrbuf_ok ?dk" using ok(1) blank_wf [OF d(2)] d(3) by (simp_all add: canonbuf_ok_def hdrbuf_ok_def blank_max)
  then show ?thesis
    using signature_canons_open [OF mem, of ?dk h c hdr "[0..<length (dkim_canons dk)]"] c op tx one d(1)
    by (simp add: dkim_canon_signature_def hdrbuf_ok_def canonbuf_ok_def)
qed

subsection \<open>What is signed\<close>

lemma b64_quad_chars: "n < 2 ^ 24 \<Longrightarrow> c \<in> set (b64_quad n) \<Longrightarrow> is_b64char c"
proof -
  assume "n < 2 ^ 24" "c \<in> set (b64_quad n)"
  moreover have "n div 2 ^ 18 < 64" using calculation(1) by (intro less_mult_imp_div_less) simp
  ultimately show ?thesis unfolding b64_quad_def
    using alphabet_is_b64char [of "n div 2 ^ 18"] alphabet_is_b64char [of "n div 2 ^ 12 mod 64"]
      alphabet_is_b64char [of "n div 2 ^ 6 mod 64"] alphabet_is_b64char [of "n mod 64"]
    by (auto simp del: alphabet_is_b64char)
qed

lemma ord_lt: "ord (c :: byte) < 256"
  by simp

lemma three_bytes: "x < 256 \<Longrightarrow> y < 256 \<Longrightarrow> z < 256 \<Longrightarrow> x * 2 ^ 16 + y * 2 ^ 8 + z < (2 ^ 24 :: nat)"
  by simp

lemma b64_ref_chars: "c \<in> set (b64_ref data) \<Longrightarrow> is_b64char c \<or> c = CHR ''=''"
proof (induction data rule: b64_ref.induct)
  case (2 a)
  have "ord a * 2 ^ 16 < 2 ^ 24" using three_bytes [OF ord_lt [of a], of 0 0] by simp
  then show ?case using 2 b64_quad_chars set_take_subset by fastforce
next
  case (3 a b)
  have "ord a * 2 ^ 16 + ord b * 2 ^ 8 < 2 ^ 24" using three_bytes [OF ord_lt [of a] ord_lt [of b], of 0] by (simp only: add_0_right)
  then show ?case using 3 b64_quad_chars set_take_subset by fastforce
next
  case (4 a b d r)
  have "ord a * 2 ^ 16 + ord b * 2 ^ 8 + ord d < 2 ^ 24" by (rule three_bytes [OF ord_lt ord_lt ord_lt])
  then show ?case using 4 b64_quad_chars by fastforce
qed simp

lemma b64_text: "is_cstring (b64_ref data)" "DELIMITER \<notin> set (b64_ref data)" "CHR '';'' \<notin> set (b64_ref data)"
proof -
  have no: "x \<notin> set (b64_ref data)" if "\<not> is_b64char x" "x \<noteq> CHR ''=''" for x
    using b64_ref_chars [of x data] that by blast
  show "is_cstring (b64_ref data)" unfolding is_cstring_def by (rule no) (simp_all add: is_b64char_def cctype)
  show "DELIMITER \<notin> set (b64_ref data)" by (rule no) (simp_all add: is_b64char_def cctype)
  show "CHR '';'' \<notin> set (b64_ref data)" by (rule no) (simp_all add: is_b64char_def cctype)
qed

lemma canon_close_idem [simp]: "canon_close (canon_close c) = canon_close c"
  by (simp add: canon_close_def Let_def)

lemma canon_close_hdr: "canon_hdr c \<Longrightarrow> canon_close c = c"
  by (simp add: canon_close_def)

lemma canon_close_body: "\<not> canon_hdr c \<Longrightarrow> canon_done (canon_close c)"
  by (simp add: canon_close_def Let_def)

lemma canon_hdr_close [simp]: "canon_hdr (canon_close c) = canon_hdr c"
  using kept_buffer [of c "[]"] kept_buffer [of c CRLF] kept_buffer [of "dkim_canon_buffer c CRLF" "[]"]
  by (auto simp: canon_close_def Let_def kept_def)

lemma open_hdr_close [simp]: "open_hdr (canon_close c) \<longleftrightarrow> open_hdr c"
  by (cases "canon_hdr c") (simp_all add: open_hdr_def canon_close_hdr)

text \<open>
  A handle that the header run of a signer has left: one signature with an open header
  canonicalization and a body canonicalization.
\<close>

definition sign_ready :: "dkim \<Rightarrow> nat \<Rightarrow> nat \<Rightarrow> bool" where
  "sign_ready dk h b \<longleftrightarrow> dkim_mode dk = DKIM_MODE_SIGN \<and> dkim_b64sig dk = None \<and> dkim_signature dk = None \<and>
     length (dkim_siglist dk) = 1 \<and> sig_hdrcanon (dkim_siglist dk ! 0) = Some h \<and> sig_bodycanon (dkim_siglist dk ! 0) = Some b \<and>
     h < length (dkim_canons dk) \<and> b < length (dkim_canons dk) \<and> canon_wf (dkim_canons dk ! h) \<and>
     canon_canon (dkim_canons dk ! h) \<in> {DKIM_CANON_SIMPLE, DKIM_CANON_RELAXED} \<and> \<not> canon_hdr (dkim_canons dk ! b) \<and>
     (\<forall>i<length (dkim_canons dk). open_hdr (dkim_canons dk ! i) \<longleftrightarrow> i = h) \<and> canonbuf_ok dk \<and> hdrbuf_ok dk"

text \<open>The header fits the buffers and its values can be read back.\<close>

definition body_digest :: "env \<Rightarrow> dkim \<Rightarrow> string" where
  "body_digest e dk = canon_digest e (dkim_canons dk ! the (sig_bodycanon (dkim_siglist dk ! 0)))"

definition sig_layout :: "env \<Rightarrow> dkim \<Rightarrow> string \<Rightarrow> string" where
  "sig_layout e dk b = ops_text (layout (dkim_margin dk) (dkim_siglist dk ! 0) (length DKIM_SIGNHEADER + 2)
     (sig_pieces dk (dkim_siglist dk ! 0) (body_digest e dk) b))"

definition sign_fits :: "env \<Rightarrow> dkim \<Rightarrow> bool" where
  "sign_fits e dk \<longleftrightarrow>
    (let sg = dkim_siglist dk ! 0; nvs = sig_pairs dk sg (body_digest e dk); b = the (dkim_b64sig dk) in
     tags_fit dk sg (body_digest e dk) \<and> tags_clean nvs \<and> length (pairs_text nvs) + 2 + length b < MAXBUFRSZ \<and>
     length (sig_layout e dk b) < MAXBUFRSZ)"

lemma eom_sign_steps:
  assumes "dkim_eom_sign s e dk = Some (DKIM_STAT_OK, dk')"
  shows "dkim_state dk < DKIM_STATE_EOM2 \<and>
    sign_message s e (sign_prepare e (dk\<lparr>dkim_state := DKIM_STATE_EOM2\<rparr>)) = (DKIM_STAT_OK, dk')"
  using assms unfolding dkim_eom_sign_def Let_def by (auto split: if_splits list.splits option.splits)

lemma sign_message_steps:
  assumes "sign_message s e dk = (DKIM_STAT_OK, dk')"
  obtains keysize sg hdr dkc st dkd digest where
    "sg_keysize s (the (dkim_key dk)) = Some keysize"
    "sg = (dkim_siglist dk ! 0)\<lparr>sig_keytype := DKIM_KEYTYPE_RSA, sig_keybits := keysize * 8\<rparr>"
    "sign_header e (set_sig dk 0 sg) = Inr (hdr, dkc)" "dkim_canon_signature e dkc hdr = (st, dkd)"
    "dkim_canon_getfinal e (dkim_canons dkd ! the (sig_hdrcanon sg)) = (DKIM_STAT_OK, Some digest)"
    "sign_digest s e dkd sg digest = (DKIM_STAT_OK, dk')"
proof -
  obtain sg where k: "sign_key s e (the (dkim_key dk)) (dkim_siglist dk ! 0) = Inr sg"
    using assms by (auto simp: sign_message_def sign_key_def Let_def split: sum.splits if_splits option.splits)
  obtain hdr dkc where h: "sign_header e (set_sig dk 0 sg) = Inr (hdr, dkc)"
    using assms k by (auto simp: sign_message_def sign_header_def Let_def split: sum.splits if_splits prod.splits)
  obtain st dkd where c: "dkim_canon_signature e dkc hdr = (st, dkd)" by force
  obtain digest where "dkim_canon_getfinal e (dkim_canons dkd ! the (sig_hdrcanon sg)) = (DKIM_STAT_OK, Some digest)"
    "sign_digest s e dkd sg digest = (DKIM_STAT_OK, dk')"
    using assms k h c by (auto simp: sign_message_def dkim_canon_getfinal_def split: if_splits)
  moreover obtain keysize where "sg_keysize s (the (dkim_key dk)) = Some keysize"
    "sg = (dkim_siglist dk ! 0)\<lparr>sig_keytype := DKIM_KEYTYPE_RSA, sig_keybits := keysize * 8\<rparr>"
    using k by (auto simp: sign_key_def Let_def split: if_splits option.splits)
  ultimately show ?thesis using that h c by blast
qed

lemma sign_digest_steps:
  assumes "sign_digest s e dk sg digest = (DKIM_STAT_OK, dk')"
  shows "let sig = sg_rsa_sign s (if sig_hashtype sg = DKIM_HASHTYPE_SHA256 then NID_sha256 else NID_sha1) digest (the (dkim_key dk)) in
    sig \<noteq> [] \<and> dk' = dk\<lparr>dkim_b64sig := Some (b64_ref sig), dkim_signature := Some 0\<rparr>"
  using assms unfolding sign_digest_def Let_def b64siglen_fits by (auto split: if_splits)

lemma sign_header_text:
  assumes "sign_header e dk = Inr (hdr, dk')" "dkim_getsighdr_d e dk (length DKIM_SIGNHEADER + 2) = (DKIM_STAT_OK, tx, dk1)" "is_cstring tx"
  shows "dk' = dk1 \<and> hdr_text hdr = DKIM_SIGNHEADER @ '': '' @ tx \<and> length (hdr_text hdr) \<le> DKIM_MAXHEADER"
proof -
  let ?n = "DKIM_MAXHEADER + 1 - (length DKIM_SIGNHEADER + 2)"
  have le: "length tx \<le> ?n" and ne: "length (DKIM_SIGNHEADER @ '': '' @ cstr (strlcpy tx ?n)) \<noteq> DKIM_MAXHEADER"
    and r: "dk' = dk1" "hdr_text hdr = DKIM_SIGNHEADER @ '': '' @ cstr (strlcpy tx ?n)"
    using assms(1,2) unfolding sign_header_def dkim_getsighdr_def Let_def by (auto split: if_splits)
  have "length tx \<noteq> ?n"
  proof
    assume "length tx = ?n"
    then have "cstr (strlcpy tx ?n) = take (?n - 1) tx" using assms(3) by (auto simp: strlcpy_def intro!: cstr_id dest: in_set_takeD simp add: is_cstring_def)
    then show False using ne \<open>length tx = ?n\<close> by simp
  qed
  then have "cstr (strlcpy tx ?n) = tx" using le assms(3) by (simp add: strlcpy_id cstr_id)
  then show ?thesis using r le \<open>length tx \<noteq> ?n\<close> by simp
qed

lemma prepare_fields [simp]:
  "dkim_canons (sign_prepare e dk) = map canon_close (dkim_canons dk)" "dkim_siglist (sign_prepare e dk) = dkim_siglist dk"
  "dkim_mode (sign_prepare e dk) = dkim_mode dk" "dkim_state (sign_prepare e dk) = dkim_state dk"
  "dkim_margin (sign_prepare e dk) = dkim_margin dk" "dkim_hdrbuf (sign_prepare e dk) = dkim_hdrbuf dk"
  "dkim_canonbuf (sign_prepare e dk) = dkim_canonbuf dk" "dkim_b64sig (sign_prepare e dk) = dkim_b64sig dk"
  "dkim_signature (sign_prepare e dk) = dkim_signature dk" "dkim_key (sign_prepare e dk) = dkim_key dk"
  by (simp_all add: sign_prepare_def dkim_canon_closebody_def Let_def)

lemma set_sig_sel [simp]:
  "dkim_canons (set_sig dk j sg) = dkim_canons dk" "dkim_mode (set_sig dk j sg) = dkim_mode dk"
  "dkim_state (set_sig dk j sg) = dkim_state dk" "dkim_margin (set_sig dk j sg) = dkim_margin dk"
  "dkim_hdrbuf (set_sig dk j sg) = dkim_hdrbuf dk" "dkim_canonbuf (set_sig dk j sg) = dkim_canonbuf dk"
  "dkim_b64sig (set_sig dk j sg) = dkim_b64sig dk" "dkim_signature (set_sig dk j sg) = dkim_signature dk"
  "dkim_key (set_sig dk j sg) = dkim_key dk" "dkim_siglist (set_sig dk j sg) = (dkim_siglist dk)[j := sg]"
  by (simp_all add: set_sig_def)

lemma body_closed_id: "\<forall>c\<in>set (dkim_canons dk). canon_close c = c \<Longrightarrow> body_closed dk = dk"
  by (simp add: body_closed_fields map_idI)

lemma tags_cong:
  assumes "dkim_libhandle d1 = dkim_libhandle d2" "dkim_signer d1 = dkim_signer d2" "dkim_partial d1 = dkim_partial d2"
    "dkim_hdrs d1 = dkim_hdrs d2" "dkim_canons d1 ! the (sig_bodycanon sg) = dkim_canons d2 ! the (sig_bodycanon sg)"
  shows "sig_pairs d1 sg digest = sig_pairs d2 sg digest" "tags_fit d1 sg digest = tags_fit d2 sg digest"
    "sig_pieces d1 sg digest v = sig_pieces d2 sg digest v"
proof -
  have h: "h_names d1 = h_names d2" "h_tag d1 delim = h_tag d2 delim" "z_tag d1 delim = z_tag d2 delim" for delim
    using assms by (simp_all add: h_names_def always_list_def h_tag_def z_tag_def)
  show p: "sig_pairs d1 sg digest = sig_pairs d2 sg digest" using assms h by (simp add: sig_pairs_def)
  have "head_tags d1 sg delim = head_tags d2 sg delim" "tail_tags d1 sg digest delim = tail_tags d2 sg digest delim" for delim
    using assms h by (simp_all add: head_tags_def tail_tags_def)
  then show "tags_fit d1 sg digest = tags_fit d2 sg digest" using p by (simp add: tags_fit_def)
  show "sig_pieces d1 sg digest v = sig_pieces d2 sg digest v" using p by (simp add: sig_pieces_def)
qed

lemma stripped_length:
  assumes "strip_b NUL NUL (pre @ full) = pre @ short"
  shows "length short \<le> length full"
  using strip_b_length [of NUL NUL "pre @ full"] assms by simp

text \<open>What the two calls leave alone, whatever they answer.\<close>

lemma getsighdr_d_frame:
  assumes "dkim_getsighdr_d e dk initial = (DKIM_STAT_OK, p, dk')"
  shows "\<exists>hb. dk' = (body_closed dk)\<lparr>dkim_hdrbuf := hb\<rparr>"
proof -
  have g: "\<exists>hb. dk1 = (body_closed dk)\<lparr>dkim_hdrbuf := hb\<rparr>"
    if "dkim_gensighdr e (dk\<lparr>dkim_hdrbuf := h\<rparr>) sg d delim = (r, dk1, d1)" for h sg d delim r dk1 d1
  proof -
    have "dk1 = body_closed (dk\<lparr>dkim_hdrbuf := h\<rparr>)"
      using that by (auto simp: dkim_gensighdr_def Let_def body_closed_def split: prod.splits option.splits)
    also have "\<dots> = (body_closed dk)\<lparr>dkim_hdrbuf := h\<rparr>" by (simp add: body_closed_fields)
    finally show ?thesis by blast
  qed
  show ?thesis using assms unfolding dkim_getsighdr_d_def Let_def
    by (auto split: if_splits option.splits prod.splits dest!: g)
qed

lemma signature_canons_frame:
  "signature_canons e hdr dk is = (st, dk') \<Longrightarrow>
     \<exists>hb cb cs. dk' = dk\<lparr>dkim_hdrbuf := hb, dkim_canonbuf := cb, dkim_canons := cs\<rparr> \<and>
       (\<forall>i. \<not> canon_hdr (dkim_canons dk ! i) \<longrightarrow> cs ! i = dkim_canons dk ! i)"
proof (induction "is" arbitrary: dk)
  case Nil
  then show ?case by (cases dk) auto
next
  case (Cons i "is")
  let ?cur = "dkim_canons dk ! i"
  show ?case
  proof (cases "open_hdr ?cur")
    case False
    then show ?thesis using Cons by (auto simp: open_hdr_def Let_def)
  next
    case True
    obtain r d where cp: "dkim_dstring_copy (env_malloc e) (the (dkim_hdrbuf dk)) (hdr_text hdr) = (r, d)" by force
    define t where "t = (if canon_canon ?cur = DKIM_CANON_RELAXED then dkim_lowerhdr (dkim_dstring_get d) else dkim_dstring_get d)"
    obtain st1 dk1 cur where h: "dkim_canon_header e (dk\<lparr>dkim_hdrbuf := Some d\<rparr>) ?cur
        (hdr\<lparr>hdr_signed := False, hdr_textlen := dkim_dstring_len d, hdr_text := t\<rparr>) False = (st1, dk1, cur)" by (metis surj_pair)
    obtain b where b: "dk1 = dk\<lparr>dkim_hdrbuf := Some d, dkim_canonbuf := b\<rparr>" using canon_header_frame [OF h] by auto
    define cs where "cs = (\<lambda>c. (dkim_canons dk)[i := c])"
    have cs: "\<not> canon_hdr (dkim_canons dk ! j) \<Longrightarrow> cs c ! j = dkim_canons dk ! j" for c j
      using True by (cases "j = i") (auto simp: cs_def open_hdr_def)
    have step: "signature_canons e hdr dk (i # is) =
      (if st1 \<noteq> DKIM_STAT_OK then (st1, dk1\<lparr>dkim_canons := cs cur\<rparr>)
       else signature_canons e hdr (dk1\<lparr>dkim_canons := cs ((dkim_canon_buffer cur [])\<lparr>canon_done := True\<rparr>)\<rparr>) is)"
      using True h b cp
      by (cases "canon_canon ?cur = DKIM_CANON_RELAXED") (simp_all add: open_hdr_def Let_def t_def cs_def)
    show ?thesis
    proof (cases "st1 = DKIM_STAT_OK")
      case False
      then have "dk' = dk1\<lparr>dkim_canons := cs cur\<rparr>" using Cons.prems unfolding step by simp
      then show ?thesis using cs [of _ cur] b
        by (intro exI [of _ "Some d"] exI [of _ b] exI [of _ "cs cur"]) simp
    next
      case True
      let ?c = "(dkim_canon_buffer cur [])\<lparr>canon_done := True\<rparr>"
      obtain hb cb cs' where r: "dk' = dk1\<lparr>dkim_canons := cs ?c, dkim_hdrbuf := hb, dkim_canonbuf := cb, dkim_canons := cs'\<rparr>"
        "\<forall>j. \<not> canon_hdr (cs ?c ! j) \<longrightarrow> cs' ! j = cs ?c ! j"
        using Cons.IH [of "dk1\<lparr>dkim_canons := cs ?c\<rparr>"] Cons.prems True unfolding step by auto
      have "cs' ! j = dkim_canons dk ! j" if "\<not> canon_hdr (dkim_canons dk ! j)" for j
        using r(2) cs [OF that, of ?c] that by auto
      then show ?thesis using r(1) b by auto
    qed
  qed
qed

lemma canon_signature_frame:
  "dkim_canon_signature e dk hdr = (st, dk') \<Longrightarrow>
     \<exists>hb cb cs. dk' = dk\<lparr>dkim_hdrbuf := hb, dkim_canonbuf := cb, dkim_canons := cs\<rparr> \<and>
       (\<forall>i. \<not> canon_hdr (dkim_canons dk ! i) \<longrightarrow> cs ! i = dkim_canons dk ! i)"
proof -
  assume a: "dkim_canon_signature e dk hdr = (st, dk')"
  show ?thesis
  proof (cases "dk' = dk")
    case True
    then show ?thesis by (cases dk) auto
  next
    case False
    then obtain d where "signature_canons e hdr (dk\<lparr>dkim_hdrbuf := Some d\<rparr>) [0..<length (dkim_canons dk)] = (st, dk')"
      using a by (auto simp: dkim_canon_signature_def split: option.splits)
    from signature_canons_frame [OF this] show ?thesis by auto
  qed
qed

lemma sign_header_getsighdr:
  "sign_header e dk = Inr (hdr, dk') \<Longrightarrow> \<exists>p. dkim_getsighdr_d e dk (length DKIM_SIGNHEADER + 2) = (DKIM_STAT_OK, p, dk')"
  by (auto simp: sign_header_def dkim_getsighdr_def Let_def split: prod.splits if_splits)

text \<open>The run of \<open>dkim_eom_sign\<close>, from a handle that is ready.\<close>

definition sign_nid :: "siginfo \<Rightarrow> int" where
  "sign_nid sg = (if sig_hashtype sg = DKIM_HASHTYPE_SHA256 then NID_sha256 else NID_sha1)"

definition signed_field :: "int \<Rightarrow> string \<Rightarrow> string" where
  "signed_field alg tx = (if alg = DKIM_CANON_SIMPLE then tx else relaxed_field tx)"

lemma eom_sign_run:
  assumes mem: "\<forall>n. env_malloc e n" and rd: "sign_ready dk h b" and ok: "dkim_eom_sign s e dk = Some (DKIM_STAT_OK, dk')"
    and fit: "sign_fits e dk'"
    and rsa: "\<forall>nid d n. sg_keysize s (the (dkim_key dk)) = Some n \<longrightarrow> length (sg_rsa_sign s nid d (the (dkim_key dk))) \<in> {0, n}"
  shows "\<exists>n sg c'. sg_keysize s (the (dkim_key dk)) = Some n \<and>
    sg = (dkim_siglist dk ! 0)\<lparr>sig_keytype := DKIM_KEYTYPE_RSA, sig_keybits := n * 8\<rparr> \<and>
    dkim_siglist dk' = [sg] \<and> dkim_canons dk' = (map canon_close (dkim_canons dk))[h := c'] \<and> canon_done c' \<and> canon_hdr c' \<and>
    dkim_margin dk' = dkim_margin dk \<and> dkim_state dk' = DKIM_STATE_EOM2 \<and> dkim_mode dk' = DKIM_MODE_SIGN \<and>
    dkim_signature dk' = Some 0 \<and> hdrbuf_ok dk' \<and>
    dkim_b64sig dk' = Some (b64_ref (sg_rsa_sign s (sign_nid sg) (canon_digest e c') (the (dkim_key dk)))) \<and>
    length (the (dkim_b64sig dk')) = BASE64SIZE n \<and>
    canon_hash c' = sv_hash (sv_put (canon_view (dkim_canons dk ! h))
      (signed_field (canon_canon (dkim_canons dk ! h)) (DKIM_SIGNHEADER @ '': '' @ sig_layout e dk' [])))"
proof -
  let ?sg0 = "dkim_siglist dk ! 0" and ?c = "dkim_canons dk ! h" and ?key = "the (dkim_key dk)" and ?cs = "dkim_canons dk"
  have r: "dkim_mode dk = DKIM_MODE_SIGN" "dkim_b64sig dk = None" "dkim_signature dk = None" "length (dkim_siglist dk) = 1"
    "sig_hdrcanon ?sg0 = Some h" "sig_bodycanon ?sg0 = Some b" "h < length ?cs" "b < length ?cs" "canon_wf ?c"
    "canon_canon ?c \<in> {DKIM_CANON_SIMPLE, DKIM_CANON_RELAXED}" "\<not> canon_hdr (?cs ! b)"
    "\<forall>i<length ?cs. open_hdr (?cs ! i) \<longleftrightarrow> i = h" "canonbuf_ok dk" "hdrbuf_ok dk"
    using rd unfolding sign_ready_def by blast+
  have op: "open_hdr ?c" "canon_hdr ?c" using r(7,12) by (auto simp: open_hdr_def)
  then have hb: "h \<noteq> b" using r(11) by auto
  define dka where "dka = sign_prepare e (dk\<lparr>dkim_state := DKIM_STATE_EOM2\<rparr>)"
  have sm: "sign_message s e dka = (DKIM_STAT_OK, dk')" using eom_sign_steps [OF ok] by (simp add: dka_def)
  obtain n sg hdr dkc st dkd digest where k: "sg_keysize s (the (dkim_key dka)) = Some n"
    "sg = (dkim_siglist dka ! 0)\<lparr>sig_keytype := DKIM_KEYTYPE_RSA, sig_keybits := n * 8\<rparr>"
    "sign_header e (set_sig dka 0 sg) = Inr (hdr, dkc)" "dkim_canon_signature e dkc hdr = (st, dkd)"
    "dkim_canon_getfinal e (dkim_canons dkd ! the (sig_hdrcanon sg)) = (DKIM_STAT_OK, Some digest)"
    "sign_digest s e dkd sg digest = (DKIM_STAT_OK, dk')"
    by (rule sign_message_steps [OF sm])
  define dkb where "dkb = set_sig dka 0 sg"
  have key: "dkim_key dka = dkim_key dk" and sg: "sg = ?sg0\<lparr>sig_keytype := DKIM_KEYTYPE_RSA, sig_keybits := n * 8\<rparr>"
    and sgc: "sig_hdrcanon sg = Some h" "sig_bodycanon sg = Some b"
    using k(2) r(5,6) by (simp_all add: dka_def)
  have b: "dkim_canons dkb = map canon_close ?cs" "dkim_margin dkb = dkim_margin dk" "dkim_state dkb = DKIM_STATE_EOM2"
    "dkim_mode dkb = DKIM_MODE_SIGN" "dkim_signature dkb = None" "dkim_b64sig dkb = None" "dkim_key dkb = dkim_key dk"
    "dkim_hdrbuf dkb = dkim_hdrbuf dk" "dkim_canonbuf dkb = dkim_canonbuf dk" "dkim_siglist dkb = [sg]"
    using r(1-4) by (simp_all add: dkb_def dka_def list_update_beyond) (cases "dkim_siglist dk"; simp)
  have closed: "body_closed dkb = dkb" by (rule body_closed_id) (auto simp: b(1))
  obtain p where p: "dkim_getsighdr_d e dkb (length DKIM_SIGNHEADER + 2) = (DKIM_STAT_OK, p, dkc)"
    using sign_header_getsighdr [OF k(3)] by (auto simp: dkb_def)
  obtain hb1 where c: "dkc = dkb\<lparr>dkim_hdrbuf := hb1\<rparr>" using getsighdr_d_frame [OF p] closed by auto
  obtain hb2 cb2 cs2 where d: "dkd = dkc\<lparr>dkim_hdrbuf := hb2, dkim_canonbuf := cb2, dkim_canons := cs2\<rparr>"
    "\<forall>i. \<not> canon_hdr (dkim_canons dkc ! i) \<longrightarrow> cs2 ! i = dkim_canons dkc ! i"
    using canon_signature_frame [OF k(4)] by blast
  define sig where "sig = sg_rsa_sign s (sign_nid sg) digest ?key"
  have key': "dkim_key dkd = dkim_key dk" by (simp add: d(1) c b)
  have f: "sig \<noteq> []" "dk' = dkd\<lparr>dkim_b64sig := Some (b64_ref sig), dkim_signature := Some 0\<rparr>"
    using sign_digest_steps [OF k(6)] unfolding Let_def key' sign_nid_def [symmetric] sig_def [symmetric] by blast+
  have siglen: "length sig = n" using rsa k(1) f(1) unfolding key sig_def by auto
  define dg where "dg = canon_digest e (dkim_canons dkb ! b)"
  have bb: "cs2 ! b = dkim_canons dkb ! b"
    using d(2) r(8,11) by (simp add: c b(1))
  have same: "sig_pairs dk' sg dg = sig_pairs dkb sg dg" "tags_fit dk' sg dg = tags_fit dkb sg dg" "sig_pieces dk' sg dg v = sig_pieces dkb sg dg v" for v
    using bb by (intro tags_cong; simp add: f(2) d(1) c sgc)+
  have dg': "body_digest e dk' = dg" by (simp add: body_digest_def f(2) d(1) c b(10) sgc dg_def bb)
  have sgl: "dkim_siglist dk' = [sg]" "dkim_margin dk' = dkim_margin dk" by (simp_all add: f(2) d(1) c b)
  have sgl0: "dkim_siglist dk' ! 0 = sg" by (simp add: sgl)
  have b64: "the (dkim_b64sig dk') = b64_ref sig" by (simp add: f(2))
  have lay: "sig_layout e dk' v = ops_text (layout (dkim_margin dkb) sg (length DKIM_SIGNHEADER + 2) (sig_pieces dkb sg dg v))" for v
    by (simp add: sig_layout_def dg' sgl same(3) b(2))
  have fits: "tags_fit dkb sg dg" "tags_clean (sig_pairs dkb sg dg)"
    "length (pairs_text (sig_pairs dkb sg dg)) + 2 + length (b64_ref sig) < MAXBUFRSZ" "length (sig_layout e dk' (b64_ref sig)) < MAXBUFRSZ"
    using fit unfolding sign_fits_def Let_def dg' sgl0 b64 same by blast+
  have b64len: "length (b64_ref sig) = BASE64SIZE n" using siglen by (simp add: length_b64_ref BASE64SIZE_def)
  have strip: "strip_b NUL NUL ((DKIM_SIGNHEADER @ '': '') @ sig_layout e dk' (b64_ref sig)) = (DKIM_SIGNHEADER @ '': '') @ sig_layout e dk' []"
    unfolding lay using b64len b64_text(3) by (intro sig_header_stripped [OF fits(2)]) (simp_all add: sg)
  have short: "length (sig_layout e dk' []) < MAXBUFRSZ" using stripped_length [OF strip] fits(4) by simp
  have bdone: "canon_done (dkim_canons (body_closed dkb) ! the (sig_bodycanon sg))"
    using r(8,11) by (simp add: closed b(1) sgc canon_close_body)
  have tx0: "sig_layout e dk' [] = ops_text (layout (dkim_margin dkb) sg (length DKIM_SIGNHEADER + 2) (sig_pieces (body_closed dkb) sg dg []))"
    unfolding closed by (rule lay)
  have hbuf: "dkim_hdrbuf dkb = None \<or> hdrbuf_ok dkb" using r(14) b(8) by (simp add: hdrbuf_ok_def)
  have sgb: "dkim_siglist dkb ! (case dkim_signature dkb of None \<Rightarrow> 0 | Some j \<Rightarrow> j) = sg" by (simp add: b)
  have dgb: "dg = canon_digest e (dkim_canons (body_closed dkb) ! the (sig_bodycanon sg))" by (simp add: dg_def closed sgc)
  have b0: "[] = (case dkim_b64sig dkb of None \<Rightarrow> [] | Some b \<Rightarrow> b)" by (simp add: b)
  have "tags_fit (body_closed dkb) sg dg" "length (pairs_text (sig_pairs (body_closed dkb) sg dg)) + 2 + length ([] :: string) < MAXBUFRSZ"
    using fits(1,3) by (simp_all add: closed)
  from getsighdr_d_text [OF mem b(3,4) hbuf sgb bdone dgb b0 _ _ this tx0 short]
  obtain hb3 where g: "dkim_getsighdr_d e dkb (length DKIM_SIGNHEADER + 2) =
      (DKIM_STAT_OK, sig_layout e dk' [], (body_closed dkb)\<lparr>dkim_hdrbuf := Some hb3\<rparr>)" "ds_wf hb3" "ds_max hb3 = MAXBUFRSZ" by auto
  have cs0: "is_cstring (sig_layout e dk' [])"
    unfolding lay by (rule layout_cstring [OF sig_pieces_cstring [OF fits(1)]]) simp
  have hdr: "dkc = dkb\<lparr>dkim_hdrbuf := Some hb3\<rparr>" "hdr_text hdr = DKIM_SIGNHEADER @ '': '' @ sig_layout e dk' []" "length (hdr_text hdr) \<le> DKIM_MAXHEADER"
    using sign_header_text [OF k(3) [folded dkb_def] g(1) cs0] unfolding closed by blast+
  have cc: "dkim_canons dkc ! h = ?c" using r(7) op(2) by (simp add: hdr(1) b(1) canon_close_hdr)
  have "is_cstring (hdr_text hdr)" "length (hdr_text hdr) < MAXBUFRSZ" using hdr(2,3) cs0 by simp_all
  moreover have "canonbuf_ok dkc" "hdrbuf_ok dkc" using r(13) b(9) g(2,3) by (simp_all add: hdr(1) canonbuf_ok_def hdrbuf_ok_def)
  moreover have "\<forall>i<length (dkim_canons dkc). i \<noteq> h \<longrightarrow> \<not> open_hdr (dkim_canons dkc ! i)" "h < length (dkim_canons dkc)"
    using r(7,12) by (simp_all add: hdr(1) b(1))
  ultimately obtain hb4 cb4 c' where dd: "dkim_canon_signature e dkc hdr =
      (DKIM_STAT_OK, dkc\<lparr>dkim_hdrbuf := hb4, dkim_canonbuf := cb4, dkim_canons := (dkim_canons dkc)[h := c']\<rparr>)"
    "hdrbuf_ok (dkc\<lparr>dkim_hdrbuf := hb4\<rparr>)" "canon_done c'" "canon_hdr c'"
    "canon_hash c' = sv_hash (sv_put (canon_view ?c) (if canon_canon ?c = DKIM_CANON_SIMPLE then hdr_text hdr else relaxed_field (hdr_text hdr)))"
    using canon_signature_open [OF mem _ _ cc _ op(1) r(9,10), of hdr] by blast
  have dkd: "dkd = dkc\<lparr>dkim_hdrbuf := hb4, dkim_canonbuf := cb4, dkim_canons := (dkim_canons dkc)[h := c']\<rparr>"
    using dd(1) k(4) by simp
  have "dkim_canons dkd ! h = c'" using r(7) by (simp add: dkd hdr(1) b(1))
  then have dig: "digest = canon_digest e c'" using k(5) sgc by (auto simp: dkim_canon_getfinal_def split: if_splits)
  have cansf: "dkim_canons dk' = (map canon_close ?cs)[h := c']" by (simp add: f(2) dkd hdr(1) b(1))
  have hash: "canon_hash c' = sv_hash (sv_put (canon_view ?c) (signed_field (canon_canon ?c) (DKIM_SIGNHEADER @ '': '' @ sig_layout e dk' [])))"
    using dd(5) unfolding hdr(2) signed_field_def .
  have st: "dkim_state dk' = DKIM_STATE_EOM2" "dkim_mode dk' = DKIM_MODE_SIGN" "dkim_signature dk' = Some 0" "hdrbuf_ok dk'"
    "dkim_b64sig dk' = Some (b64_ref sig)"
    using dd(2) by (simp_all add: f(2) dkd hdr(1) b(3,4) hdrbuf_ok_def)
  have len: "length (the (dkim_b64sig dk')) = BASE64SIZE n" using b64len by (simp add: st(5))
  show ?thesis
  proof (rule exI [of _ n], rule exI [of _ sg], rule exI [of _ c'], intro conjI)
    show "sg_keysize s ?key = Some n" using k(1) unfolding key .
    show "sg = ?sg0\<lparr>sig_keytype := DKIM_KEYTYPE_RSA, sig_keybits := n * 8\<rparr>" by (rule sg)
    show "dkim_b64sig dk' = Some (b64_ref (sg_rsa_sign s (sign_nid sg) (canon_digest e c') ?key))"
      unfolding st(5) sig_def dig ..
  qed (rule sgl cansf dd st hash len)+
qed

text \<open>
  What is signed is what is sent. From a handle the header run has left, a \<open>dkim_eom_sign\<close> that
  answers OK has signed the digest of what was hashed of the headers followed by the canonical form,
  without the value of "b=", of the very header that \<open>dkim_getsighdr_d\<close> returns from then on (called
  with the width of "DKIM-Signature: "), and that header is complete.
\<close>
lemma sent_header:
  assumes mem: "\<forall>n. env_malloc e n" and rd: "sign_ready dk h b" and ok: "dkim_eom_sign s e dk = Some (DKIM_STAT_OK, dk')"
    and fit: "sign_fits e dk'"
    and rsa: "\<forall>nid d n. sg_keysize s (the (dkim_key dk)) = Some n \<longrightarrow> length (sg_rsa_sign s nid d (the (dkim_key dk))) \<in> {0, n}"
  shows "\<exists>dk''. dkim_getsighdr_d e dk' (length DKIM_SIGNHEADER + 2) = (DKIM_STAT_OK, sig_layout e dk' (the (dkim_b64sig dk')), dk'') \<and>
    canon_hash (dkim_canons dk' ! h) = sv_hash (sv_put (canon_view (dkim_canons dk ! h))
      (canon_sig (canon_canon (dkim_canons dk ! h)) (DKIM_SIGNHEADER @ '': '' @ sig_layout e dk' (the (dkim_b64sig dk'))))) \<and>
    dkim_b64sig dk' = Some (b64_ref (sg_rsa_sign s (sign_nid (dkim_siglist dk' ! 0))
      (canon_digest e (dkim_canons dk' ! h)) (the (dkim_key dk))))"
proof -
  obtain n sg c' where r: "sg = (dkim_siglist dk ! 0)\<lparr>sig_keytype := DKIM_KEYTYPE_RSA, sig_keybits := n * 8\<rparr>"
    "dkim_siglist dk' = [sg]" "dkim_canons dk' = (map canon_close (dkim_canons dk))[h := c']" "canon_done c'" "canon_hdr c'"
    "dkim_state dk' = DKIM_STATE_EOM2" "dkim_mode dk' = DKIM_MODE_SIGN" "dkim_signature dk' = Some 0" "hdrbuf_ok dk'"
    "dkim_b64sig dk' = Some (b64_ref (sg_rsa_sign s (sign_nid sg) (canon_digest e c') (the (dkim_key dk))))"
    "length (the (dkim_b64sig dk')) = BASE64SIZE n"
    "canon_hash c' = sv_hash (sv_put (canon_view (dkim_canons dk ! h))
      (signed_field (canon_canon (dkim_canons dk ! h)) (DKIM_SIGNHEADER @ '': '' @ sig_layout e dk' [])))"
    using eom_sign_run [OF mem rd ok fit rsa] by blast
  let ?sig = "sg_rsa_sign s (sign_nid sg) (canon_digest e c') (the (dkim_key dk))" and ?dg = "body_digest e dk'"
  have hb: "h < length (dkim_canons dk)" "b < length (dkim_canons dk)" "sig_bodycanon sg = Some b" "\<not> canon_hdr (dkim_canons dk ! b)"
    using rd r(1) by (simp_all add: sign_ready_def)
  have "canon_close c = c" if "c \<in> set (dkim_canons dk')" for c
    using that r(4) hb(1) by (auto simp: r(3) canon_close_def [of c'] dest!: set_update_subset_insert [THEN subsetD])
  then have closed: "body_closed dk' = dk'" by (intro body_closed_id) blast
  have sg0: "dkim_siglist dk' ! 0 = sg" and b64: "the (dkim_b64sig dk') = b64_ref ?sig" by (simp_all add: r(2,10))
  have fits: "tags_fit dk' sg ?dg" "tags_clean (sig_pairs dk' sg ?dg)"
    "length (pairs_text (sig_pairs dk' sg ?dg)) + 2 + length (b64_ref ?sig) < MAXBUFRSZ" "length (sig_layout e dk' (b64_ref ?sig)) < MAXBUFRSZ"
    using fit unfolding sign_fits_def Let_def sg0 b64 by blast+
  have lay: "sig_layout e dk' v = ops_text (layout (dkim_margin dk') sg (length DKIM_SIGNHEADER + 2) (sig_pieces dk' sg ?dg v))" for v
    by (simp add: sig_layout_def sg0)
  have strip: "strip_b NUL NUL ((DKIM_SIGNHEADER @ '': '') @ sig_layout e dk' (b64_ref ?sig)) = (DKIM_SIGNHEADER @ '': '') @ sig_layout e dk' []"
    unfolding lay using r(11) b64_text(3) by (intro sig_header_stripped [OF fits(2)]) (simp_all add: r(1) b64)
  have "h \<noteq> b" using rd hb(4) by (auto simp: sign_ready_def open_hdr_def)
  then have bdone: "canon_done (dkim_canons (body_closed dk') ! the (sig_bodycanon sg))"
    using hb by (simp add: closed r(3) canon_close_body)
  have sgd: "dkim_siglist dk' ! (case dkim_signature dk' of None \<Rightarrow> 0 | Some j \<Rightarrow> j) = sg" by (simp add: r(2,8))
  have dg: "?dg = canon_digest e (dkim_canons (body_closed dk') ! the (sig_bodycanon sg))" by (simp add: body_digest_def sg0 closed)
  have b: "b64_ref ?sig = (case dkim_b64sig dk' of None \<Rightarrow> [] | Some b \<Rightarrow> b)" by (simp add: r(10))
  obtain dk'' where get: "dkim_getsighdr_d e dk' (length DKIM_SIGNHEADER + 2) = (DKIM_STAT_OK, sig_layout e dk' (b64_ref ?sig), dk'')"
    using getsighdr_d_text [OF mem r(6,7) disjI2 [OF r(9)] sgd bdone dg b b64_text(2,1), unfolded closed, OF fits(1,3) lay fits(4)] by blast
  have ch: "dkim_canons dk' ! h = c'" using hb(1) by (simp add: r(3))
  have field: "signed_field alg (DKIM_SIGNHEADER @ '': '' @ sig_layout e dk' []) = canon_sig alg (DKIM_SIGNHEADER @ '': '' @ sig_layout e dk' (b64_ref ?sig))" for alg
    using strip by (simp add: signed_field_def canon_sig_def)
  show ?thesis unfolding b64 ch sg0 r(12) field using get r(10) by blast
qed

end
