(* ===== verification/Dkim_Signrun.thy ===== *)
theory Dkim_Signrun
  imports Dkim_Sign
begin

text \<open>
  What a signer hashes of the message header: \<open>dkim_eoh_sign\<close> builds the list of the field names that
  may be signed, selects the fields and hashes them. The lemmas show that a handle that
  \<open>dkim_eoh_sign\<close> accepts is ready for \<open>dkim_eom_sign\<close>, that "h=" names exactly the fields that were
  hashed, and so that a verifier that is given the message with the new header hashes the same bytes.
\<close>

subsection \<open>The list of names\<close>

definition field_name :: "header \<Rightarrow> string" where
  "field_name h = take (hdr_namelen h) (hdr_text h)"

definition name_ok :: "string \<Rightarrow> bool" where
  "name_ok n \<longleftrightarrow> n \<noteq> [] \<and> CHR '':'' \<notin> set n \<and> CHR '';'' \<notin> set n \<and> is_cstring n \<and> length n < DKIM_MAXHEADER \<and> \<not> isspace (last n)"

definition may_sign :: "env \<Rightarrow> dkim_lib \<Rightarrow> header \<Rightarrow> bool" where
  "may_sign e lib h \<longleftrightarrow> \<not> dkiml_signre lib \<or> env_hdrre e (field_name h)"

lemma colons_Cons: "colons (n # ns) = n @ h_text [] False ns"
  by (simp add: colons_def)

lemma h_text_snoc: "h_text [] False (ns @ [n]) = h_text [] False ns @ CHR '':'' # n"
  by (simp add: h_text_append)

lemma colons_snoc: "ns \<noteq> [] \<Longrightarrow> colons (ns @ [n]) = colons ns @ CHR '':'' # n"
  by (cases ns) (simp_all add: colons_Cons h_text_append)

lemma signed_names_text:
  assumes mem: "\<forall>n. env_malloc e n" and names: "\<forall>h\<in>set hs. hdr_wf h \<and> name_ok (field_name h)"
    and d: "ds_wf d" "ds_max d = MAXBUFRSZ" "ds_content d = colons ns" "\<forall>n\<in>set ns. name_ok n"
    and len: "length (colons (ns @ map field_name (filter (may_sign e lib) hs))) < MAXBUFRSZ"
  shows "ds_wf (signed_names e lib hs d) \<and> ds_max (signed_names e lib hs d) = MAXBUFRSZ \<and>
    ds_content (signed_names e lib hs d) = colons (ns @ map field_name (filter (may_sign e lib) hs))"
  using names d len
proof (induction hs arbitrary: d ns)
  case Nil
  then show ?case by simp
next
  case (Cons h hs)
  show ?case
  proof (cases "may_sign e lib h")
    case False
    then show ?thesis using Cons by (simp add: may_sign_def field_name_def)
  next
    case True
    have n: "name_ok (field_name h)" "hdr_namelen h \<le> length (hdr_text h)" "length (field_name h) = hdr_namelen h"
      using Cons.prems(1) by (auto simp: hdr_wf_def field_name_def)
    have "is_cstring (colons ns)"
    proof -
      have "is_cstring (h_text [] f ms)" if "\<forall>n\<in>set ms. name_ok n" for f ms
        using that by (induction "[] :: string" f ms rule: h_text.induct) (auto simp: name_ok_def)
      from this [OF Cons.prems(5), of False] show ?thesis unfolding colons_def
        by (cases "h_text [] False ns") auto
    qed
    then have get: "dkim_dstring_get d = colons ns" using ds_content_get [OF Cons.prems(2)] Cons.prems(4) by simp
    define d1 where "d1 = (if colons ns \<noteq> [] then emit (env_malloc e) d (Cat1 CHR '':'') else d)"
    define d2 where "d2 = snd (dkim_dstring_catn (env_malloc e) d1 (hdr_text h) (hdr_namelen h))"
    have ne: "colons ns \<noteq> [] \<longleftrightarrow> ns \<noteq> []" using Cons.prems(5) by (cases ns) (auto simp: colons_Cons name_ok_def, simp add: colons_def)
    have all: "colons (ns @ [field_name h]) = colons ns @ (if ns \<noteq> [] then '':'' else []) @ field_name h"
      using colons_snoc [of ns "field_name h"] by (cases "ns = []") (auto simp: colons_def)
    have "length (colons (ns @ [field_name h])) \<le> length (colons (ns @ map field_name (filter (may_sign e lib) (h # hs))))"
      using True by (cases ns) (simp_all add: colons_Cons h_text_append)
    then have len: "length (colons (ns @ [field_name h])) < MAXBUFRSZ" using Cons.prems(6) by simp
    have "ds_len d = length (colons ns)" using ds_content_len [OF Cons.prems(2)] Cons.prems(4) by simp
    then have d1: "ds_wf d1" "ds_max d1 = MAXBUFRSZ" "ds_content d1 = colons ns @ (if ns \<noteq> [] then '':'' else [])"
      using emit_append [OF mem Cons.prems(2,3), of "Cat1 CHR '':''"] Cons.prems(2-4) len all ne by (auto simp: d1_def)
    have "ds_len d1 + hdr_namelen h < MAXBUFRSZ" using ds_content_len [OF d1(1)] d1(3) len all n(3) by simp
    then have "fst (dkim_dstring_catn (env_malloc e) d1 (hdr_text h) (hdr_namelen h))"
      using mem d1(1,2) by (intro catn_succeeds) auto
    then have "dkim_dstring_catn (env_malloc e) d1 (hdr_text h) (hdr_namelen h) = (True, d2)" by (simp add: d2_def prod_eq_iff)
    then have d2: "ds_wf d2" "ds_max d2 = MAXBUFRSZ" "ds_content d2 = colons (ns @ [field_name h])"
      using catn_True [of _ d1 _ _ d2] d1 n(2) all by (auto simp: field_name_def)
    have "signed_names e lib (h # hs) d = signed_names e lib hs d2"
      using True get by (auto simp: may_sign_def field_name_def d1_def d2_def)
    then show ?thesis
      using Cons.IH [OF _ d2] Cons.prems(1,5,6) True n(1) by simp
  qed
qed

lemma strtok_colons:
  assumes "\<forall>n\<in>set ns. name_ok n"
  shows "strtok CHR '':'' (colons ns) = ns"
proof -
  have tail: "strtok CHR '':'' (h_text [] False ns) = ns" if "\<forall>n\<in>set ns. name_ok n" for ns
    using that
  proof (induction ns)
    case (Cons n ns)
    show ?case
    proof (cases ns)
      case Nil
      then show ?thesis using Cons.prems strtok_single [of "CHR '':''" n] by (simp add: name_ok_def strtok_def)
    next
      case (Cons m ms)
      then show ?thesis using Cons.prems Cons.IH strtok_append [of "CHR '':''" n "tl (h_text [] False ns)"]
        by (simp add: name_ok_def strtok_def)
    qed
  qed (simp add: strtok_def)
  have "strtok CHR '':'' (CHR '':'' # s) = strtok CHR '':'' s" for s by (simp add: strtok_def)
  then show ?thesis using tail [OF assms] assms by (cases ns) (auto simp: colons_def strtok_def)
qed

lemma hdr_trim_id: "name_ok n \<Longrightarrow> hdr_trim n = n"
proof -
  assume n: "name_ok n"
  then have r: "rev n = last n # rev (butlast n)" by (metis append_butlast_last_id name_ok_def rev_eq_Cons_iff rev_rev_ident)
  have "dropWhile (\<lambda>c. isascii c \<and> isspace c) (rev n) = rev n"
    using n unfolding r by (simp add: name_ok_def)
  moreover have "take DKIM_MAXHEADER n = n" using n by (simp add: name_ok_def)
  ultimately show ?thesis unfolding hdr_trim_def by simp
qed

lemma header_names_colons:
  assumes "\<forall>n\<in>set ns. name_ok n" "length (colons ns) < DKIM_MAXHEADER"
  shows "header_names (colons ns) = ns"
  using assms strtok_colons [OF assms(1)] hdr_trim_id by (simp add: header_names_def strlcpy_id map_idI)

subsection \<open>The fields that are selected\<close>

lemma picks_append: "picks hs prev (a @ b) = picks hs prev a @ picks hs (prev @ a) b"
  by (induction a arbitrary: prev) (simp_all add: Let_def)

lemma occurrences_append: "occurrences (a @ b) nm = occurrences a nm + occurrences b nm"
  by (simp add: occurrences_def)

lemma picks_nothing: "\<forall>nm\<in>set b. length (instances hs nm) \<le> occurrences prev nm \<Longrightarrow> picks hs prev b = []"
proof (induction b arbitrary: prev)
  case (Cons nm b)
  have "\<forall>m\<in>set b. length (instances hs m) \<le> occurrences (prev @ [nm]) m"
    using Cons.prems by (auto simp: occurrences_append intro: trans_le_add1)
  then show ?case using Cons.IH [of "prev @ [nm]"] Cons.prems by simp
qed simp

text \<open>The regular expression of the library is compiled to ignore case.\<close>

definition folds_case :: "(string \<Rightarrow> bool) \<Rightarrow> bool" where
  "folds_case re \<longleftrightarrow> (\<forall>a b. map tolower a = map tolower b \<longrightarrow> re a = re b)"

lemma hdr_key_name: "hdr_key h = map tolower (field_name h)"
  by (simp add: hdr_key_def field_name_def)

lemma may_sign_key:
  assumes "folds_case (env_hdrre e)" "hdr_key h = hdr_key h'"
  shows "may_sign e lib h = may_sign e lib h'"
proof -
  have "map tolower (field_name h) = map tolower (field_name h')" using assms(2) by (simp add: hdr_key_name)
  then have "env_hdrre e (field_name h) = env_hdrre e (field_name h')" using assms(1) unfolding folds_case_def by blast
  then show ?thesis by (simp add: may_sign_def)
qed

abbreviation sign_names :: "env \<Rightarrow> dkim_lib \<Rightarrow> header list \<Rightarrow> string list" where
  "sign_names e lib hs \<equiv> map field_name (filter (may_sign e lib) hs)"

lemma occurrences_signed:
  assumes "folds_case (env_hdrre e)"
  shows "occurrences (sign_names e lib hs) nm =
    (if \<exists>h\<in>set hs. hdr_key h = map tolower nm \<and> may_sign e lib h then length (instances hs nm) else 0)"
proof -
  have inst: "length (instances hs nm) = length (filter (\<lambda>h. hdr_key h = map tolower nm) hs)"
  proof -
    have "filter (\<lambda>h. hdr_key h = map tolower nm) hs = filter (\<lambda>h. hdr_key h = map tolower nm) (map ((!) hs) [0..<length hs])"
      by (simp only: map_nth)
    also have "\<dots> = map ((!) hs) (filter ((\<lambda>h. hdr_key h = map tolower nm) \<circ> (!) hs) [0..<length hs])"
      by (rule filter_map)
    finally show ?thesis by (simp only: instances_def length_rev length_map o_def)
  qed
  have occ: "occurrences (sign_names e lib hs) nm = length (filter (\<lambda>h. may_sign e lib h \<and> hdr_key h = map tolower nm) hs)"
    by (simp add: occurrences_def filter_map o_def strcaseeq_def hdr_key_name)
  show ?thesis
  proof (cases "\<exists>h\<in>set hs. hdr_key h = map tolower nm \<and> may_sign e lib h")
    case True
    then obtain h where h: "hdr_key h = map tolower nm" "may_sign e lib h" by blast
    then have "filter (\<lambda>h. may_sign e lib h \<and> hdr_key h = map tolower nm) hs = filter (\<lambda>h. hdr_key h = map tolower nm) hs"
      using may_sign_key [OF assms, of _ h] by (intro filter_cong refl) (metis h)
    then show ?thesis using True inst occ by simp
  next
    case False
    then have "filter (\<lambda>h. may_sign e lib h \<and> hdr_key h = map tolower nm) hs = []" by (auto simp: filter_empty_conv)
    then have "occurrences (sign_names e lib hs) nm = 0" using occ by simp
    then show ?thesis unfolding if_not_P [OF False] .
  qed
qed

text \<open>What the header run of a signer does to the header canonicalization.\<close>

definition sel_text :: "int \<Rightarrow> header list \<Rightarrow> string list \<Rightarrow> string" where
  "sel_text alg hs names = concat (map (\<lambda>i. canon_field alg (hs ! i) @ CRLF) (picks hs [] names))"

text \<open>The selection flags exactly the fields that may be signed.\<close>

lemma selecthdrs_flags:
  assumes mem: "\<forall>n. env_malloc e n" and wf: "\<forall>h\<in>set (dkim_hdrs dk). hdr_wf h" and re: "folds_case (env_hdrre e)"
    and nm: "header_names l = sign_names e lib (dkim_hdrs dk)"
  shows "\<exists>hs' oob b. dkim_canon_selecthdrs e dk (Some l) (length (dkim_hdrs dk)) =
      (Some (picks (dkim_hdrs dk) [] (header_names l)), oob, dk\<lparr>dkim_hdrlist_buf := b, dkim_hdrs := hs'\<rparr>) \<and>
    map hdr_bare hs' = map hdr_bare (dkim_hdrs dk) \<and>
    (\<forall>i\<in>set (picks (dkim_hdrs dk) [] (header_names l)). hdr_signed (hs' ! i)) \<and>
    (\<forall>i<length (dkim_hdrs dk). hdr_signed (hs' ! i) = may_sign e lib (dkim_hdrs dk ! i))"
proof -
  let ?hs = "dkim_hdrs dk" and ?toks = "strtok (CHR '':'') (strlcpy l DKIM_MAXHEADER)"
  obtain hs' oob' where sel: "select_loop (map clear_signed ?hs) [] False ?toks = (hs', picks ?hs [] (header_names l), oob')"
    and inv: "sel_inv ?hs hs' (header_names l)"
    using select_loop_picks [OF sel_inv_init [OF wf], of "[]" False ?toks] by (auto simp: header_names_def)
  obtain hs2 oob b where v: "dkim_canon_selecthdrs e dk (Some l) (length ?hs) =
      (Some (picks ?hs [] (header_names l)), oob, dk\<lparr>dkim_hdrlist_buf := b, dkim_hdrs := hs2\<rparr>)"
    "map hdr_bare hs2 = map hdr_bare ?hs" "\<forall>i\<in>set (picks ?hs [] (header_names l)). hdr_signed (hs2 ! i)"
    using selecthdrs_verify [OF mem wf order_refl, of l] by blast
  have "dkim_hdrs (snd (snd (dkim_canon_selecthdrs e dk (Some l) (length ?hs)))) = hs'"
    using sel mem by (simp add: dkim_canon_selecthdrs_def clear_signed_def [abs_def] Let_def)
  then have hs2: "hs2 = hs'" unfolding v(1) by simp
  have "hdr_signed (hs' ! i) = may_sign e lib (?hs ! i)" if i: "i < length ?hs" for i
  proof -
    let ?nm = "field_name (?hs ! i)"
    have inst: "i \<in> set (instances ?hs ?nm)" using i by (simp add: instances_props hdr_key_name)
    then have s: "hdr_signed (hs' ! i) \<longleftrightarrow> i \<in> set (take (occurrences (header_names l) ?nm) (instances ?hs ?nm))"
      using inv by (simp add: sel_inv_def)
    show ?thesis
    proof (cases "may_sign e lib (?hs ! i)")
      case True
      then have "\<exists>h\<in>set ?hs. hdr_key h = map tolower ?nm \<and> may_sign e lib h" using i by (metis hdr_key_name nth_mem)
      then have "occurrences (header_names l) ?nm = length (instances ?hs ?nm)" unfolding nm occurrences_signed [OF re] by (rule if_P)
      then show ?thesis using s inst True by simp
    next
      case False
      then have "\<not> (\<exists>h\<in>set ?hs. hdr_key h = map tolower ?nm \<and> may_sign e lib h)"
        using may_sign_key [OF re, of _ "?hs ! i" lib] by (metis hdr_key_name)
      then have "occurrences (header_names l) ?nm = 0" unfolding nm occurrences_signed [OF re] by (rule if_not_P)
      then show ?thesis using s False by simp
    qed
  qed
  then show ?thesis using v unfolding hs2 by blast
qed

lemma small_bare: "hdr_bare h = hdr_bare h' \<Longrightarrow> small_hdr h = small_hdr h'"
  using hdr_bare_eq [of h h'] by (simp add: small_hdr_def)

definition headers_ok :: "header list \<Rightarrow> bool" where
  "headers_ok hs \<longleftrightarrow> (\<forall>h\<in>set hs. small_hdr h \<and> name_ok (field_name h))"

lemma run_round_sign_eq:
  assumes "dkim_canons (rs_dkim rs) ! i = cur" "open_hdr cur"
    "signed_names e (dkim_libhandle (rs_dkim rs)) (dkim_hdrs (rs_dkim rs)) (the (dkim_hdrbuf (rs_dkim rs))) = d"
    "dkim_canon_selecthdrs e ((rs_dkim rs)\<lparr>dkim_hdrbuf := Some d\<rparr>) (Some (dkim_dstring_get d)) (length (dkim_hdrs (rs_dkim rs))) = (Some hdrset, oob, dk2)"
    "canon_selected e dk2 cur hdrset = (DKIM_STAT_OK, dk3, c')"
  shows "run_round e True i rs =
    (DKIM_STAT_OK, \<lparr>rs_dkim = dk3\<lparr>dkim_canons := (dkim_canons dk3)[i := c']\<rparr>, rs_hdrset = hdrset, rs_last = rs_last rs\<rparr>)"
  using assms by (simp add: run_round_def Let_def open_hdr_def)

lemma run_round_signing:
  assumes mem: "\<forall>n. env_malloc e n" and ok: "headers_ok (dkim_hdrs (rs_dkim rs))" and re: "folds_case (env_hdrre e)"
    and nm: "names = sign_names e (dkim_libhandle (rs_dkim rs)) (dkim_hdrs (rs_dkim rs))" "length (colons names) < DKIM_MAXHEADER"
    and c: "dkim_canons (rs_dkim rs) = c # cs" "open_hdr c" "canon_wf c" and cb: "canonbuf_ok (rs_dkim rs)"
    and hb: "dkim_hdrbuf (rs_dkim rs) = Some d" "ds_wf d" "ds_max d = MAXBUFRSZ" "ds_content d = []"
  obtains rs' c' hs' d' b cb' where "run_round e True 0 rs = (DKIM_STAT_OK, rs')"
    "rs_dkim rs' = (rs_dkim rs)\<lparr>dkim_hdrbuf := Some d', dkim_hdrlist_buf := b, dkim_hdrs := hs', dkim_canonbuf := cb', dkim_canons := c' # cs\<rparr>"
    "ds_wf d'" "ds_max d' = MAXBUFRSZ" "canonbuf_ok (rs_dkim rs')" "canon_wf c'" "kept c' = kept c"
    "canon_view c' = sv_put (canon_view c) (sel_text (canon_canon c) (dkim_hdrs (rs_dkim rs)) names)"
    "map hdr_bare hs' = map hdr_bare (dkim_hdrs (rs_dkim rs))"
    "\<forall>i<length hs'. hdr_signed (hs' ! i) = may_sign e (dkim_libhandle (rs_dkim rs)) (dkim_hdrs (rs_dkim rs) ! i)"
proof -
  let ?dk = "rs_dkim rs" let ?hs = "dkim_hdrs ?dk" and ?lib = "dkim_libhandle ?dk"
  define d' where "d' = signed_names e ?lib ?hs d"
  have names: "\<forall>h\<in>set ?hs. hdr_wf h \<and> name_ok (field_name h)" using ok by (simp add: headers_ok_def small_hdr_def)
  have len: "length (colons ([] @ sign_names e ?lib ?hs)) < MAXBUFRSZ" using nm by simp
  have d': "ds_wf d'" "ds_max d' = MAXBUFRSZ" "ds_content d' = colons names"
    using signed_names_text [OF mem names hb(2,3) _ _ len] hb(4) nm(1) by (simp_all add: d'_def colons_def)
  have nok: "\<forall>n\<in>set names. name_ok n" using names nm(1) by auto
  have "is_cstring (h_text [] f ms)" if "\<forall>n\<in>set ms. name_ok n" for f ms
    using that by (induction "[] :: string" f ms rule: h_text.induct) (auto simp: name_ok_def)
  from this [OF nok, of False] have "is_cstring (colons names)" unfolding colons_def by (cases "h_text [] False names") auto
  then have get: "dkim_dstring_get d' = colons names" using ds_content_get [OF d'(1)] d'(3) by simp
  define dk1 where "dk1 = ?dk\<lparr>dkim_hdrbuf := Some d'\<rparr>"
  have hn: "header_names (colons names) = names" by (rule header_names_colons [OF nok nm(2)])
  have hdk1: "dkim_hdrs dk1 = ?hs" by (simp add: dk1_def)
  have "\<forall>h\<in>set (dkim_hdrs dk1). hdr_wf h" using names by (simp add: dk1_def)
  moreover have "header_names (colons names) = sign_names e ?lib (dkim_hdrs dk1)"
    unfolding hn using nm(1) by (simp add: dk1_def)
  ultimately obtain hs' oob b where sel:
    "dkim_canon_selecthdrs e dk1 (Some (colons names)) (length ?hs) = (Some (picks ?hs [] names), oob, dk1\<lparr>dkim_hdrlist_buf := b, dkim_hdrs := hs'\<rparr>)"
    "map hdr_bare hs' = map hdr_bare ?hs" "\<forall>i\<in>set (picks ?hs [] names). hdr_signed (hs' ! i)"
    "\<forall>i<length ?hs. hdr_signed (hs' ! i) = may_sign e ?lib (?hs ! i)"
    using selecthdrs_flags [OF mem _ re, of dk1 "colons names" ?lib] unfolding hn hdk1 by blast
  have lhs: "length hs' = length ?hs" using sel(2) by (metis length_map)
  define dk2 where "dk2 = dk1\<lparr>dkim_hdrlist_buf := b, dkim_hdrs := hs'\<rparr>"
  have pick: "\<forall>i\<in>set (picks ?hs [] names). hdr_signed (dkim_hdrs dk2 ! i) \<and> small_hdr (dkim_hdrs dk2 ! i)"
  proof
    fix i assume i: "i \<in> set (picks ?hs [] names)"
    then have il: "i < length ?hs" by (rule picks_in)
    then have "small_hdr (?hs ! i)" using ok by (simp add: headers_ok_def)
    then show "hdr_signed (dkim_hdrs dk2 ! i) \<and> small_hdr (dkim_hdrs dk2 ! i)"
      using sel(3) i small_bare [OF bare_nth [OF sel(2), of i]] il lhs by (simp add: dk2_def)
  qed
  have "canonbuf_ok dk2" using cb by (simp add: dk2_def dk1_def canonbuf_ok_def)
  from canon_selected_ok [OF mem pick this c(3)] obtain cb' c' where can:
    "canon_selected e dk2 c (picks ?hs [] names) = (DKIM_STAT_OK, dk2\<lparr>dkim_canonbuf := cb'\<rparr>, c')"
    "canonbuf_ok (dk2\<lparr>dkim_canonbuf := cb'\<rparr>)" "canon_wf c'" "kept c' = kept c"
    "canon_view c' = sv_put (canon_view c) (concat (map (\<lambda>i. canon_field (canon_canon c) (dkim_hdrs dk2 ! i) @ CRLF) (picks ?hs [] names)))"
    by blast
  have same: "map (\<lambda>i. canon_field (canon_canon c) (dkim_hdrs dk2 ! i) @ CRLF) (picks ?hs [] names) =
      map (\<lambda>i. canon_field (canon_canon c) (?hs ! i) @ CRLF) (picks ?hs [] names)"
  proof (rule map_cong [OF refl])
    fix i assume "i \<in> set (picks ?hs [] names)"
    then have "i < length ?hs" by (rule picks_in)
    then show "canon_field (canon_canon c) (dkim_hdrs dk2 ! i) @ CRLF = canon_field (canon_canon c) (?hs ! i) @ CRLF"
      using canon_field_bare [OF bare_nth [OF sel(2), of i]] lhs by (simp add: dk2_def)
  qed
  have view: "canon_view c' = sv_put (canon_view c) (sel_text (canon_canon c) ?hs names)"
    unfolding can(5) sel_text_def same ..
  define dk3 where "dk3 = dk2\<lparr>dkim_canonbuf := cb'\<rparr>"
  have cs3: "(dkim_canons dk3)[0 := c'] = c' # cs" by (simp add: dk3_def dk2_def dk1_def c(1))
  define rs' where "rs' = \<lparr>rs_dkim = dk3\<lparr>dkim_canons := c' # cs\<rparr>, rs_hdrset = picks ?hs [] names, rs_last = rs_last rs\<rparr>"
  have c0: "dkim_canons ?dk ! 0 = c" by (simp add: c(1))
  have sn: "signed_names e ?lib ?hs (the (dkim_hdrbuf ?dk)) = d'" by (simp add: d'_def hb(1))
  have run: "run_round e True 0 rs = (DKIM_STAT_OK, rs')"
    unfolding rs'_def cs3 [symmetric]
    by (rule run_round_sign_eq [OF c0 c(2) sn]) (unfold get dk1_def [symmetric] dk3_def, rule sel(1) [folded dk2_def], rule can(1))
  have dkr: "rs_dkim rs' = ?dk\<lparr>dkim_hdrbuf := Some d', dkim_hdrlist_buf := b, dkim_hdrs := hs', dkim_canonbuf := cb', dkim_canons := c' # cs\<rparr>"
    by (simp add: rs'_def dk3_def dk2_def dk1_def)
  have cbr: "canonbuf_ok (rs_dkim rs')" using can(2) by (simp add: rs'_def dk3_def canonbuf_ok_def)
  have flags: "\<forall>i<length hs'. hdr_signed (hs' ! i) = may_sign e ?lib (?hs ! i)" using sel(4) lhs by simp
  show thesis by (rule that [OF run dkr d'(1,2) cbr can(3,4) view sel(2) flags])
qed

lemma runheaders_signing:
  assumes mem: "\<forall>n. env_malloc e n" and ok: "headers_ok (dkim_hdrs dk)" and re: "folds_case (env_hdrre e)"
    and nm: "names = sign_names e (dkim_libhandle dk) (dkim_hdrs dk)" "length (colons names) < DKIM_MAXHEADER"
    and c: "dkim_canons dk = [c, c1]" "open_hdr c" "canon_wf c" "\<not> canon_hdr c1" and cb: "canonbuf_ok dk"
    and hb: "dkim_hdrbuf dk = None \<or> hdrbuf_ok dk"
  obtains c' hs' d' b cb' where
    "dkim_canon_runheaders e dk True =
      (DKIM_STAT_OK, dk\<lparr>dkim_hdrbuf := Some d', dkim_hdrlist_buf := b, dkim_hdrs := hs', dkim_canonbuf := cb', dkim_canons := [c', c1]\<rparr>)"
    "ds_wf d'" "ds_max d' = MAXBUFRSZ" "canonbuf_ok (dk\<lparr>dkim_canonbuf := cb'\<rparr>)" "canon_wf c'" "kept c' = kept c"
    "canon_view c' = sv_put (canon_view c) (sel_text (canon_canon c) (dkim_hdrs dk) names)"
    "map hdr_bare hs' = map hdr_bare (dkim_hdrs dk)"
    "\<forall>i<length hs'. hdr_signed (hs' ! i) = may_sign e (dkim_libhandle dk) (dkim_hdrs dk ! i)"
proof -
  obtain d where d: "(case dkim_hdrbuf dk of None \<Rightarrow> dkim_dstring_new (env_malloc e) (int BUFRSZ) (int MAXBUFRSZ)
      | Some d \<Rightarrow> Some (dkim_dstring_blank d)) = Some d" "ds_wf d" "ds_max d = MAXBUFRSZ" "ds_content d = []"
  proof (cases "dkim_hdrbuf dk")
    case None
    obtain d where "dkim_dstring_new (env_malloc e) (int BUFRSZ) (int MAXBUFRSZ) = Some d"
      using mem by (simp add: dkim_dstring_new_def Let_def)
    then show ?thesis using that None new_wf by fastforce
  next
    case (Some d0)
    then have "ds_wf d0" "ds_max d0 = MAXBUFRSZ" using hb by (auto simp: hdrbuf_ok_def)
    then show ?thesis using that [of "dkim_dstring_blank d0"] Some blank_wf [of d0] by (simp add: blank_max)
  qed
  define rs where "rs = \<lparr>rs_dkim = dk\<lparr>dkim_hdrbuf := Some d\<rparr>, rs_hdrset = [], rs_last = NUL\<rparr>"
  have r: "headers_ok (dkim_hdrs (rs_dkim rs))" "names = sign_names e (dkim_libhandle (rs_dkim rs)) (dkim_hdrs (rs_dkim rs))"
    "dkim_canons (rs_dkim rs) = c # [c1]" "canonbuf_ok (rs_dkim rs)" "dkim_hdrbuf (rs_dkim rs) = Some d"
    using ok nm(1) c(1) cb by (simp_all add: rs_def canonbuf_ok_def)
  obtain rs' c' hs' d' b cb' where x: "run_round e True 0 rs = (DKIM_STAT_OK, rs')"
    "rs_dkim rs' = (rs_dkim rs)\<lparr>dkim_hdrbuf := Some d', dkim_hdrlist_buf := b, dkim_hdrs := hs', dkim_canonbuf := cb', dkim_canons := c' # [c1]\<rparr>"
    "ds_wf d'" "ds_max d' = MAXBUFRSZ" "canonbuf_ok (rs_dkim rs')" "canon_wf c'" "kept c' = kept c"
    "canon_view c' = sv_put (canon_view c) (sel_text (canon_canon c) (dkim_hdrs (rs_dkim rs)) names)"
    "map hdr_bare hs' = map hdr_bare (dkim_hdrs (rs_dkim rs))"
    "\<forall>i<length hs'. hdr_signed (hs' ! i) = may_sign e (dkim_libhandle (rs_dkim rs)) (dkim_hdrs (rs_dkim rs) ! i)"
    by (rule run_round_signing [OF mem r(1) re r(2) nm(2) r(3) c(2,3) r(4,5) d(2-4)])
  have two: "run_round e True 1 rs' = (DKIM_STAT_OK, rs')" by (simp add: run_round_def Let_def x(2) c(4))
  have "[0..<length (dkim_canons dk)] = [0, 1]" using c(1) by (simp add: upt_rec)
  then have run: "dkim_canon_runheaders e dk True = (DKIM_STAT_OK, rs_dkim rs')"
    unfolding dkim_canon_runheaders_def d(1) using mem x(1) two by (simp add: rs_def)
  have dkr: "rs_dkim rs' = dk\<lparr>dkim_hdrbuf := Some d', dkim_hdrlist_buf := b, dkim_hdrs := hs', dkim_canonbuf := cb', dkim_canons := [c', c1]\<rparr>"
    unfolding x(2) by (simp add: rs_def)
  have f: "canonbuf_ok (dk\<lparr>dkim_canonbuf := cb'\<rparr>)" "canon_view c' = sv_put (canon_view c) (sel_text (canon_canon c) (dkim_hdrs dk) names)"
    "map hdr_bare hs' = map hdr_bare (dkim_hdrs dk)" "\<forall>i<length hs'. hdr_signed (hs' ! i) = may_sign e (dkim_libhandle dk) (dkim_hdrs dk ! i)"
    using x(5,8-10) unfolding dkr by (simp_all add: rs_def canonbuf_ok_def)
  show thesis by (rule that [OF run [unfolded dkr] x(3,4) f(1) x(6,7) f(2-4)])
qed

subsection \<open>The end of the header\<close>

text \<open>A handle for signing to which headers were given.\<close>

definition sign_fresh :: "dkim \<Rightarrow> bool" where
  "sign_fresh dk \<longleftrightarrow> dkim_mode dk = DKIM_MODE_SIGN \<and> dkim_state dk < DKIM_STATE_EOH2 \<and> dkim_canons dk = [] \<and>
     dkim_b64sig dk = None \<and> dkim_signature dk = None \<and> canonbuf_ok dk \<and> (dkim_hdrbuf dk = None \<or> hdrbuf_ok dk) \<and>
     dkim_hdrcanonalg dk \<in> {DKIM_CANON_SIMPLE, DKIM_CANON_RELAXED} \<and> dkim_bodycanonalg dk \<in> {DKIM_CANON_SIMPLE, DKIM_CANON_RELAXED} \<and>
     dkim_signalg dk \<in> {DKIM_SIGN_RSASHA1, DKIM_SIGN_RSASHA256} \<and> headers_ok (dkim_hdrs dk)"

definition started :: "canon \<Rightarrow> canon" where
  "started c = c\<lparr>canon_hashbuf := [], canon_hashbufsize := DKIM_HASHBUFSIZE, canon_hash := []\<rparr>"

definition sign_start :: "env \<Rightarrow> dkim \<Rightarrow> int \<Rightarrow> dkim" where
  "sign_start e dk hashtype = dk\<lparr>dkim_state := DKIM_STATE_EOH2, dkim_sigcount := 1,
     dkim_canons := [started (new_canon True (dkim_hdrcanonalg dk) hashtype None None 0),
       started (new_canon False (dkim_bodycanonalg dk) hashtype None None (dkim_signlen dk))],
     dkim_siglist := [siginfo0\<lparr>sig_domain := dkim_domain dk, sig_selector := dkim_selector dk,
       sig_hashtype := hashtype, sig_signalg := dkim_signalg dk, sig_hdrcanon := Some 0, sig_hdrcanonalg := dkim_hdrcanonalg dk,
       sig_bodycanon := Some 1, sig_bodycanonalg := dkim_bodycanonalg dk, sig_timestamp := of_int (sign_time e dk)\<rparr>]\<rparr>"

lemma init_started:
  "\<forall>n. env_malloc e n \<Longrightarrow> (t \<Longrightarrow> st = DKIM_STAT_OK) \<Longrightarrow> canon_init_loop e t st cs = (DKIM_STAT_OK, map started cs)"
  by (induction cs) (auto simp: started_def Let_def)

lemma eoh_sign_start:
  assumes mem: "\<forall>n. env_malloc e n" and fr: "sign_fresh dk" and req: "required_present (dkim_hdrs dk)"
    and tmp: "lib_flag dk DKIM_LIBFLAGS_TMPFILES \<Longrightarrow> sg_tmpfile s = DKIM_STAT_OK" and ht: "sign_hashtype (dkim_signalg dk) = Some hashtype"
  shows "dkim_eoh_sign s e dk = Some (dkim_canon_runheaders e (sign_start e dk hashtype) True)"
proof -
  let ?dk = "dk\<lparr>dkim_state := DKIM_STATE_EOH2\<rparr>"
  have f: "dkim_state dk < DKIM_STATE_EOH2" "dkim_canons dk = []" using fr by (simp_all add: sign_fresh_def)
  define dk1 where "dk1 = snd (sign_canons e ?dk hashtype)"
  have can: "sign_canons e ?dk hashtype = (DKIM_STAT_OK, dk1)"
    using mem f(2) by (simp add: dk1_def sign_canons_def dkim_add_canon_def new_canon_def Let_def)
  have dk1: "dk1 = (sign_start e dk hashtype)\<lparr>dkim_canons := [new_canon True (dkim_hdrcanonalg dk) hashtype None None 0,
       new_canon False (dkim_bodycanonalg dk) hashtype None None (dkim_signlen dk)]\<rparr>"
    using mem f(2) by (simp add: dk1_def sign_canons_def dkim_add_canon_def new_canon_def Let_def sign_start_def sign_time_def)
  have lib: "dkim_libhandle dk1 = dkim_libhandle dk" by (simp add: dk1 sign_start_def)
  have init: "dkim_canon_init e dk1 (lib_flag dk1 DKIM_LIBFLAGS_TMPFILES) (sg_tmpfile s) = (DKIM_STAT_OK, sign_start e dk hashtype)"
    using init_started [OF mem, of "lib_flag dk DKIM_LIBFLAGS_TMPFILES" "sg_tmpfile s"] tmp
    by (simp add: dkim_canon_init_def lib) (simp add: dk1 sign_start_def)
  show ?thesis
    unfolding dkim_eoh_sign_def Let_def using f(1) mem req ht can init by simp
qed

lemma sv_init_put: "sv_hash (sv_put (sv_put (sv_init (- 1)) a) b) = a @ b"
  by (simp add: sv_init_def sv_put_def Let_def)

lemma sign_hashtype_cases:
  "signalg \<in> {DKIM_SIGN_RSASHA1, DKIM_SIGN_RSASHA256} \<Longrightarrow>
   \<exists>ht. sign_hashtype signalg = Some ht \<and> ht \<in> {DKIM_HASHTYPE_SHA1, DKIM_HASHTYPE_SHA256}"
  by (auto simp: sign_hashtype_def)

text \<open>What \<open>dkim_eoh_sign\<close> leaves in a handle it accepts.\<close>

definition headers_run :: "env \<Rightarrow> dkim \<Rightarrow> dkim \<Rightarrow> bool" where
  "headers_run e dk dk' \<longleftrightarrow> sign_ready dk' 0 1 \<and> canon_canon (dkim_canons dk' ! 0) = dkim_hdrcanonalg dk \<and>
     canon_view (dkim_canons dk' ! 0) = sv_put (sv_init (- 1))
       (sel_text (dkim_hdrcanonalg dk) (dkim_hdrs dk) (sign_names e (dkim_libhandle dk) (dkim_hdrs dk))) \<and>
     map hdr_bare (dkim_hdrs dk') = map hdr_bare (dkim_hdrs dk) \<and> dkim_libhandle dk' = dkim_libhandle dk \<and>
     dkim_key dk' = dkim_key dk \<and> length (dkim_canons dk') = 2 \<and>
     (\<forall>i<length (dkim_hdrs dk'). hdr_signed (dkim_hdrs dk' ! i) = may_sign e (dkim_libhandle dk) (dkim_hdrs dk ! i)) \<and>
     (let st = sign_start e dk (the (sign_hashtype (dkim_signalg dk))) in
      dk' = st\<lparr>dkim_hdrbuf := dkim_hdrbuf dk', dkim_hdrlist_buf := dkim_hdrlist_buf dk', dkim_hdrs := dkim_hdrs dk',
        dkim_canonbuf := dkim_canonbuf dk', dkim_canons := [dkim_canons dk' ! 0, dkim_canons st ! 1]\<rparr>)"

lemma eoh_sign_headers:
  assumes mem: "\<forall>n. env_malloc e n" and fr: "sign_fresh dk" and req: "required_present (dkim_hdrs dk)" and re: "folds_case (env_hdrre e)"
    and tmp: "lib_flag dk DKIM_LIBFLAGS_TMPFILES \<Longrightarrow> sg_tmpfile s = DKIM_STAT_OK"
    and len: "length (colons (sign_names e (dkim_libhandle dk) (dkim_hdrs dk))) < DKIM_MAXHEADER"
  shows "\<exists>dk'. dkim_eoh_sign s e dk = Some (DKIM_STAT_OK, dk') \<and> headers_run e dk dk'"
proof -
  have f: "dkim_mode dk = DKIM_MODE_SIGN" "dkim_b64sig dk = None" "dkim_signature dk = None" "canonbuf_ok dk"
    "dkim_hdrbuf dk = None \<or> hdrbuf_ok dk" "dkim_hdrcanonalg dk \<in> {DKIM_CANON_SIMPLE, DKIM_CANON_RELAXED}"
    "dkim_signalg dk \<in> {DKIM_SIGN_RSASHA1, DKIM_SIGN_RSASHA256}" "headers_ok (dkim_hdrs dk)"
    using fr unfolding sign_fresh_def by blast+
  obtain ht where ht: "sign_hashtype (dkim_signalg dk) = Some ht" "ht \<in> {DKIM_HASHTYPE_SHA1, DKIM_HASHTYPE_SHA256}"
    using sign_hashtype_cases [OF f(7)] by blast
  define c where "c = started (new_canon True (dkim_hdrcanonalg dk) ht None None 0)"
  define c1 where "c1 = started (new_canon False (dkim_bodycanonalg dk) ht None None (dkim_signlen dk))"
  let ?st = "sign_start e dk ht"
  have c: "open_hdr c" "canon_wf c" "\<not> canon_hdr c1" "canon_canon c = dkim_hdrcanonalg dk" "canon_view c = sv_init (- 1)"
    using ht(2) by (auto simp: c_def c1_def started_def new_canon_def open_hdr_def canon_wf_def canon_view_def canon_raw_def sv_put_def sv_init_def)
  have st: "headers_ok (dkim_hdrs ?st)" "dkim_libhandle ?st = dkim_libhandle dk" "dkim_hdrs ?st = dkim_hdrs dk" "dkim_canons ?st = [c, c1]"
    "canonbuf_ok ?st" "dkim_hdrbuf ?st = None \<or> hdrbuf_ok ?st"
    using f(4,5,8) by (simp_all add: sign_start_def c_def c1_def canonbuf_ok_def hdrbuf_ok_def)
  have nm: "sign_names e (dkim_libhandle dk) (dkim_hdrs dk) = sign_names e (dkim_libhandle ?st) (dkim_hdrs ?st)" by (simp add: st)
  obtain c' hs' d' b cb' where r: "dkim_canon_runheaders e ?st True =
      (DKIM_STAT_OK, ?st\<lparr>dkim_hdrbuf := Some d', dkim_hdrlist_buf := b, dkim_hdrs := hs', dkim_canonbuf := cb', dkim_canons := [c', c1]\<rparr>)"
    "ds_wf d'" "ds_max d' = MAXBUFRSZ" "canonbuf_ok (?st\<lparr>dkim_canonbuf := cb'\<rparr>)" "canon_wf c'" "kept c' = kept c"
    "canon_view c' = sv_put (canon_view c) (sel_text (canon_canon c) (dkim_hdrs ?st) (sign_names e (dkim_libhandle dk) (dkim_hdrs dk)))"
    "map hdr_bare hs' = map hdr_bare (dkim_hdrs ?st)"
    "\<forall>i<length hs'. hdr_signed (hs' ! i) = may_sign e (dkim_libhandle ?st) (dkim_hdrs ?st ! i)"
    by (rule runheaders_signing [OF mem st(1) re nm len st(4) c(1-3) st(5,6)])
  define dk' where "dk' = ?st\<lparr>dkim_hdrbuf := Some d', dkim_hdrlist_buf := b, dkim_hdrs := hs', dkim_canonbuf := cb', dkim_canons := [c', c1]\<rparr>"
  have k: "open_hdr c'" "canon_canon c' = dkim_hdrcanonalg dk" using r(6) c(1,4) by (auto simp: kept_def open_hdr_def)
  have cs: "dkim_canons dk' = [c', c1]" by (simp add: dk'_def)
  have fields: "dkim_mode dk' = DKIM_MODE_SIGN" "dkim_b64sig dk' = None" "dkim_signature dk' = None" "length (dkim_siglist dk') = 1"
    "sig_hdrcanon (dkim_siglist dk' ! 0) = Some 0" "sig_bodycanon (dkim_siglist dk' ! 0) = Some 1" "dkim_libhandle dk' = dkim_libhandle dk"
    "dkim_key dk' = dkim_key dk" "dkim_hdrs dk' = hs'"
    using f(1-3) by (simp_all add: dk'_def sign_start_def)
  have bufs: "canonbuf_ok dk'" "hdrbuf_ok dk'" using r(2-4) by (simp_all add: dk'_def canonbuf_ok_def hdrbuf_ok_def)
  have one: "\<forall>i<length (dkim_canons dk'). open_hdr (dkim_canons dk' ! i) \<longleftrightarrow> i = 0"
    using k(1) c(3) by (auto simp: cs less_Suc_eq open_hdr_def)
  have "sign_ready dk' 0 1"
    unfolding sign_ready_def using fields bufs one r(5) k(2) f(6) c(3) by (simp add: cs)
  moreover have "dk' = ?st\<lparr>dkim_hdrbuf := dkim_hdrbuf dk', dkim_hdrlist_buf := dkim_hdrlist_buf dk', dkim_hdrs := dkim_hdrs dk',
        dkim_canonbuf := dkim_canonbuf dk', dkim_canons := [dkim_canons dk' ! 0, dkim_canons ?st ! 1]\<rparr>"
    by (simp add: dk'_def st(4))
  ultimately have "headers_run e dk dk'"
    unfolding headers_run_def ht(1) option.sel Let_def using r(7-9) fields k(2) c(4,5) st(2,3) by (simp add: cs)
  then show ?thesis using eoh_sign_start [OF mem fr req tmp ht(1)] r(1) unfolding dk'_def by auto
qed

subsection \<open>What a verifier of the message hashes\<close>

lemma hdr_name_field: "hdr_wf h \<Longrightarrow> name_ok (field_name h) \<Longrightarrow> hdr_name h = field_name h"
proof -
  assume wf: "hdr_wf h" and ok: "name_ok (field_name h)"
  have "length (field_name h) = hdr_namelen h" using wf by (simp add: field_name_def hdr_wf_def)
  then have "min DKIM_MAXHEADER (hdr_namelen h) = hdr_namelen h" using ok by (simp add: name_ok_def)
  then show ?thesis using ok cstr_id [of "field_name h"] unfolding hdr_name_def by (simp add: field_name_def name_ok_def)
qed

lemma flagged_names:
  assumes "length hs' = length hs" "map hdr_bare hs' = map hdr_bare hs" "\<forall>i<length hs'. hdr_signed (hs' ! i) = P (hs ! i)"
    "\<forall>h\<in>set hs. hdr_wf h \<and> name_ok (field_name h)"
  shows "map hdr_name (filter hdr_signed hs') = map field_name (filter P hs)"
  using assms
proof (induction rule: list_induct2)
  case (Cons h' hs' h hs)
  have b: "hdr_bare h' = hdr_bare h" and f: "hdr_signed h' = P h" using Cons.prems(1,2) by auto
  have "hdr_name h' = hdr_name h" using hdr_bare_eq [OF b] by (simp add: hdr_name_def)
  then have "hdr_name h' = field_name h" using hdr_name_field [of h] Cons.prems(3) by simp
  moreover have "\<forall>i<length hs'. hdr_signed (hs' ! i) = P (hs ! i)" using Cons.prems(2) by force
  ultimately show ?case using Cons.IH Cons.prems(1,3) f by simp
qed simp

lemma picks_shift:
  assumes "\<forall>nm\<in>set nms. map tolower nm \<noteq> hdr_key s"
  shows "picks (s # hs) prev nms = map Suc (picks hs prev nms)"
  using assms
proof (induction nms arbitrary: prev)
  case (Cons nm nms)
  have "[0..<length (s # hs)] = 0 # map Suc [0..<length hs]" by (simp add: upt_conv_Cons map_Suc_upt del: upt_Suc)
  then have "instances (s # hs) nm = map Suc (instances hs nm)"
    using Cons.prems by (auto simp: instances_def filter_map o_def rev_map)
  then show ?case using Cons.IH [of "prev @ [nm]"] Cons.prems by (simp add: Let_def)
qed simp

lemma feed_body_frame:
  "plain_body dk \<Longrightarrow> \<exists>n. feed_body e dk ts = dk\<lparr>dkim_bodylen := n, dkim_canons := map (\<lambda>c. foldl (canon_feed False) c ts) (dkim_canons dk)\<rparr>"
proof (induction ts arbitrary: dk)
  case Nil
  show ?case by (intro exI [of _ "dkim_bodylen dk"]) (simp add: feed_body_def)
next
  case (Cons t ts)
  let ?d = "snd (dkim_canon_bodychunk e dk t)"
  have "plain_body ?d" using Cons.prems by (simp add: bodychunk_plain) (simp add: plain_body_def)
  from Cons.IH [OF this] show ?case using Cons.prems by (auto simp: feed_body_def bodychunk_plain o_def)
qed

lemma feed_hdr: "canon_hdr c \<Longrightarrow> foldl (canon_feed False) c ts = c"
  by (induction ts) (simp_all add: canon_feed_def)

lemma feed_not_hdr: "\<not> canon_hdr c \<Longrightarrow> \<not> canon_hdr (foldl (canon_feed False) c ts)"
proof (induction ts arbitrary: c)
  case (Cons t ts)
  have "canon_hdr (canon_chunk False t c) = canon_hdr c" using kept_chunk [of False t c] by (simp add: kept_def)
  then show ?case using Cons by (simp add: canon_feed_def)
qed simp

lemma feed_ready:
  assumes "sign_ready dk 0 1" "plain_body dk" "length (dkim_canons dk) = 2"
  shows "sign_ready (feed_body e dk ts) 0 1 \<and> dkim_canons (feed_body e dk ts) ! 0 = dkim_canons dk ! 0 \<and>
    dkim_hdrs (feed_body e dk ts) = dkim_hdrs dk \<and> dkim_libhandle (feed_body e dk ts) = dkim_libhandle dk \<and>
    dkim_key (feed_body e dk ts) = dkim_key dk"
proof -
  obtain n where f: "feed_body e dk ts = dk\<lparr>dkim_bodylen := n, dkim_canons := map (\<lambda>c. foldl (canon_feed False) c ts) (dkim_canons dk)\<rparr>"
    using feed_body_frame [OF assms(2)] by blast
  obtain c c1 where cs: "dkim_canons dk = [c, c1]" using assms(3) by (auto simp: length_Suc_conv numeral_2_eq_2)
  have k: "open_hdr c" "\<not> canon_hdr c1" using assms(1) by (auto simp: sign_ready_def cs)
  then have c: "foldl (canon_feed False) c ts = c" by (simp add: open_hdr_def feed_hdr)
  have "sign_ready (feed_body e dk ts) 0 1"
    using assms(1) k(1) feed_not_hdr [OF k(2), of ts]
    by (auto simp: f cs c sign_ready_def canonbuf_ok_def hdrbuf_ok_def less_Suc_eq open_hdr_def)
  then show ?thesis using c by (simp add: f cs)
qed

lemma eom_sign_frame:
  assumes "dkim_eom_sign s e dk = Some (DKIM_STAT_OK, dk')"
  shows "dkim_hdrs dk' = dkim_hdrs dk" "dkim_libhandle dk' = dkim_libhandle dk" "dkim_signer dk' = dkim_signer dk"
proof -
  define dka where "dka = sign_prepare e (dk\<lparr>dkim_state := DKIM_STATE_EOM2\<rparr>)"
  have a: "dkim_hdrs dka = dkim_hdrs dk" "dkim_libhandle dka = dkim_libhandle dk" "dkim_signer dka = dkim_signer dk"
    by (simp_all add: dka_def sign_prepare_def Let_def dkim_canon_closebody_def)
  have sm: "sign_message s e dka = (DKIM_STAT_OK, dk')" using eom_sign_steps [OF assms] by (simp add: dka_def)
  obtain n sg hdr dkc st dkd digest where k: "sign_header e (set_sig dka 0 sg) = Inr (hdr, dkc)"
    "dkim_canon_signature e dkc hdr = (st, dkd)" "sign_digest s e dkd sg digest = (DKIM_STAT_OK, dk')"
    by (rule sign_message_steps [OF sm])
  obtain p where p: "dkim_getsighdr_d e (set_sig dka 0 sg) (length DKIM_SIGNHEADER + 2) = (DKIM_STAT_OK, p, dkc)"
    using sign_header_getsighdr [OF k(1)] by blast
  obtain hb where c: "dkc = (body_closed (set_sig dka 0 sg))\<lparr>dkim_hdrbuf := hb\<rparr>" using getsighdr_d_frame [OF p] by blast
  obtain hb2 cb2 cs2 where d: "dkd = dkc\<lparr>dkim_hdrbuf := hb2, dkim_canonbuf := cb2, dkim_canons := cs2\<rparr>"
    using canon_signature_frame [OF k(2)] by blast
  have "\<exists>b sg. dk' = dkd\<lparr>dkim_b64sig := b, dkim_signature := sg\<rparr>" using sign_digest_steps [OF k(3)] unfolding Let_def by blast
  then show "dkim_hdrs dk' = dkim_hdrs dk" "dkim_libhandle dk' = dkim_libhandle dk" "dkim_signer dk' = dkim_signer dk"
    using a by (auto simp: d c body_closed_fields set_sig_def)
qed

lemma h_text_length: "length (h_text [] False ns) = sum_list (map (\<lambda>n. Suc (length n)) ns)"
  by (induction ns) simp_all

lemma wanted_length: "sum_list (map (\<lambda>n. Suc (length n)) (map fst (filter snd (zip ah fl)))) \<le> sum_list (map (\<lambda>n. Suc (length n)) ah)"
proof (induction ah arbitrary: fl)
  case (Cons a ah)
  show ?case using Cons.IH [of "tl fl"] by (cases fl) (auto simp: trans_le_add2)
qed simp

text \<open>The names in "h=" are those of the fields that were hashed, and always-sign names that select nothing.\<close>

lemma h_names_run:
  assumes run: "map hdr_bare (dkim_hdrs dk') = map hdr_bare hs"
    "\<forall>i<length (dkim_hdrs dk'). hdr_signed (dkim_hdrs dk' ! i) = may_sign e lib (hs ! i)" "dkim_libhandle dk' = lib" and ok: "headers_ok hs"
  shows "\<exists>extra. h_names dk' = sign_names e lib hs @ extra \<and> set extra \<subseteq> set (always_list dk') \<and>
    length (colons (h_names dk')) \<le> length (colons (sign_names e lib hs @ always_list dk'))"
proof -
  let ?fl = "foldl (\<lambda>al h. clear_always (always_list dk') (hdr_name h) al) (replicate (length (dkim_hdrs dk')) True) (filter hdr_signed (dkim_hdrs dk'))"
  define extra where "extra = map fst (filter snd (zip (always_list dk') ?fl))"
  have len: "length (dkim_hdrs dk') = length hs" using run(1) by (metis length_map)
  have wf: "\<forall>h\<in>set hs. hdr_wf h \<and> name_ok (field_name h)" using ok by (simp add: headers_ok_def small_hdr_def)
  have "map hdr_name (filter hdr_signed (dkim_hdrs dk')) = sign_names e lib hs"
    by (rule flagged_names [OF len run(1,2) wf])
  then have h: "h_names dk' = sign_names e lib hs @ extra" unfolding h_names_def extra_def by simp
  have sub: "set extra \<subseteq> set (always_list dk')" by (auto simp: extra_def dest: set_zip_leftD)
  have "length (h_text [] False (sign_names e lib hs @ extra)) \<le> length (h_text [] False (sign_names e lib hs @ always_list dk'))"
    using wanted_length [of "always_list dk'" ?fl] by (simp only: h_text_length map_append sum_list_append extra_def add_left_mono)
  then have "length (colons (h_names dk')) \<le> length (colons (sign_names e lib hs @ always_list dk'))"
    unfolding h colons_def length_tl by (rule diff_le_mono)
  then show ?thesis using h sub by blast
qed

text \<open>The new signature field as it stands on top of the message.\<close>

definition sig_field :: "string \<Rightarrow> header" where
  "sig_field tx = hdr_of (DKIM_SIGNHEADER @ '': '' @ tx) (length DKIM_SIGNHEADER)"

text \<open>Names that may be listed: a name that is always listed is signed when it is there, and "DKIM-Signature" is not listed.\<close>

definition names_fit :: "env \<Rightarrow> dkim \<Rightarrow> bool" where
  "names_fit e dk \<longleftrightarrow>
    length (colons (sign_names e (dkim_libhandle dk) (dkim_hdrs dk) @ always_list dk)) < DKIM_MAXHEADER \<and>
    list_all (\<lambda>n. name_ok n \<and> list_all (\<lambda>h. hdr_key h = map tolower n \<longrightarrow> may_sign e (dkim_libhandle dk) h) (dkim_hdrs dk)) (always_list dk) \<and>
    list_all (\<lambda>n. map tolower n \<noteq> ''dkim-signature'') (sign_names e (dkim_libhandle dk) (dkim_hdrs dk) @ always_list dk)"

lemma verifier_hash:
  assumes re: "folds_case (env_hdrre e)" and nf: "names_fit e dk" and ok: "headers_ok (dkim_hdrs dk)"
    and run: "map hdr_bare (dkim_hdrs dk') = map hdr_bare (dkim_hdrs dk)" "dkim_libhandle dk' = dkim_libhandle dk"
    "\<forall>i<length (dkim_hdrs dk'). hdr_signed (dkim_hdrs dk' ! i) = may_sign e (dkim_libhandle dk) (dkim_hdrs dk ! i)"
  shows "header_hash_input alg (sig_field tx # dkim_hdrs dk) (colons (h_names dk')) 0 =
    sel_text alg (dkim_hdrs dk) (sign_names e (dkim_libhandle dk) (dkim_hdrs dk)) @ canon_sig alg (DKIM_SIGNHEADER @ '': '' @ tx)"
proof -
  let ?hs = "dkim_hdrs dk" and ?lib = "dkim_libhandle dk" let ?names = "sign_names e ?lib ?hs"
  have al: "always_list dk' = always_list dk" by (simp add: always_list_def run(2))
  obtain extra where x: "h_names dk' = ?names @ extra" "set extra \<subseteq> set (always_list dk)"
    "length (colons (h_names dk')) \<le> length (colons (?names @ always_list dk))"
    using h_names_run [OF run(1,3,2) ok] unfolding al by blast
  have n: "length (colons (h_names dk')) < DKIM_MAXHEADER" using x(3) nf by (simp add: names_fit_def)
  have nok: "\<forall>n\<in>set (h_names dk'). name_ok n"
    using x(2) nf ok unfolding x(1) by (auto simp: names_fit_def list_all_iff headers_ok_def)
  have names: "header_names (colons (h_names dk')) = ?names @ extra"
    using header_names_colons [OF nok n] x(1) by simp
  have none: "picks ?hs ?names extra = []"
  proof (rule picks_nothing, intro ballI)
    fix nm assume "nm \<in> set extra"
    then have "nm \<in> set (always_list dk)" using x(2) by blast
    then have may: "\<forall>h\<in>set ?hs. hdr_key h = map tolower nm \<longrightarrow> may_sign e ?lib h"
      using nf by (auto simp: names_fit_def list_all_iff)
    show "length (instances ?hs nm) \<le> occurrences ?names nm"
    proof (cases "\<exists>h\<in>set ?hs. hdr_key h = map tolower nm \<and> may_sign e ?lib h")
      case True
      then show ?thesis unfolding occurrences_signed [OF re] if_P [OF True] by simp
    next
      case False
      then have "instances ?hs nm = []" using may by (auto simp: instances_def filter_empty_conv)
      then show ?thesis by simp
    qed
  qed
  have key: "hdr_key (sig_field tx) = ''dkim-signature''"
    by (simp add: hdr_key_def sig_field_def hdr_of_def char_eval)
  have other: "\<forall>n\<in>set (?names @ always_list dk). map tolower n \<noteq> ''dkim-signature''"
    using nf unfolding names_fit_def list_all_iff by (elim conjE)
  have "\<forall>nm\<in>set (?names @ extra). map tolower nm \<noteq> hdr_key (sig_field tx)"
  proof
    fix nm assume "nm \<in> set (?names @ extra)"
    then have "nm \<in> set (?names @ always_list dk)" using x(2) by auto
    then show "map tolower nm \<noteq> hdr_key (sig_field tx)" unfolding key by (rule bspec [OF other])
  qed
  then have "picks (sig_field tx # ?hs) [] (?names @ extra) = map Suc (picks ?hs [] ?names)"
    using picks_shift [of "?names @ extra" "sig_field tx" ?hs "[]"] none by (simp only: picks_append append_Nil append_Nil2)
  then show ?thesis
    unfolding header_hash_input_def names by (simp add: sel_text_def o_def) (simp add: sig_field_def hdr_of_def)
qed

end
