(* ===== verification/Dkim_Signed.thy ===== *)
theory Dkim_Signed
  imports Dkim_Signrun
begin

text \<open>
  Signing from end to end: that \<open>dkim_eom_sign\<close> succeeds when the header has room in its buffers,
  and that the signature is one of exactly the bytes a verifier of the message will hash.
\<close>

subsection \<open>Room for the value of "b="\<close>

lemma lay_value_length: "lay_value margin len xs = (ops, len') \<Longrightarrow> length (ops_text ops) \<le> 5 * length xs"
  by (induction margin len xs arbitrary: ops len' rule: lay_value.induct) (auto split: if_splits prod.splits)

lemma lay_pieces_room:
  assumes "5 * length v + 3 \<le> k"
  shows "length (ops_text (lay_pieces margin sg len first which (pvs @ [''b='' @ v]))) \<le>
   length (ops_text (lay_pieces margin sg len first which (pvs @ [''b='']))) + k"
proof (induction pvs arbitrary: len first which)
  case Nil
  have wh: "tag_which which (CHR ''b'' # CHR ''='' # v) = ''b''" "tag_which which ''b='' = ''b''" for which
    using tag_which_name [of "''b''" v which] tag_which_name [of "''b''" "[]" which] by (simp_all add: piece_name_def)
  obtain ops len' where l: "lay_value margin 10 v = (ops, len')" by force
  then show ?case
    using lay_value_length [OF l] assms by (simp add: lay_pieces.simps wh Let_def lay_wrapped_def)
next
  case (Cons pv pvs)
  show ?case using Cons.IH by (simp add: lay_pieces.simps Let_def split: prod.splits)
qed

lemma layout_room:
  "length (ops_text (layout margin sg initial (pvs @ [''b='' @ v]))) \<le>
   length (ops_text (layout margin sg initial (pvs @ [''b='']))) + 5 * length v + 3"
  using lay_pieces_room [OF order_refl, where v = v and margin = margin and sg = sg and len = initial and first = True and which = "[]" and pvs = pvs]
  by (cases pvs) (simp_all add: layout_def lay_line_def)


subsection \<open>Signing succeeds\<close>

text \<open>The handle for which \<open>dkim_eom_sign\<close> writes the header, with a key of \<open>n\<close> bytes.\<close>

definition sign_handle :: "env \<Rightarrow> dkim \<Rightarrow> nat \<Rightarrow> dkim" where
  "sign_handle e dk n = set_sig (sign_prepare e (dk\<lparr>dkim_state := DKIM_STATE_EOM2\<rparr>)) 0
     ((dkim_siglist dk ! 0)\<lparr>sig_keytype := DKIM_KEYTYPE_RSA, sig_keybits := n * 8\<rparr>)"

text \<open>The header fits with a signature of \<open>n\<close> bytes.\<close>

definition sign_room :: "env \<Rightarrow> dkim \<Rightarrow> nat \<Rightarrow> bool" where
  "sign_room e dk n \<longleftrightarrow>
    (let dkb = sign_handle e dk n; sg = dkim_siglist dkb ! 0; nvs = sig_pairs dkb sg (body_digest e dkb) in
     tags_fit dkb sg (body_digest e dkb) \<and> tags_clean nvs \<and> length (pairs_text nvs) + 2 + BASE64SIZE n < MAXBUFRSZ \<and>
     length (sig_layout e dkb []) + length DKIM_SIGNHEADER + 2 < DKIM_MAXHEADER \<and>
     length (sig_layout e dkb []) + 5 * BASE64SIZE n + 3 < MAXBUFRSZ)"

definition sign_state :: "dkim \<Rightarrow> bool" where
  "sign_state dk \<longleftrightarrow> dkim_state dk < DKIM_STATE_EOM2 \<and> dkim_chunkstate dk \<in> {DKIM_CHUNKSTATE_INIT, DKIM_CHUNKSTATE_DONE} \<and>
     sign_hashtype (sig_signalg (dkim_siglist dk ! 0)) = Some (sig_hashtype (dkim_siglist dk ! 0))"

lemma sign_hashtype_range: "sign_hashtype a = Some t \<Longrightarrow> t = DKIM_HASHTYPE_SHA1 \<or> t = DKIM_HASHTYPE_SHA256"
  by (auto simp: sign_hashtype_def split: if_splits)

lemma sign_header_ok:
  assumes "dkim_getsighdr_d e dk (length DKIM_SIGNHEADER + 2) = (DKIM_STAT_OK, tx, dk1)" "is_cstring tx"
    "length tx + length DKIM_SIGNHEADER + 2 < DKIM_MAXHEADER"
  shows "\<exists>hdr. sign_header e dk = Inr (hdr, dk1) \<and> hdr_text hdr = DKIM_SIGNHEADER @ '': '' @ tx"
proof -
  let ?n = "DKIM_MAXHEADER + 1 - (length DKIM_SIGNHEADER + 2)"
  have "length tx < ?n" using assms(3) by simp
  then have "dkim_getsighdr e dk ?n (length DKIM_SIGNHEADER + 2) = (DKIM_STAT_OK, tx, dk1)"
    using assms(1) by (simp add: dkim_getsighdr_def strlcpy_id)
  then show ?thesis using assms(2,3) by (simp add: sign_header_def cstr_id)
qed

lemma eom_sign_succeeds:
  assumes mem: "\<forall>n. env_malloc e n" and rd: "sign_ready dk h b" and st: "sign_state dk"
    and key: "sg_keysize s (the (dkim_key dk)) = Some n" "n > 0" "\<forall>nid d. length (sg_rsa_sign s nid d (the (dkim_key dk))) = n"
    and room: "sign_room e dk n"
  shows "\<exists>dk'. dkim_eom_sign s e dk = Some (DKIM_STAT_OK, dk') \<and> sign_fits e dk' \<and> dkim_siglist dk' = dkim_siglist (sign_handle e dk n)"
proof -
  let ?sg0 = "dkim_siglist dk ! 0" and ?c = "dkim_canons dk ! h" and ?key = "the (dkim_key dk)" and ?cs = "dkim_canons dk"
  have r: "dkim_mode dk = DKIM_MODE_SIGN" "dkim_b64sig dk = None" "dkim_signature dk = None" "length (dkim_siglist dk) = 1"
    "sig_hdrcanon ?sg0 = Some h" "sig_bodycanon ?sg0 = Some b" "h < length ?cs" "b < length ?cs" "canon_wf ?c"
    "canon_canon ?c \<in> {DKIM_CANON_SIMPLE, DKIM_CANON_RELAXED}" "\<not> canon_hdr (?cs ! b)"
    "\<forall>i<length ?cs. open_hdr (?cs ! i) \<longleftrightarrow> i = h" "canonbuf_ok dk" "hdrbuf_ok dk"
    using rd unfolding sign_ready_def by blast+
  have op: "open_hdr ?c" "canon_hdr ?c" using r(7,12) by (auto simp: open_hdr_def)
  then have hb: "h \<noteq> b" using r(11) by auto
  define dka where "dka = sign_prepare e (dk\<lparr>dkim_state := DKIM_STATE_EOM2\<rparr>)"
  define sg where "sg = ?sg0\<lparr>sig_keytype := DKIM_KEYTYPE_RSA, sig_keybits := n * 8\<rparr>"
  define dkb where "dkb = sign_handle e dk n"
  have set: "dkb = set_sig dka 0 sg" by (simp add: dkb_def sign_handle_def dka_def sg_def)
  have sgc: "sig_hdrcanon sg = Some h" "sig_bodycanon sg = Some b" "sig_keytype sg = DKIM_KEYTYPE_RSA" "sig_keybits sg = n * 8"
    using r(5,6) by (simp_all add: sg_def)
  have b: "dkim_canons dkb = map canon_close ?cs" "dkim_margin dkb = dkim_margin dk" "dkim_state dkb = DKIM_STATE_EOM2"
    "dkim_mode dkb = DKIM_MODE_SIGN" "dkim_signature dkb = None" "dkim_b64sig dkb = None" "dkim_key dkb = dkim_key dk"
    "dkim_hdrbuf dkb = dkim_hdrbuf dk" "dkim_canonbuf dkb = dkim_canonbuf dk" "dkim_siglist dkb = [sg]"
    using r(1-4) by (simp_all add: set dka_def list_update_beyond) (cases "dkim_siglist dk"; simp)
  have closed: "body_closed dkb = dkb" by (rule body_closed_id) (auto simp: b(1))
  define dg where "dg = body_digest e dkb"
  have dg: "dg = canon_digest e (dkim_canons (body_closed dkb) ! the (sig_bodycanon sg))"
    by (simp add: dg_def body_digest_def b(10) closed)
  have lay: "sig_layout e dkb v = ops_text (layout (dkim_margin dkb) sg (length DKIM_SIGNHEADER + 2) (sig_pieces dkb sg dg v))" for v
    by (simp add: sig_layout_def dg_def b(10))
  have fits: "tags_fit dkb sg dg" "tags_clean (sig_pairs dkb sg dg)"
    "length (pairs_text (sig_pairs dkb sg dg)) + 2 + BASE64SIZE n < MAXBUFRSZ"
    "length (sig_layout e dkb []) + length DKIM_SIGNHEADER + 2 < DKIM_MAXHEADER"
    "length (sig_layout e dkb []) + 5 * BASE64SIZE n + 3 < MAXBUFRSZ"
    using room unfolding sign_room_def Let_def dkb_def [symmetric] b(10) dg_def by (simp_all add: b(10))
  have bdone: "canon_done (dkim_canons (body_closed dkb) ! the (sig_bodycanon sg))"
    using r(8,11) by (simp add: closed b(1) sgc canon_close_body)
  have hbuf: "dkim_hdrbuf dkb = None \<or> hdrbuf_ok dkb" using r(14) b(8) by (simp add: hdrbuf_ok_def)
  have sgb: "dkim_siglist dkb ! (case dkim_signature dkb of None \<Rightarrow> 0 | Some j \<Rightarrow> j) = sg" by (simp add: b)
  have b0: "[] = (case dkim_b64sig dkb of None \<Rightarrow> [] | Some b \<Rightarrow> b)" by (simp add: b)
  have short: "length (sig_layout e dkb []) < MAXBUFRSZ" using fits(5) by linarith
  have len0: "length (pairs_text (sig_pairs dkb sg dg)) + 2 + length ([] :: string) < MAXBUFRSZ" using fits(3) by simp
  obtain hb3 where g: "dkim_getsighdr_d e dkb (length DKIM_SIGNHEADER + 2) = (DKIM_STAT_OK, sig_layout e dkb [], dkb\<lparr>dkim_hdrbuf := Some hb3\<rparr>)"
    "ds_wf hb3" "ds_max hb3 = MAXBUFRSZ"
    using getsighdr_d_text [OF mem b(3,4) hbuf sgb bdone dg b0 _ _ _ _ _ short, unfolded closed, OF _ _ fits(1) len0 lay] by auto
  have cs0: "is_cstring (sig_layout e dkb [])"
    unfolding lay by (rule layout_cstring [OF sig_pieces_cstring [OF fits(1)]]) simp
  define dkc where "dkc = dkb\<lparr>dkim_hdrbuf := Some hb3\<rparr>"
  obtain hdr where hdr: "sign_header e dkb = Inr (hdr, dkc)" "hdr_text hdr = DKIM_SIGNHEADER @ '': '' @ sig_layout e dkb []"
    using sign_header_ok [OF g(1) cs0 fits(4)] unfolding dkc_def by blast
  have cc: "dkim_canons dkc ! h = ?c" using r(7) op(2) by (simp add: dkc_def b(1) canon_close_hdr)
  have "is_cstring (hdr_text hdr)" "length (hdr_text hdr) < MAXBUFRSZ" using hdr(2) cs0 fits(4) by simp_all
  moreover have "canonbuf_ok dkc" "hdrbuf_ok dkc" using r(13) b(9) g(2,3) by (simp_all add: dkc_def canonbuf_ok_def hdrbuf_ok_def)
  moreover have "\<forall>i<length (dkim_canons dkc). i \<noteq> h \<longrightarrow> \<not> open_hdr (dkim_canons dkc ! i)" "h < length (dkim_canons dkc)"
    using r(7,12) by (simp_all add: dkc_def b(1))
  ultimately obtain hb4 cb4 c' where dd: "dkim_canon_signature e dkc hdr =
      (DKIM_STAT_OK, dkc\<lparr>dkim_hdrbuf := hb4, dkim_canonbuf := cb4, dkim_canons := (dkim_canons dkc)[h := c']\<rparr>)" "canon_done c'"
    using canon_signature_open [OF mem _ _ cc _ op(1) r(9,10), of hdr] by blast
  define dkd where "dkd = dkc\<lparr>dkim_hdrbuf := hb4, dkim_canonbuf := cb4, dkim_canons := (dkim_canons dkc)[h := c']\<rparr>"
  have ch: "dkim_canons dkd ! h = c'" "dkim_canons dkd ! b = dkim_canons dkb ! b" "dkim_key dkd = dkim_key dk"
    using r(7) hb by (simp_all add: dkd_def dkc_def b)
  define sig where "sig = sg_rsa_sign s (sign_nid sg) (canon_digest e c') ?key"
  define dk' where "dk' = dkd\<lparr>dkim_b64sig := Some (b64_ref sig), dkim_signature := Some 0\<rparr>"
  have siglen: "length sig = n" "sig \<noteq> []" using key(2,3) by (auto simp: sig_def)
  have dig: "sign_digest s e dkd sg (canon_digest e c') = (DKIM_STAT_OK, dk')"
    using siglen mem b64siglen_fits [of sig]
    unfolding sign_digest_def Let_def ch(3) sign_nid_def [symmetric] sig_def [symmetric] by (simp add: dk'_def)
  have k: "sign_key s e ?key ?sg0 = Inr sg" using key(1) mem by (simp add: sign_key_def sg_def)
  have ka: "dkim_key dka = dkim_key dk" "dkim_siglist dka = dkim_siglist dk" by (simp_all add: dka_def)
  have sm: "sign_message s e dka = (DKIM_STAT_OK, dk')"
    unfolding sign_message_def ka k using dig dd(2) hdr(1) [unfolded set] dd(1) [folded dkd_def] ch(1)
    by (simp add: sgc(1) dkim_canon_getfinal_def)
  have ht: "sign_hashtype (sig_signalg ?sg0) = Some (sig_hashtype ?sg0)" using st by (simp add: sign_state_def)
  have sl: "dkim_siglist dka = ?sg0 # []" using r(4) by (cases "dkim_siglist dk") (simp_all add: dka_def)
  have eom: "dkim_eom_sign s e dk = Some (DKIM_STAT_OK, dk')"
    using st mem ht sign_hashtype_range [OF ht] sm
    unfolding dkim_eom_sign_def Let_def sign_state_def dka_def [symmetric] by (auto simp: sl)
  have sgl: "dkim_siglist dk' = [sg]" "dkim_margin dk' = dkim_margin dkb" by (simp_all add: dk'_def dkd_def dkc_def b)
  have same: "sig_pairs dk' sg dg = sig_pairs dkb sg dg" "tags_fit dk' sg dg = tags_fit dkb sg dg" "sig_pieces dk' sg dg v = sig_pieces dkb sg dg v" for v
    using ch(2) by (intro tags_cong; simp add: dk'_def dkd_def dkc_def sgc)+
  have dg': "body_digest e dk' = dg"
    using ch(2) unfolding dg_def body_digest_def sgl(1) b(10) by (simp add: sgc dk'_def)
  have lay': "sig_layout e dk' v = sig_layout e dkb v" for v by (simp add: sig_layout_def dg' sgl same(3) dg_def [symmetric] b(10))
  have bsig: "the (dkim_b64sig dk') = b64_ref sig" by (simp add: dk'_def)
  have blen: "length (b64_ref sig) = BASE64SIZE n" using siglen by (simp add: length_b64_ref BASE64SIZE_def)
  have "length (sig_layout e dkb (b64_ref sig)) \<le> length (sig_layout e dkb []) + 5 * length (b64_ref sig) + 3"
    unfolding lay sig_pieces_def append_Nil2 by (rule layout_room)
  then have "length (sig_layout e dk' (b64_ref sig)) < MAXBUFRSZ" using fits(5) unfolding lay' blen by linarith
  then have "sign_fits e dk'"
    unfolding sign_fits_def Let_def dg' sgl(1) using fits(1-3) blen bsig by (simp add: same)
  then show ?thesis using eom sgl(1) b(10) by (auto simp: dkb_def)
qed

subsection \<open>From a new handle\<close>

lemma names_fit_len:
  "names_fit e dk \<Longrightarrow> length (colons (sign_names e (dkim_libhandle dk) (dkim_hdrs dk))) < DKIM_MAXHEADER"
proof -
  assume nf: "names_fit e dk"
  have "length (colons (sign_names e (dkim_libhandle dk) (dkim_hdrs dk))) \<le>
      length (colons (sign_names e (dkim_libhandle dk) (dkim_hdrs dk) @ always_list dk))"
    unfolding colons_def length_tl h_text_length by simp
  then show ?thesis using nf by (simp add: names_fit_def)
qed

text \<open>The handle after the body.\<close>

lemma run_handle:
  assumes "headers_run e dk dk1" "plain_body dk" "sign_fresh dk"
  obtains m cs where "feed_body e dk1 ts = dk1\<lparr>dkim_bodylen := m, dkim_canons := cs\<rparr>" "sign_ready (feed_body e dk1 ts) 0 1"
    "dkim_canons (feed_body e dk1 ts) ! 0 = dkim_canons dk1 ! 0"
proof -
  have r: "sign_ready dk1 0 1" "dkim_libhandle dk1 = dkim_libhandle dk" "length (dkim_canons dk1) = 2"
    using assms(1) by (simp_all add: headers_run_def)
  have "dkim_mode dk1 = dkim_mode dk" using r(1) assms(3) by (simp add: sign_ready_def sign_fresh_def)
  then have p: "plain_body dk1" using assms(2) r(2) by (simp add: plain_body_def)
  obtain m where "feed_body e dk1 ts = dk1\<lparr>dkim_bodylen := m, dkim_canons := map (\<lambda>c. foldl (canon_feed False) c ts) (dkim_canons dk1)\<rparr>"
    using feed_body_frame [OF p] by blast
  then show thesis using that feed_ready [OF r(1) p r(3)] by blast
qed

lemma signed_run:
  assumes mem: "\<forall>n. env_malloc e n" and fr: "sign_fresh dk" and plain: "plain_body dk" and chunk: "dkim_chunkstate dk = DKIM_CHUNKSTATE_INIT"
    and key: "sg_keysize s (the (dkim_key dk)) = Some n" "n > 0" "\<forall>nid d. length (sg_rsa_sign s nid d (the (dkim_key dk))) = n"
    and run: "headers_run e dk dk1" and room: "sign_room e (feed_body e dk1 ts) n"
  shows "\<exists>dk'. dkim_eom_sign s e (feed_body e dk1 ts) = Some (DKIM_STAT_OK, dk') \<and> sign_fits e dk'"
proof -
  obtain m cs where f: "feed_body e dk1 ts = dk1\<lparr>dkim_bodylen := m, dkim_canons := cs\<rparr>" "sign_ready (feed_body e dk1 ts) 0 1"
    using run_handle [OF run plain fr] by metis
  obtain ht where ht: "sign_hashtype (dkim_signalg dk) = Some ht"
    using sign_hashtype_cases fr unfolding sign_fresh_def by blast
  obtain h1 h2 h3 h4 h5 where d1: "dk1 = (sign_start e dk ht)\<lparr>dkim_hdrbuf := h1, dkim_hdrlist_buf := h2, dkim_hdrs := h3,
        dkim_canonbuf := h4, dkim_canons := h5\<rparr>"
    using run unfolding headers_run_def ht option.sel Let_def by metis
  have st: "sign_state (feed_body e dk1 ts)" "dkim_key (feed_body e dk1 ts) = dkim_key dk"
    unfolding f(1) using chunk ht by (simp_all add: d1 sign_start_def sign_state_def)
  show ?thesis using eom_sign_succeeds [OF mem f(2) st(1), of s n] key room unfolding st(2) by blast
qed

subsection \<open>A run\<close>

definition se_env :: env where
  "se_env = env0\<lparr>env_sha1 := (\<lambda>s. ''DDD''), env_sha256 := (\<lambda>s. ''DDD'')\<rparr>"

definition se_signer :: signer where
  "se_signer = \<lparr>sg_keysize = (\<lambda>k. Some 3), sg_rsa_sign = (\<lambda>nid d k. ''AAA''), sg_tmpfile = DKIM_STAT_OK\<rparr>"

definition se_dk :: dkim where
  "se_dk = (dkim_zero lib0)\<lparr>dkim_mode := DKIM_MODE_SIGN, dkim_hdrcanonalg := DKIM_CANON_RELAXED, dkim_signalg := DKIM_SIGN_RSASHA256,
     dkim_signlen := - 1, dkim_margin := 75, dkim_domain := Some ''x'', dkim_selector := Some ''s'', dkim_key := Some ''k'',
     dkim_hdrs := [hdr_of ''From: a'' 4]\<rparr>"

lemma se_given:
  "\<forall>n. env_malloc se_env n" "sign_fresh se_dk" "required_present (dkim_hdrs se_dk)" "folds_case (env_hdrre se_env)"
  "names_fit se_env se_dk" "plain_body se_dk" "\<not> lib_flag se_dk DKIM_LIBFLAGS_TMPFILES" "dkim_chunkstate se_dk = DKIM_CHUNKSTATE_INIT"
  "sg_keysize se_signer (the (dkim_key se_dk)) = Some 3" "\<forall>nid d. length (sg_rsa_sign se_signer nid d (the (dkim_key se_dk))) = 3"
  apply (simp add: se_env_def env0_def)
  apply (simp add: se_dk_def sign_fresh_def dkim_zero_def canonbuf_ok_def headers_ok_def small_hdr_def hdr_wf_def hdr_of_def name_ok_def field_name_def cctype)
  apply (simp add: se_dk_def required_present_def hdr_of_def strncaseeq_def required_signhdrs_def char_eval)
  apply (simp add: se_env_def env0_def folds_case_def)
  apply (simp add: names_fit_def se_dk_def dkim_zero_def lib0_def always_list_def may_sign_def hdr_of_def field_name_def char_eval colons_def)
  apply (simp add: se_dk_def plain_body_def dkim_zero_def lib0_def)
  apply (simp_all add: se_dk_def dkim_zero_def lib0_def se_signer_def)
  done

definition se_sig :: siginfo where
  "se_sig = siginfo0\<lparr>sig_domain := Some ''x'', sig_selector := Some ''s'', sig_hashtype := DKIM_HASHTYPE_SHA256,
     sig_signalg := DKIM_SIGN_RSASHA256, sig_hdrcanon := Some 0, sig_hdrcanonalg := DKIM_CANON_RELAXED, sig_bodycanon := Some 1,
     sig_bodycanonalg := DKIM_CANON_SIMPLE, sig_timestamp := 1000000, sig_keytype := DKIM_KEYTYPE_RSA, sig_keybits := 24\<rparr>"

definition se_pairs :: "(string \<times> string) list" where
  "se_pairs = [(''v'', ''1''), (''a'', ''rsa-sha256''), (''c'', ''relaxed/simple''), (''d'', ''x''), (''s'', ''s''),
     (''t'', ''1000000''), (''bh'', ''RERE''), (''h'', ''From'')]"

lemma handle_fields:
  "dkim_siglist (sign_handle e dk n) = (dkim_siglist dk)[0 := (dkim_siglist dk ! 0)\<lparr>sig_keytype := DKIM_KEYTYPE_RSA, sig_keybits := n * 8\<rparr>]"
  "dkim_libhandle (sign_handle e dk n) = dkim_libhandle dk" "dkim_signer (sign_handle e dk n) = dkim_signer dk"
  "dkim_margin (sign_handle e dk n) = dkim_margin dk" "dkim_hdrs (sign_handle e dk n) = dkim_hdrs dk"
  "dkim_partial (sign_handle e dk n) \<longleftrightarrow> lib_flag dk DKIM_LIBFLAGS_SIGNLEN \<or> dkim_partial dk"
  by (simp_all add: sign_handle_def) (simp_all add: sign_prepare_def set_sig_def Let_def dkim_canon_closebody_def)

lemma se_room_fields:
  assumes d2: "dkim_siglist dk2 = [se_sig\<lparr>sig_keybits := 0\<rparr>]" "dkim_libhandle dk2 = lib0" "dkim_signer dk2 = None" "\<not> dkim_partial dk2"
    "dkim_margin dk2 = 75" "dkim_hdrs dk2 = [h]" and sgh: "hdr_signed h" and hn: "hdr_name h = ''From''"
  shows "sign_room se_env dk2 3"
proof -
  define dkb where "dkb = sign_handle se_env dk2 3"
  have sg: "dkim_siglist dkb = [se_sig]" and lib: "dkim_libhandle dkb = lib0" "dkim_signer dkb = None" "\<not> dkim_partial dkb"
    "dkim_margin dkb = 75" "dkim_hdrs dkb = [h]"
    using d2 by (simp_all add: dkb_def handle_fields) (simp_all add: se_sig_def lib0_def)
  have dg: "body_digest se_env dkb = ''DDD''" by (simp add: body_digest_def canon_digest_def se_env_def)
  have hns: "h_names dkb = [''From'']" by (simp add: h_names_def always_list_def lib sgh hn) (simp add: lib0_def)
  have b64: "dkim_base64_encode ''DDD'' 4097 = Some ''RERE''"
    by (simp add: dkim_base64_encode_def b64_encode_tail_def alphabet_def cctype char_eval)
  have codes: "dkim_code_to_name prv_algorithms 1 = Some ''rsa-sha256''" "dkim_code_to_name prv_canonicalizations 1 = Some ''relaxed''"
    "dkim_code_to_name prv_canonicalizations 0 = Some ''simple''" by code_simp+
  have dec: "dec 1000000 = ''1000000''" by (simp add: dec.simps char_of_def bit_0)
  have nvs: "sig_pairs dkb se_sig ''DDD'' = se_pairs"
    unfolding sig_pairs_def lib hns
    by (simp add: lib(3) lib0_def se_sig_def siginfo0_def se_pairs_def b64 dec colons_def codes)
  have fit: "tags_fit dkb se_sig ''DDD''"
    unfolding tags_fit_def nvs head_tags_def tail_tags_def h_tag_def z_tag_def lib sg
    by (simp add: se_pairs_def sgh hn lib(3) lib0_def se_sig_def siginfo0_def dec b64 piece_text_def codes printed_def is_cstring_def h_entry_def)
  have pieces: "sig_pieces dkb se_sig ''DDD'' [] = map (\<lambda>nv. piece_text nv @ '';'') se_pairs @ [''b='']"
    by (simp add: sig_pieces_def nvs sig_nws_def piece_text_def se_pairs_def)
  have "length (ops_text (layout 75 se_sig (length DKIM_SIGNHEADER + 2) (map (\<lambda>nv. piece_text nv @ '';'') se_pairs @ [''b='']))) \<le> 200" by code_simp
  then have lay: "length (sig_layout se_env dkb []) \<le> 200" by (simp add: sig_layout_def sg lib(4) dg pieces)
  have clean: "tags_clean se_pairs" by (simp add: tags_clean_def se_pairs_def)
  have len: "length (pairs_text se_pairs) \<le> 200" by (simp add: se_pairs_def piece_text_def)
  show ?thesis
    unfolding sign_room_def dkb_def [symmetric] Let_def sg
    using fit lay clean len by (simp add: dg nvs BASE64SIZE_def)
qed

lemma se_room:
  assumes "headers_run se_env se_dk dk1"
  shows "sign_room se_env (feed_body se_env dk1 ts) 3"
proof -
  obtain m cs where f: "feed_body se_env dk1 ts = dk1\<lparr>dkim_bodylen := m, dkim_canons := cs\<rparr>" "sign_ready (feed_body se_env dk1 ts) 0 1"
    using run_handle [OF assms se_given(6,2)] by metis
  have ht: "sign_hashtype (dkim_signalg se_dk) = Some DKIM_HASHTYPE_SHA256" by (simp add: se_dk_def sign_hashtype_def)
  obtain h1 h2 h3 h4 h5 where d1: "dk1 = (sign_start se_env se_dk DKIM_HASHTYPE_SHA256)\<lparr>dkim_hdrbuf := h1, dkim_hdrlist_buf := h2, dkim_hdrs := h3,
        dkim_canonbuf := h4, dkim_canons := h5\<rparr>"
    using assms unfolding headers_run_def ht option.sel Let_def by metis
  have hb: "map hdr_bare h3 = [hdr_bare (hdr_of ''From: a'' 4)]" and fl: "\<forall>i<length h3. hdr_signed (h3 ! i)"
    using assms by (auto simp: headers_run_def d1 may_sign_def) (simp_all add: se_dk_def dkim_zero_def lib0_def)
  obtain h where h: "h3 = [h]" "hdr_bare h = hdr_bare (hdr_of ''From: a'' 4)" using hb by auto
  have hn: "hdr_name h = ''From''" using hdr_bare_eq [OF h(2)] by (simp add: hdr_name_def hdr_of_def cstr_def)
  define dk2 where "dk2 = feed_body se_env dk1 ts"
  have d2: "dkim_siglist dk2 = [se_sig\<lparr>sig_keybits := 0\<rparr>]" "dkim_libhandle dk2 = lib0" "dkim_signer dk2 = None" "\<not> dkim_partial dk2"
    "dkim_margin dk2 = 75" "dkim_hdrs dk2 = [h]"
    unfolding dk2_def f(1) unfolding d1 h(1)
    by (simp_all add: sign_start_def se_dk_def dkim_zero_def lib0_def sign_time_def se_env_def env0_def se_sig_def siginfo0_def)
  have sgh: "hdr_signed h" using fl by (simp add: h(1))
  show ?thesis unfolding dk2_def [symmetric] by (rule se_room_fields [OF d2 sgh hn])
qed

lemma se_run:
  obtains dk1 where "dkim_eoh_sign se_signer se_env se_dk = Some (DKIM_STAT_OK, dk1)" "headers_run se_env se_dk dk1"
    "sign_room se_env (feed_body se_env dk1 ts) 3"
proof -
  have "sg_tmpfile se_signer = DKIM_STAT_OK" by (simp add: se_signer_def)
  then obtain dk1 where "dkim_eoh_sign se_signer se_env se_dk = Some (DKIM_STAT_OK, dk1)" "headers_run se_env se_dk dk1"
    using eoh_sign_headers [OF se_given(1-4) _ names_fit_len [OF se_given(5)]] by blast
  then show thesis using that se_room by blast
qed

subsection \<open>From end to end\<close>

text \<open>
  C7: signing succeeds. With memory, a key and a message whose header holds the required fields, both
  ends of a signing run answer OK whatever the chunks of the body are, if the new header has room.
\<close>
theorem signing_succeeds:
  assumes mem: "\<forall>n. env_malloc e n" and fr: "sign_fresh dk" and req: "required_present (dkim_hdrs dk)" and re: "folds_case (env_hdrre e)"
    and nf: "names_fit e dk" and plain: "plain_body dk" and tmp: "\<not> lib_flag dk DKIM_LIBFLAGS_TMPFILES" and chunk: "dkim_chunkstate dk = DKIM_CHUNKSTATE_INIT"
    and key: "sg_keysize s (the (dkim_key dk)) = Some n" "n > 0" "\<forall>nid d. length (sg_rsa_sign s nid d (the (dkim_key dk))) = n"
    and room: "sign_room e (feed_body e (snd (the (dkim_eoh_sign s e dk))) ts) n"
  shows "\<exists>dk1 dk'. dkim_eoh_sign s e dk = Some (DKIM_STAT_OK, dk1) \<and> dkim_eom_sign s e (feed_body e dk1 ts) = Some (DKIM_STAT_OK, dk')"
proof -
  obtain dk1 where d: "dkim_eoh_sign s e dk = Some (DKIM_STAT_OK, dk1)" "headers_run e dk dk1"
    using eoh_sign_headers [OF mem fr req re _ names_fit_len [OF nf]] tmp by blast
  then show ?thesis using signed_run [OF mem fr plain chunk key d(2)] room by fastforce
qed

lemma signing_succeeds_witness:
  "\<exists>dk1 dk'. dkim_eoh_sign se_signer se_env se_dk = Some (DKIM_STAT_OK, dk1) \<and>
     dkim_eom_sign se_signer se_env (feed_body se_env dk1 [''hi'']) = Some (DKIM_STAT_OK, dk')"
proof -
  obtain dk1 where r: "dkim_eoh_sign se_signer se_env se_dk = Some (DKIM_STAT_OK, dk1)" "sign_room se_env (feed_body se_env dk1 [''hi'']) 3"
    using se_run [where ts = "[''hi'']"] by blast
  show ?thesis
    by (rule signing_succeeds [OF se_given(1-9) _ se_given(10)]) (simp_all add: r)
qed

text \<open>From the header run and any later handle that is ready.\<close>

lemma run_agrees:
  assumes mem: "\<forall>n. env_malloc e n" and re: "folds_case (env_hdrre e)" and nf: "names_fit e dk" and ok: "headers_ok (dkim_hdrs dk)"
    and run: "headers_run e dk dk1" and rd: "sign_ready dk2 0 1"
    and same: "dkim_canons dk2 ! 0 = dkim_canons dk1 ! 0" "dkim_hdrs dk2 = dkim_hdrs dk1" "dkim_libhandle dk2 = dkim_libhandle dk1" "dkim_key dk2 = dkim_key dk1"
    and em: "dkim_eom_sign s e dk2 = Some (DKIM_STAT_OK, dk')" and fit: "sign_fits e dk'"
    and rsa: "\<forall>nid d n. sg_keysize s (the (dkim_key dk)) = Some n \<longrightarrow> length (sg_rsa_sign s nid d (the (dkim_key dk))) \<in> {0, n}"
  shows "\<exists>tx dk''. dkim_getsighdr_d e dk' (length DKIM_SIGNHEADER + 2) = (DKIM_STAT_OK, tx, dk'') \<and>
    canon_hash (dkim_canons dk' ! 0) =
      header_hash_input (dkim_hdrcanonalg dk) (sig_field tx # dkim_hdrs dk) (colons (h_names dk')) 0 \<and>
    dkim_b64sig dk' = Some (b64_ref (sg_rsa_sign s (sign_nid (dkim_siglist dk' ! 0))
      (canon_digest e (dkim_canons dk' ! 0)) (the (dkim_key dk))))"
proof -
  have r: "canon_canon (dkim_canons dk1 ! 0) = dkim_hdrcanonalg dk"
    "canon_view (dkim_canons dk1 ! 0) = sv_put (sv_init (- 1))
       (sel_text (dkim_hdrcanonalg dk) (dkim_hdrs dk) (sign_names e (dkim_libhandle dk) (dkim_hdrs dk)))"
    "map hdr_bare (dkim_hdrs dk1) = map hdr_bare (dkim_hdrs dk)" "dkim_libhandle dk1 = dkim_libhandle dk" "dkim_key dk1 = dkim_key dk"
    "\<forall>i<length (dkim_hdrs dk1). hdr_signed (dkim_hdrs dk1 ! i) = may_sign e (dkim_libhandle dk) (dkim_hdrs dk ! i)"
    using run unfolding headers_run_def by blast+
  have rsa': "\<forall>nid d n. sg_keysize s (the (dkim_key dk2)) = Some n \<longrightarrow> length (sg_rsa_sign s nid d (the (dkim_key dk2))) \<in> {0, n}"
    using rsa by (simp add: same(4) r(5))
  obtain dk'' where g: "dkim_getsighdr_d e dk' (length DKIM_SIGNHEADER + 2) = (DKIM_STAT_OK, sig_layout e dk' (the (dkim_b64sig dk')), dk'')"
    "canon_hash (dkim_canons dk' ! 0) = sv_hash (sv_put (canon_view (dkim_canons dk2 ! 0))
      (canon_sig (canon_canon (dkim_canons dk2 ! 0)) (DKIM_SIGNHEADER @ '': '' @ sig_layout e dk' (the (dkim_b64sig dk')))))"
    "dkim_b64sig dk' = Some (b64_ref (sg_rsa_sign s (sign_nid (dkim_siglist dk' ! 0))
      (canon_digest e (dkim_canons dk' ! 0)) (the (dkim_key dk2))))"
    using sent_header [OF mem rd em fit rsa'] by blast
  have f: "dkim_hdrs dk' = dkim_hdrs dk1" "dkim_libhandle dk' = dkim_libhandle dk"
    using eom_sign_frame [OF em] same(2,3) r(4) by simp_all
  have "canon_hash (dkim_canons dk' ! 0) = header_hash_input (dkim_hdrcanonalg dk)
      (sig_field (sig_layout e dk' (the (dkim_b64sig dk'))) # dkim_hdrs dk) (colons (h_names dk')) 0"
    unfolding g(2) same(1) r(1,2) sv_init_put
    using verifier_hash [OF re nf ok, of dk'] r(3,6) f by simp
  then show ?thesis using g(1,3) by (simp add: same(4) r(5))
qed



end
