(* ===== verification/Dkim_Genuine.thy ===== *)
theory Dkim_Genuine
  imports Dkim_Verify
begin

text \<open>
  What the flags of a signature stand for, and that verification keeps them true. \<open>sig_genuine\<close> relates
  an element of \<open>dkim_siglist\<close> to the canonicalizations, the tag sets and RSA; \<open>dk_grows\<close> is what every
  operation between the end of the header and the end of the message does to the parts it rests on:
  tag sets are appended, a finished canonicalization stays as it is, the wiring of the others too.

  \<open>verify_step\<close> is the relation of the steps of a verification, \<open>verify_inv\<close> its invariant, and the
  last sections take it through \<open>dkim_eoh_verify\<close> and \<open>dkim_eom_verify\<close> to the result of the library.
\<close>

subsection \<open>Growth of the handle\<close>

definition canon_config :: "canon \<Rightarrow> bool \<times> int \<times> int \<times> int \<times> string option \<times> nat option" where
  "canon_config c = (canon_hdr c, canon_canon c, canon_hashtype c, canon_length c, canon_hdrlist c, canon_sigheader c)"

definition canon_step :: "canon \<Rightarrow> canon \<Rightarrow> bool" where
  "canon_step c c' \<longleftrightarrow> canon_config c' = canon_config c \<and> (canon_done c \<longrightarrow> c' = c)"

definition dk_grows :: "dkim \<Rightarrow> dkim \<Rightarrow> bool" where
  "dk_grows dk dk' \<longleftrightarrow> (\<exists>sts. dkim_sets dk' = dkim_sets dk @ sts) \<and> dkim_libhandle dk' = dkim_libhandle dk \<and>
     list_all2 canon_step (dkim_canons dk) (dkim_canons dk')"

lemma canon_step_refl [simp]: "canon_step c c"
  by (simp add: canon_step_def)

lemma canon_step_trans: "canon_step a b \<Longrightarrow> canon_step b c \<Longrightarrow> canon_step a c"
  by (auto simp: canon_step_def)

lemma canons_refl [simp]: "list_all2 canon_step cs cs"
  by (simp add: list_all2_refl)

lemma grows_refl [simp]: "dk_grows dk dk"
  by (simp add: dk_grows_def)

lemma canonbuf_self: "\<exists>b. dk = dk\<lparr>dkim_canonbuf := b\<rparr>"
  by (rule exI [of _ "dkim_canonbuf dk"]) simp

lemma grows_trans [trans]: "dk_grows a b \<Longrightarrow> dk_grows b c \<Longrightarrow> dk_grows a c"
  unfolding dk_grows_def by (auto intro: list_all2_trans [where ?P1.0 = canon_step] canon_step_trans)

lemma grows_same:
  "dkim_sets dk' = dkim_sets dk @ sts \<Longrightarrow> dkim_libhandle dk' = dkim_libhandle dk \<Longrightarrow> dkim_canons dk' = dkim_canons dk \<Longrightarrow>
    dk_grows dk dk'"
  by (simp add: dk_grows_def)

lemma grows_sets: "dk_grows dk dk' \<Longrightarrow> k < length (dkim_sets dk) \<Longrightarrow>
    dkim_sets dk' ! k = dkim_sets dk ! k \<and> k < length (dkim_sets dk')"
  by (auto simp: dk_grows_def nth_append)

lemma grows_canon: "dk_grows dk dk' \<Longrightarrow> i < length (dkim_canons dk) \<Longrightarrow>
    canon_step (dkim_canons dk ! i) (dkim_canons dk' ! i) \<and> i < length (dkim_canons dk')"
  by (auto simp: dk_grows_def list_all2_conv_all_nth)

text \<open>The body and the header canonicalizations only move forward.\<close>

definition wiring :: "canon \<Rightarrow> string option \<times> nat option" where
  "wiring c = (canon_hdrlist c, canon_sigheader c)"

lemma config_kept: "kept c = kept c' \<Longrightarrow> wiring c = wiring c' \<Longrightarrow> canon_config c = canon_config c'"
  by (simp add: kept_def wiring_def canon_config_def)

lemma wiring_simps [simp]:
  "wiring (dkim_canon_buffer c s) = wiring c" "wiring (c\<lparr>canon_lastchar := x\<rparr>) = wiring c"
  "wiring (c\<lparr>canon_blankline := b\<rparr>) = wiring c" "wiring (c\<lparr>canon_blanks := n\<rparr>) = wiring c"
  by (simp_all add: wiring_def)

lemma wiring_flush [simp]: "wiring (flush_if_blanks c) = wiring c"
proof -
  have "wiring (((\<lambda>c. dkim_canon_buffer c s) ^^ n) c) = wiring c" for n s
    by (induction n) auto
  then show ?thesis by (simp add: flush_if_blanks_def dkim_canon_flushblanks_def)
qed

lemma wiring_newline [simp]: "wiring (bs_canon (body_newline t p st)) = wiring (bs_canon st)"
  by (simp add: body_newline_def Let_def)

lemma wiring_lone_cr [simp]: "wiring (body_lone_cr f p c) = wiring c"
  by (simp add: body_lone_cr_def)

lemma wiring_chunk [simp]: "wiring (canon_chunk f t c) = wiring c"
proof -
  have "wiring (bs_canon (body_loop step n c)) = wiring c"
    if "\<And>p st. wiring (bs_canon (step p st)) = wiring (bs_canon st)" for step n
    using that by (induction n) (auto simp: body_loop_def)
  moreover have "wiring (bs_canon (body_simple f t p st)) = wiring (bs_canon st)" for p st
    by (simp add: body_simple_def Let_def)
  moreover have "wiring (bs_canon (body_relaxed f t p st)) = wiring (bs_canon st)" for p st
    by (simp add: body_relaxed_def Let_def)
  ultimately show ?thesis by (simp add: canon_chunk_def Let_def)
qed

lemma bodychunk_canons_step:
  "bodychunk_canons e f buf dk cs = (st, dk', cs') \<Longrightarrow>
    list_all2 canon_step cs cs' \<and> (\<exists>b. dk' = dk\<lparr>dkim_canonbuf := b\<rparr>)"
proof (induction cs arbitrary: st dk dk' cs')
  case (Cons c cs)
  show ?case
  proof (cases "canon_done c \<or> canon_hdr c \<or> canon_remain c = 0")
    case True
    then obtain cs1 where "bodychunk_canons e f buf dk cs = (st, dk', cs1)" "cs' = c # cs1"
      using Cons.prems by (auto split: prod.splits)
    then show ?thesis using Cons.IH by simp
  next
    case False
    obtain st1 dk1 where fx: "(if f then dkim_canon_fixcrlf e dk c buf else (DKIM_STAT_OK, dk)) = (st1, dk1)"
      by force
    have b: "\<exists>b. dk1 = dk\<lparr>dkim_canonbuf := b\<rparr>"
      using fx canonbuf_self [of dk] by (auto simp: dkim_canon_fixcrlf_def split: if_splits option.splits)
    show ?thesis
    proof (cases "st1 = DKIM_STAT_OK")
      case True
      define c1 where "c1 = canon_chunk f (if f then ds_content (the (dkim_canonbuf dk1)) else buf) c"
      obtain cs1 where r: "bodychunk_canons e f buf dk1 cs = (st, dk', cs1)" "cs' = c1 # cs1"
        using Cons.prems False fx True by (auto simp: c1_def Let_def split: prod.splits)
      have "canon_step c c1" using False config_kept [of c1 c] by (simp add: canon_step_def c1_def)
      with Cons.IH [OF r(1)] b r(2) show ?thesis by auto
    next
      case st: False
      then have "dk' = dk1 \<and> cs' = c # cs" using Cons.prems False fx by (auto split: prod.splits)
      then show ?thesis using b by (simp add: list_all2_refl)
    qed
  qed
next
  case Nil
  then show ?case using canonbuf_self [of dk] by simp
qed

text \<open>The fields the invariant reads apart from those of \<open>dk_grows\<close>.\<close>

definition dk_quiet :: "dkim \<Rightarrow> dkim \<Rightarrow> bool" where
  "dk_quiet dk dk' \<longleftrightarrow> dk_grows dk dk' \<and> dkim_siglist dk' = dkim_siglist dk \<and> dkim_sigcount dk' = dkim_sigcount dk \<and>
     dkim_bodydone dk' = dkim_bodydone dk"

lemma quiet_refl [simp]: "dk_quiet dk dk"
  by (simp add: dk_quiet_def)

lemma quiet_trans [trans]: "dk_quiet a b \<Longrightarrow> dk_quiet b c \<Longrightarrow> dk_quiet a c"
  by (auto simp: dk_quiet_def intro: grows_trans)

lemma quiet_updates [simp]:
  "dk_quiet dk (dk'\<lparr>dkim_hdrbuf := hb\<rparr>) = dk_quiet dk dk'" "dk_quiet dk (dk'\<lparr>dkim_canonbuf := cb\<rparr>) = dk_quiet dk dk'"
  "dk_quiet dk (dk'\<lparr>dkim_hdrlist_buf := lb\<rparr>) = dk_quiet dk dk'" "dk_quiet dk (dk'\<lparr>dkim_hdrs := hs\<rparr>) = dk_quiet dk dk'"
  "dk_quiet dk (dk'\<lparr>dkim_state := st\<rparr>) = dk_quiet dk dk'" "dk_quiet dk (dk'\<lparr>dkim_bodylen := n\<rparr>) = dk_quiet dk dk'"
  by (simp_all add: dk_quiet_def dk_grows_def)

lemma quiet_canons:
  "list_all2 canon_step (dkim_canons dk) cs \<Longrightarrow> dk_quiet dk dk' \<Longrightarrow> dkim_canons dk' = dkim_canons dk \<Longrightarrow>
    dk_quiet dk (dk'\<lparr>dkim_canons := cs\<rparr>)"
  by (simp add: dk_quiet_def dk_grows_def)

lemma canon_step_update:
  "canon_step (cs ! i) c \<Longrightarrow> list_all2 canon_step cs (cs[i := c])"
  by (cases "i < length cs") (auto simp: list_all2_conv_all_nth nth_list_update)

lemma bodychunk_grows:
  assumes "dkim_canon_bodychunk e dk buf = (st, dk')"
  shows "dk_quiet dk dk'"
proof -
  define dk0 where "dk0 = dk\<lparr>dkim_bodylen := dkim_bodylen dk + length buf\<rparr>"
  obtain st1 dk1 cs where r: "bodychunk_canons e (lib_flag dk0 DKIM_LIBFLAGS_FIXCRLF \<and> dkim_mode dk0 = DKIM_MODE_SIGN)
      buf dk0 (dkim_canons dk0) = (st1, dk1, cs)" by (metis prod_cases3)
  then have "dk' = dk1\<lparr>dkim_canons := cs\<rparr>"
    using assms by (simp add: dkim_canon_bodychunk_def Let_def dk0_def)
  moreover obtain b where "dk1 = dk0\<lparr>dkim_canonbuf := b\<rparr>" "list_all2 canon_step (dkim_canons dk0) cs"
    using bodychunk_canons_step [OF r] by blast
  ultimately show ?thesis by (auto simp: dk0_def intro: quiet_canons)
qed

lemma canon_close_step: "canon_step c (canon_close c) \<and> (canon_hdr c \<or> canon_done (canon_close c))"
  by (auto simp: canon_step_def canon_config_def canon_close_def Let_def)

lemma closebody_grows:
  "dk_grows dk (snd (dkim_canon_closebody dk)) \<and> (\<forall>c\<in>set (dkim_canons (snd (dkim_canon_closebody dk))). canon_hdr c \<or> canon_done c)"
proof -
  have "canon_hdr (canon_close c) = canon_hdr c" for c
    using canon_close_step [of c] by (simp add: canon_step_def canon_config_def)
  then show ?thesis
    using canon_close_step by (auto simp: dkim_canon_closebody_def dk_grows_def list_all2_conv_all_nth)
qed

lemma selecthdrs_quiet: "dkim_canon_selecthdrs e dk l n = (sel, oob, dk') \<Longrightarrow> dk_quiet dk dk' \<and> dkim_canons dk' = dkim_canons dk"
  by (auto simp: dkim_canon_selecthdrs_def Let_def split: option.splits if_splits prod.splits)

lemma canon_selected_frame:
  "canon_selected e dk c is = (st, dk', c') \<Longrightarrow> (\<exists>b. dk' = dk\<lparr>dkim_canonbuf := b\<rparr>) \<and> canon_config c' = canon_config c"
proof (induction e dk c "is" rule: canon_selected.induct)
  case (1 e dk c)
  then show ?case using canonbuf_self [of dk] by simp
next
  case (2 e dk c i "is")
  show ?case
  proof (cases "hdr_signed (dkim_hdrs dk ! i)")
    case True
    obtain st1 dk1 c1 where h: "dkim_canon_header e dk c (dkim_hdrs dk ! i) True = (st1, dk1, c1)" by (metis prod_cases3)
    obtain b where b: "dk1 = dk\<lparr>dkim_canonbuf := b\<rparr>" "canon_config c1 = canon_config c"
      using canon_header_frame [OF h] config_kept [of c1 c] by (auto simp: wiring_def)
    show ?thesis
    proof (cases "st1 = DKIM_STAT_OK")
      case ok: True
      then have "canon_selected e dk1 c1 is = (st, dk', c')" using "2.prems" True h by simp
      with "2.IH"(1) [OF True h [symmetric] refl] ok b show ?thesis by auto
    next
      case False
      then show ?thesis using "2.prems" True h b by auto
    qed
  next
    case False
    then show ?thesis using 2 by simp
  qed
qed

lemma canon_sigfield_frame:
  assumes "canon_sigfield e dk c l = (st, dk', c', l')"
  shows "(\<exists>hb b. dk' = dk\<lparr>dkim_hdrbuf := hb, dkim_canonbuf := b\<rparr>) \<and> canon_config c' = canon_config c"
proof -
  let ?d = "dkim_dstring_blank (the (dkim_hdrbuf dk))" and ?text = "hdr_text (dkim_hdrs dk ! the (canon_sigheader c))"
  obtain r l1 where sb: "strip_b_loop (env_malloc e) (?d, []) NUL l ?text = (r, l1)" by force
  have upd: "\<exists>hb' b. dk\<lparr>dkim_hdrbuf := hb\<rparr> = dk\<lparr>dkim_hdrbuf := hb', dkim_canonbuf := b\<rparr>" for hb
    by (intro exI [of _ hb] exI [of _ "dkim_canonbuf dk"]) simp
  show ?thesis
  proof (cases r)
    case (Inl d)
    then show ?thesis using assms sb upd by (auto simp: canon_sigfield_def Let_def)
  next
    case (Inr w)
    obtain ok d where fl: "hw_flush (env_malloc e) w = (ok, d)" by force
    show ?thesis
    proof (cases ok)
      case False
      then show ?thesis using assms sb Inr fl upd by (auto simp: canon_sigfield_def Let_def)
    next
      case True
      define tx where "tx = (if canon_canon c = DKIM_CANON_RELAXED then dkim_lowerhdr (dkim_dstring_get d) else dkim_dstring_get d)"
      define tmphdr where "tmphdr = \<lparr>hdr_signed = False, hdr_textlen = dkim_dstring_len d,
        hdr_namelen = hdr_namelen (dkim_hdrs dk ! the (canon_sigheader c)), hdr_text = tx,
        hdr_colon = hdr_colon (dkim_hdrs dk ! the (canon_sigheader c))\<rparr>"
      obtain st1 dk1 c1 where h: "dkim_canon_header e (dk\<lparr>dkim_hdrbuf := Some d\<rparr>) c tmphdr False = (st1, dk1, c1)"
        by (metis prod_cases3)
      have "dk' = dk1" "c' = (dkim_canon_buffer c1 [])\<lparr>canon_done := True\<rparr>"
        using assms sb Inr fl True h by (simp_all add: canon_sigfield_def Let_def tx_def tmphdr_def)
      moreover have "canon_config c1 = canon_config c" "\<exists>b. dk1 = dk\<lparr>dkim_hdrbuf := Some d, dkim_canonbuf := b\<rparr>"
        using canon_header_frame [OF h] config_kept [of c1 c] by (auto simp: wiring_def)
      ultimately show ?thesis by (auto simp: canon_config_def)
    qed
  qed
qed

lemma run_round_quiet:
  assumes "run_round e False i rs = (st, rs')"
  shows "dk_quiet (rs_dkim rs) (rs_dkim rs')"
proof (cases "open_hdr (dkim_canons (rs_dkim rs) ! i)")
  case False
  then show ?thesis using assms by (auto simp: run_round_def open_hdr_def Let_def)
next
  case True
  let ?dk = "rs_dkim rs" and ?c = "dkim_canons (rs_dkim rs) ! i"
  define r where "r = (case canon_hdrlist ?c of
      None \<Rightarrow> (Some (rs_hdrset rs), ?dk\<lparr>dkim_hdrs := map (\<lambda>h. h\<lparr>hdr_signed := True\<rparr>) (dkim_hdrs ?dk)\<rparr>)
    | Some l \<Rightarrow> (let (sel, _, dkim) = dkim_canon_selecthdrs e
         (?dk\<lparr>dkim_hdrs := map (\<lambda>h. h\<lparr>hdr_signed := False\<rparr>) (dkim_hdrs ?dk)\<rparr>) (Some l) (length (dkim_hdrs ?dk)) in (sel, dkim)))"
  obtain sel dk1 where r: "r = (sel, dk1)" by force
  have q1: "dk_quiet ?dk dk1" "dkim_canons dk1 = dkim_canons ?dk"
  proof -
    have "dk_quiet ?dk dk1 \<and> dkim_canons dk1 = dkim_canons ?dk"
    proof (cases "canon_hdrlist ?c")
      case None
      then show ?thesis using r by (auto simp: r_def)
    next
      case (Some l)
      then obtain oob where "dkim_canon_selecthdrs e (?dk\<lparr>dkim_hdrs := map (\<lambda>h. h\<lparr>hdr_signed := False\<rparr>) (dkim_hdrs ?dk)\<rparr>)
          (Some l) (length (dkim_hdrs ?dk)) = (sel, oob, dk1)"
        using r by (auto simp: r_def split: prod.splits)
      from selecthdrs_quiet [OF this] show ?thesis by (simp add: dk_quiet_def dk_grows_def)
    qed
    then show "dk_quiet ?dk dk1" "dkim_canons dk1 = dkim_canons ?dk" by simp_all
  qed
  have eq: "run_round e False i rs = (case sel of None \<Rightarrow> (DKIM_STAT_INTERNAL, rs\<lparr>rs_dkim := dk1\<rparr>)
      | Some hdrset \<Rightarrow>
          (let (st, dkim, cur) = canon_selected e dk1 ?c hdrset;
               put = (\<lambda>dkim cur. dkim\<lparr>dkim_canons := (dkim_canons dkim)[i := cur]\<rparr>) in
           if st \<noteq> DKIM_STAT_OK then (st, \<lparr>rs_dkim = put dkim cur, rs_hdrset = hdrset, rs_last = rs_last rs\<rparr>)
           else (let (st, dkim, cur, lst) = canon_sigfield e dkim cur (rs_last rs) in
              (st, \<lparr>rs_dkim = put dkim cur, rs_hdrset = hdrset, rs_last = lst\<rparr>))))"
    using True r by (cases sel) (simp_all add: run_round_def r_def open_hdr_def Let_def split: prod.split)
  have put: "dk_quiet ?dk (dk2\<lparr>dkim_canons := (dkim_canons dk2)[i := c]\<rparr>)"
    if "dk_quiet ?dk dk2" "dkim_canons dk2 = dkim_canons ?dk" "canon_config c = canon_config ?c" for dk2 c
    unfolding that(2)
    by (rule quiet_canons [OF canon_step_update that(1,2)]) (use that(3) True in \<open>simp add: canon_step_def open_hdr_def\<close>)
  show ?thesis
  proof (cases sel)
    case None
    then show ?thesis using assms q1 unfolding eq by auto
  next
    case (Some hdrset)
    obtain st2 dk2 c2 where s: "canon_selected e dk1 ?c hdrset = (st2, dk2, c2)" by (metis prod_cases3)
    obtain b where b: "dk2 = dk1\<lparr>dkim_canonbuf := b\<rparr>" "canon_config c2 = canon_config ?c"
      using canon_selected_frame [OF s] by blast
    obtain st3 dk3 c3 l3 where f: "canon_sigfield e dk2 c2 (rs_last rs) = (st3, dk3, c3, l3)" by (metis prod_cases4)
    obtain hb b3 where b3: "dk3 = dk2\<lparr>dkim_hdrbuf := hb, dkim_canonbuf := b3\<rparr>" "canon_config c3 = canon_config c2"
      using canon_sigfield_frame [OF f] by blast
    have "rs_dkim rs' = dk2\<lparr>dkim_canons := (dkim_canons dk2)[i := c2]\<rparr> \<or>
        rs_dkim rs' = dk3\<lparr>dkim_canons := (dkim_canons dk3)[i := c3]\<rparr>"
      using assms Some s f unfolding eq by (auto simp: Let_def split: if_splits)
    then show ?thesis using put [of dk2 c2] put [of dk3 c3] q1 b b3 by auto
  qed
qed

lemma run_rounds_quiet: "run_rounds e False is rs = (st, rs') \<Longrightarrow> dk_quiet (rs_dkim rs) (rs_dkim rs')"
proof (induction "is" arbitrary: rs)
  case (Cons i "is")
  obtain st1 rs1 where r: "run_round e False i rs = (st1, rs1)" by force
  with Cons run_round_quiet [OF r] show ?case by (auto split: if_splits intro: quiet_trans)
qed simp

lemma runheaders_quiet:
  assumes "dkim_canon_runheaders e dk False = (st, dk')"
  shows "dk_quiet dk dk'"
proof (cases "dk' = dk")
  case False
  then obtain d where "(case dkim_hdrbuf dk of
       None \<Rightarrow> dkim_dstring_new (env_malloc e) (int BUFRSZ) (int MAXBUFRSZ)
     | Some d \<Rightarrow> Some (dkim_dstring_blank d)) = Some d"
    using assms by (cases "dkim_hdrbuf dk") (auto simp: dkim_canon_runheaders_def split: if_splits option.splits)
  then obtain rs' where "run_rounds e False [0..<length (dkim_canons dk)]
      \<lparr>rs_dkim = dk\<lparr>dkim_hdrbuf := Some d\<rparr>, rs_hdrset = [], rs_last = NUL\<rparr> = (st, rs')" "dk' = rs_dkim rs'"
    using assms False by (auto simp: dkim_canon_runheaders_def Let_def split: if_splits prod.splits)
  from run_rounds_quiet [OF this(1)] this(2) show ?thesis by (simp add: dk_quiet_def dk_grows_def)
qed simp

subsection \<open>Genuine signatures\<close>

text \<open>The wiring of an element: its tags, the decoded "b=", and canonicalizations of its "h=" and hash.\<close>

definition sig_anchored :: "dkim \<Rightarrow> siginfo \<Rightarrow> bool" where
  "sig_anchored dk sg \<longleftrightarrow> (\<exists>k hc bc b sb.
     sig_taglist sg = Some k \<and> k < length (dkim_sets dk) \<and>
     sig_hdrcanon sg = Some hc \<and> hc < length (dkim_canons dk) \<and>
     sig_bodycanon sg = Some bc \<and> bc < length (dkim_canons dk) \<and> sig_sig sg = Some sb \<and>
     (let st = dkim_sets dk ! k; h = dkim_canons dk ! hc; bo = dkim_canons dk ! bc in
        sig_domain sg = dkim_param_get st ''d'' \<and> sig_selector sg = dkim_param_get st ''s'' \<and>
        dkim_param_get st ''b'' = Some b \<and> dkim_base64_decode b (length b) = Inr sb \<and>
        canon_hdr h \<and> canon_hdrlist h = dkim_param_get st ''h'' \<and> canon_sigheader h = set_udata st \<and>
        canon_canon h = sig_hdrcanonalg sg \<and> canon_hashtype h = sig_hashtype sg \<and>
        \<not> canon_hdr bo \<and> canon_canon bo = sig_bodycanonalg sg \<and> canon_hashtype bo = sig_hashtype sg))"

definition key_permits :: "world \<Rightarrow> dkim \<Rightarrow> siginfo \<Rightarrow> bool" where
  "key_permits w dk sg \<longleftrightarrow> (\<exists>kt. sig_keytaglist sg = Some kt \<and> kt < length (dkim_sets dk) \<and>
     key_refusal w dk sg (dkim_sets dk ! kt) = None)"

definition rsa_verified :: "world \<Rightarrow> env \<Rightarrow> dkim \<Rightarrow> siginfo \<Rightarrow> bool" where
  "rsa_verified w e dk sg \<longleftrightarrow>
     (let c = dkim_canons dk ! the (sig_hdrcanon sg); key = take (sig_keylen sg) (the (sig_key sg)) in
      canon_done c \<and> w_pubkey w key \<noteq> None \<and>
      w_rsa_verify w (if sig_hashtype sg = DKIM_HASHTYPE_SHA256 then NID_sha256 else NID_sha1)
        (canon_digest e c) (the (sig_sig sg)) key)"

definition body_matched :: "env \<Rightarrow> dkim \<Rightarrow> siginfo \<Rightarrow> bool" where
  "body_matched e dk sg \<longleftrightarrow>
     (let c = dkim_canons dk ! the (sig_bodycanon sg) in
      canon_done c \<and> dkim_param_get (dkim_sets dk ! the (sig_taglist sg)) ''bh'' = dkim_base64_encode (canon_digest e c) BUFRSZ)"

definition sig_genuine :: "world \<Rightarrow> env \<Rightarrow> dkim \<Rightarrow> siginfo \<Rightarrow> bool" where
  "sig_genuine w e dk sg \<longleftrightarrow>
     (sig_error sg = DKIM_SIGERROR_UNKNOWN \<longrightarrow> sig_anchored dk sg \<and> sig_bh sg = DKIM_SIGBH_UNTESTED) \<and>
     (flag_set sg DKIM_SIGFLAG_PASSED \<longrightarrow> flag_set sg DKIM_SIGFLAG_PROCESSED \<and>
        sig_anchored dk sg \<and> rsa_verified w e dk sg \<and> key_permits w dk sg \<and>
        (sig_error sg = DKIM_SIGERROR_OK \<longrightarrow> sig_bh sg \<noteq> DKIM_SIGBH_UNTESTED) \<and>
        sig_bh sg \<in> {DKIM_SIGBH_UNTESTED, DKIM_SIGBH_MATCH, DKIM_SIGBH_MISMATCH} \<and>
        (sig_bh sg = DKIM_SIGBH_MATCH \<longrightarrow> body_matched e dk sg))"

definition verify_inv :: "world \<Rightarrow> env \<Rightarrow> dkim \<Rightarrow> bool" where
  "verify_inv w e dk \<longleftrightarrow> (\<forall>sg\<in>set (dkim_siglist dk). sig_genuine w e dk sg) \<and>
     (\<forall>sg\<in>set (dkim_siglist dk). keytag_ok dk sg) \<and>
     dkim_sigcount dk \<le> length (dkim_siglist dk) \<and>
     (dkim_bodydone dk \<longrightarrow> (\<forall>c\<in>set (dkim_canons dk). canon_hdr c \<or> canon_done c))"

subsection \<open>Growth keeps signatures genuine\<close>

lemma getidentity_grows:
  assumes "dk_grows dk dk'" "the (sig_taglist sg) < length (dkim_sets dk)"
  shows "dkim_sig_getidentity dk' (Some sg) n = dkim_sig_getidentity dk (Some sg) n"
  using grows_sets [OF assms] by (simp add: dkim_sig_getidentity_def)

lemma key_refusal_grows:
  assumes "dk_grows dk dk'" "the (sig_taglist sg) < length (dkim_sets dk)"
  shows "key_refusal w dk' sg st = key_refusal w dk sg st"
proof -
  have "dkim_key_granok re dk' v p u = dkim_key_granok re dk v p u" for re v p u
    using assms(1) by (simp add: dkim_key_granok_def dk_grows_def)
  then show ?thesis unfolding key_refusal_def getidentity_grows [OF assms] by (simp only:)
qed

lemma anchored_tags: "sig_anchored dk sg \<Longrightarrow> the (sig_taglist sg) < length (dkim_sets dk)"
  by (auto simp: sig_anchored_def)

lemma anchored_grows:
  assumes "sig_anchored dk sg" "dk_grows dk dk'"
  shows "sig_anchored dk' sg"
proof -
  obtain k hc bc b sb where a: "sig_taglist sg = Some k" "k < length (dkim_sets dk)"
     "sig_hdrcanon sg = Some hc" "hc < length (dkim_canons dk)"
     "sig_bodycanon sg = Some bc" "bc < length (dkim_canons dk)" "sig_sig sg = Some sb"
     "let st = dkim_sets dk ! k; h = dkim_canons dk ! hc; bo = dkim_canons dk ! bc in
        sig_domain sg = dkim_param_get st ''d'' \<and> sig_selector sg = dkim_param_get st ''s'' \<and>
        dkim_param_get st ''b'' = Some b \<and> dkim_base64_decode b (length b) = Inr sb \<and>
        canon_hdr h \<and> canon_hdrlist h = dkim_param_get st ''h'' \<and> canon_sigheader h = set_udata st \<and>
        canon_canon h = sig_hdrcanonalg sg \<and> canon_hashtype h = sig_hashtype sg \<and>
        \<not> canon_hdr bo \<and> canon_canon bo = sig_bodycanonalg sg \<and> canon_hashtype bo = sig_hashtype sg"
    using assms(1) unfolding sig_anchored_def by blast
  have st: "dkim_sets dk' ! k = dkim_sets dk ! k" "k < length (dkim_sets dk')" using grows_sets [OF assms(2) a(2)] by auto
  have c: "canon_config (dkim_canons dk' ! hc) = canon_config (dkim_canons dk ! hc)" "hc < length (dkim_canons dk')"
    "canon_config (dkim_canons dk' ! bc) = canon_config (dkim_canons dk ! bc)" "bc < length (dkim_canons dk')"
    using grows_canon [OF assms(2) a(4)] grows_canon [OF assms(2) a(6)] by (auto simp: canon_step_def)
  show ?thesis
    unfolding sig_anchored_def
    by (rule exI [of _ k], rule exI [of _ hc], rule exI [of _ bc], rule exI [of _ b], rule exI [of _ sb])
      (use a st c in \<open>simp add: canon_config_def Let_def\<close>)
qed

lemma done_grows:
  "dk_grows dk dk' \<Longrightarrow> i < length (dkim_canons dk) \<Longrightarrow> canon_done (dkim_canons dk ! i) \<Longrightarrow> dkim_canons dk' ! i = dkim_canons dk ! i"
  using grows_canon by (auto simp: canon_step_def)

lemma anchored_canons:
  "sig_anchored dk sg \<Longrightarrow> the (sig_hdrcanon sg) < length (dkim_canons dk) \<and> the (sig_bodycanon sg) < length (dkim_canons dk)"
  by (auto simp: sig_anchored_def)

lemma genuine_grows:
  assumes "sig_genuine w e dk sg" "dk_grows dk dk'"
  shows "sig_genuine w e dk' sg"
proof (cases "flag_set sg DKIM_SIGFLAG_PASSED")
  case False
  then show ?thesis using assms anchored_grows [of dk sg dk'] by (auto simp: sig_genuine_def)
next
  case True
  then have g: "sig_anchored dk sg" "rsa_verified w e dk sg" "key_permits w dk sg"
    "sig_bh sg = DKIM_SIGBH_MATCH \<Longrightarrow> body_matched e dk sg"
    using assms(1) by (auto simp: sig_genuine_def)
  note c = anchored_canons [OF g(1)] and t = anchored_tags [OF g(1)]
  have "rsa_verified w e dk' sg"
    using g(2) done_grows [OF assms(2)] c by (simp add: rsa_verified_def Let_def)
  moreover have "key_permits w dk' sg"
    using g(3) grows_sets [OF assms(2)] key_refusal_grows [OF assms(2) t] by (auto simp: key_permits_def)
  moreover have "sig_bh sg = DKIM_SIGBH_MATCH \<Longrightarrow> body_matched e dk' sg"
    using g(4) done_grows [OF assms(2)] c grows_sets [OF assms(2) t] by (simp add: body_matched_def Let_def)
  ultimately show ?thesis
    using assms anchored_grows [OF g(1) assms(2)] True by (simp add: sig_genuine_def)
qed

lemma keytag_grows: "keytag_ok dk sg \<Longrightarrow> dk_grows dk dk' \<Longrightarrow> keytag_ok dk' sg"
  using grows_sets by (simp add: keytag_ok_def)

lemma inv_quiet:
  assumes "verify_inv w e dk" "dk_quiet dk dk'"
  shows "verify_inv w e dk'"
proof -
  have grow: "dk_grows dk dk'" using assms(2) by (simp add: dk_quiet_def)
  have "canon_hdr (dkim_canons dk' ! i) \<or> canon_done (dkim_canons dk' ! i)"
    if "dkim_bodydone dk" "i < length (dkim_canons dk')" for i
  proof -
    have i: "i < length (dkim_canons dk)" using grow that(2) list_all2_lengthD by (fastforce simp: dk_grows_def)
    then have "canon_hdr (dkim_canons dk ! i) \<or> canon_done (dkim_canons dk ! i)"
      using assms(1) that(1) by (simp add: verify_inv_def)
    then show ?thesis using grows_canon [OF grow i] by (auto simp: canon_step_def canon_config_def)
  qed
  then show ?thesis
    using assms genuine_grows [OF _ grow] keytag_grows [OF _ grow] by (simp add: verify_inv_def dk_quiet_def all_set_conv_all_nth)
qed

subsection \<open>One signature\<close>

lemma set_sig_fields [simp]:
  "dkim_siglist (set_sig dk j sg) = (dkim_siglist dk)[j := sg]" "dkim_sets (set_sig dk j sg) = dkim_sets dk"
  "dkim_canons (set_sig dk j sg) = dkim_canons dk" "dkim_libhandle (set_sig dk j sg) = dkim_libhandle dk"
  "dkim_sigcount (set_sig dk j sg) = dkim_sigcount dk" "dkim_bodydone (set_sig dk j sg) = dkim_bodydone dk"
  "dkim_hdrs (set_sig dk j sg) = dkim_hdrs dk"
  by (simp_all add: set_sig_def)

lemma set_sig_grows [simp]: "dk_grows dk (set_sig dk' j sg) = dk_grows dk dk'"
  by (simp add: dk_grows_def)

lemma set_sig_set [simp]: "set_sig (set_sig dk j sg) j sg' = set_sig dk j sg'"
  by (simp add: set_sig_def)

lemma inv_set_sig:
  assumes "verify_inv w e dk" "dk_quiet dk dk'" "sig_genuine w e dk' sg" "keytag_ok dk' sg"
  shows "verify_inv w e (set_sig dk' j sg)"
proof -
  have v: "verify_inv w e dk'" by (rule inv_quiet [OF assms(1,2)])
  have mem: "x = sg \<or> x \<in> set (dkim_siglist dk')" if "x \<in> set ((dkim_siglist dk')[j := sg])" for x
    using that set_update_subset_insert [of "dkim_siglist dk'" j sg] by auto
  have "sig_genuine w e (set_sig dk' j sg) x" if "x \<in> set ((dkim_siglist dk')[j := sg])" for x
    by (rule genuine_grows [of w e dk']) (use mem [OF that] v assms(3) in \<open>auto simp: verify_inv_def\<close>)
  moreover have "keytag_ok (set_sig dk' j sg) x" if "x \<in> set ((dkim_siglist dk')[j := sg])" for x
    using mem [OF that] v assms(4) by (auto simp: verify_inv_def keytag_ok_def)
  ultimately show ?thesis using v by (simp add: verify_inv_def)
qed

text \<open>Elements that differ only in fields the anchor does not read.\<close>

definition same_anchor :: "siginfo \<Rightarrow> siginfo \<Rightarrow> bool" where
  "same_anchor a b \<longleftrightarrow> sig_taglist a = sig_taglist b \<and> sig_hdrcanon a = sig_hdrcanon b \<and> sig_bodycanon a = sig_bodycanon b \<and>
     sig_sig a = sig_sig b \<and> sig_domain a = sig_domain b \<and> sig_selector a = sig_selector b \<and> sig_hashtype a = sig_hashtype b \<and>
     sig_hdrcanonalg a = sig_hdrcanonalg b \<and> sig_bodycanonalg a = sig_bodycanonalg b"

lemma anchored_same: "same_anchor a b \<Longrightarrow> sig_anchored dk a = sig_anchored dk b"
  unfolding sig_anchored_def same_anchor_def Let_def by simp

lemma key_fields_anchor: "key_fields sg sg' \<Longrightarrow> same_anchor sg' sg \<and> sig_bh sg' = sig_bh sg"
  by (auto simp: key_fields_def same_anchor_def)

lemma key_fields_flags: "key_fields sg sg' \<Longrightarrow>
    flag_set sg' DKIM_SIGFLAG_PASSED = flag_set sg DKIM_SIGFLAG_PASSED \<and>
    flag_set sg' DKIM_SIGFLAG_PROCESSED = flag_set sg DKIM_SIGFLAG_PROCESSED"
  using flags_extend_bits by (fastforce simp: key_fields_def)

lemma or_flag_bits [simp]:
  "and (or f DKIM_SIGFLAG_PROCESSED) DKIM_SIGFLAG_PASSED = and (f::32 word) DKIM_SIGFLAG_PASSED"
  "and (or f DKIM_SIGFLAG_IGNORE) DKIM_SIGFLAG_PASSED = and f DKIM_SIGFLAG_PASSED"
  "and (or f DKIM_SIGFLAG_IGNORE) DKIM_SIGFLAG_PROCESSED = and f DKIM_SIGFLAG_PROCESSED"
  "and (or f DKIM_SIGFLAG_PASSED) DKIM_SIGFLAG_PROCESSED = and f DKIM_SIGFLAG_PROCESSED"
  "and (or f DKIM_SIGFLAG_PROCESSED) DKIM_SIGFLAG_PROCESSED = DKIM_SIGFLAG_PROCESSED"
  "and (or f DKIM_SIGFLAG_PASSED) DKIM_SIGFLAG_PASSED = DKIM_SIGFLAG_PASSED"
  by (simp_all add: bit.conj_disj_distrib2)

lemma not_passed_genuine:
  "\<not> flag_set sg DKIM_SIGFLAG_PASSED \<Longrightarrow>
    (sig_error sg = DKIM_SIGERROR_UNKNOWN \<Longrightarrow> sig_anchored dk sg \<and> sig_bh sg = DKIM_SIGBH_UNTESTED) \<Longrightarrow> sig_genuine w e dk sg"
  by (auto simp: sig_genuine_def)

text \<open>What getting a key does to the handle and the element, and what the key allows on success.\<close>

lemma get_key_grows:
  assumes "dkim_get_key w e dk j = (st, dk')" "j < length (dkim_siglist dk)" "verify_inv w e dk"
  obtains dk1 sg where "dk' = set_sig dk1 j sg" "dk_quiet dk dk1" "key_fields (dkim_siglist dk ! j) sg" "keytag_ok dk1 sg"
    "st = DKIM_STAT_OK \<Longrightarrow> key_permits w dk1 sg \<and> sig_error sg = sig_error (dkim_siglist dk ! j)"
proof -
  obtain dk1 sg where g: "get_key_sig w e dk j = (st, dk1, sg)" "dk' = set_sig dk1 j sg"
    using assms(1) by (auto simp: dkim_get_key_def set_sig_def split: prod.splits)
  note S = get_key_stages [OF g(1)]
  then obtain sts where "dk1 = dk\<lparr>dkim_sets := dkim_sets dk @ sts\<rparr>" by blast
  then have q: "dk_quiet dk dk1" by (simp add: dk_quiet_def dk_grows_def)
  have kt: "keytag_ok dk1 sg \<and> (st = DKIM_STAT_OK \<longrightarrow> sig_keytaglist sg \<noteq> None)"
    by (rule get_key_taglist [OF g(1) _ assms(2)]) (use assms(3) in \<open>simp add: verify_inv_def\<close>)
  have "key_permits w dk1 sg \<and> sig_error sg = sig_error (dkim_siglist dk ! j)" if "st = DKIM_STAT_OK"
  proof -
    from mp [OF conjunct2 [OF conjunct2 [OF S]] that] obtain gotkey sg1 sg2 sg3 where
      err: "sig_error sg2 = sig_error (dkim_siglist dk ! j)" and
      "let kset = dkim_sets dk1 ! the (sig_keytaglist sg2) in key_refusal w dk1 sg2 kset = None \<and>
        (if gotkey then (DKIM_STAT_OK, sg2) else key_decode e sg2 kset) = (DKIM_STAT_OK, sg3) \<and> sg = key_flags kset sg3"
      by (elim exE conjE)
    then have s: "key_refusal w dk1 sg2 (dkim_sets dk1 ! the (sig_keytaglist sg2)) = None"
      "(if gotkey then (DKIM_STAT_OK, sg2) else key_decode e sg2 (dkim_sets dk1 ! the (sig_keytaglist sg2))) = (DKIM_STAT_OK, sg3)"
      "sg = key_flags (dkim_sets dk1 ! the (sig_keytaglist sg2)) sg3"
      unfolding Let_def by simp_all
    obtain fl where fl: "sg = sg3\<lparr>sig_flags := fl\<rparr>" using key_flags_frame s(3) by blast
    have "sig_keytaglist sg3 = sig_keytaglist sg2 \<and> same_anchor sg3 sg2 \<and> sig_error sg3 = sig_error sg2"
    proof (cases gotkey)
      case False
      then have "key_decode e sg2 (dkim_sets dk1 ! the (sig_keytaglist sg2)) = (DKIM_STAT_OK, sg3)" using s(2) by simp
      from key_decode_frame [OF this] show ?thesis by (auto simp: same_anchor_def)
    qed (use s(2) in \<open>simp add: same_anchor_def\<close>)
    then have "sig_keytaglist sg = sig_keytaglist sg2" "sig_taglist sg2 = sig_taglist sg" "sig_hashtype sg2 = sig_hashtype sg"
      "sig_error sg = sig_error (dkim_siglist dk ! j)"
      by (simp_all add: fl same_anchor_def err)
    with kt that s(1) key_refusal_cong [of sg2 sg] show ?thesis by (auto simp: key_permits_def keytag_ok_def)
  qed
  with that q S g(2) kt show ?thesis by blast
qed

lemma key_failure_genuine:
  assumes "key_failure status sg = Some sg'" "\<not> flag_set sg DKIM_SIGFLAG_PASSED"
  shows "sig_genuine w e dk sg' \<and> sig_keytaglist sg' = sig_keytaglist sg"
proof -
  have "sig_error sg' \<noteq> DKIM_SIGERROR_UNKNOWN \<and> sig_flags sg' = or (sig_flags sg) DKIM_SIGFLAG_PROCESSED \<and>
      sig_keytaglist sg' = sig_keytaglist sg"
    using assms(1) by (auto simp: key_failure_def Let_def split: if_splits)
  then show ?thesis using assms(2) by (auto intro: not_passed_genuine)
qed

text \<open>The RSA check marks as passed exactly what verifies.\<close>

lemma sig_rsa_genuine:
  assumes "sig_anchored dk sg" "sig_bh sg = DKIM_SIGBH_UNTESTED" "\<not> flag_set sg DKIM_SIGFLAG_PASSED" "key_permits w dk sg"
    "sig_error sg = DKIM_SIGERROR_UNKNOWN" "dkim_canon_getfinal e (dkim_canons dk ! the (sig_hdrcanon sg)) = (st, Some digest)"
    "sig_rsa w e sg digest = Inl (st', sg') \<or> sig_rsa w e sg digest = Inr sg'"
  shows "sig_genuine w e dk sg' \<and> sig_keytaglist sg' = sig_keytaglist sg \<and> sig_bh sg' = DKIM_SIGBH_UNTESTED \<and>
    (sig_rsa w e sg digest = Inr sg' \<longrightarrow> flag_set sg' DKIM_SIGFLAG_PROCESSED)"
proof -
  let ?key = "take (sig_keylen sg) (the (sig_key sg))"
  have dig: "canon_done (dkim_canons dk ! the (sig_hdrcanon sg))" "digest = canon_digest e (dkim_canons dk ! the (sig_hdrcanon sg))"
    using assms(6) by (simp_all add: dkim_canon_getfinal_def split: if_splits)
  consider "sg' = sg" "sig_rsa w e sg digest = Inl (st', sg')"
    | "sg' = sg\<lparr>sig_error := DKIM_SIGERROR_KEYDECODE\<rparr>" "sig_rsa w e sg digest = Inl (st', sg')"
    | n where "w_pubkey w ?key = Some n" "sig_rsa w e sg digest = Inr sg'"
        "sg' = (let sg = sg\<lparr>sig_keybits := 8 * n\<rparr>;
           sg = (if w_rsa_verify w (if sig_hashtype sg = DKIM_HASHTYPE_SHA256 then NID_sha256 else NID_sha1) digest (the (sig_sig sg)) ?key
                 then sg\<lparr>sig_flags := or (sig_flags sg) DKIM_SIGFLAG_PASSED\<rparr>
                 else sg\<lparr>sig_error := DKIM_SIGERROR_BADSIG\<rparr>) in
           sg\<lparr>sig_flags := or (sig_flags sg) DKIM_SIGFLAG_PROCESSED\<rparr>)"
    using assms(7) by (auto simp: sig_rsa_def Let_def split: if_splits option.splits)
  then show ?thesis
  proof cases
    case 1
    then show ?thesis using assms(1-3) by (auto intro: not_passed_genuine)
  next
    case 2
    then show ?thesis using assms(2,3) by (auto intro: not_passed_genuine)
  next
    case (3 n)
    have "same_anchor sg' sg" "sig_keytaglist sg' = sig_keytaglist sg" "sig_bh sg' = DKIM_SIGBH_UNTESTED"
      "flag_set sg' DKIM_SIGFLAG_PROCESSED" "sig_key sg' = sig_key sg" "sig_keylen sg' = sig_keylen sg"
      using assms(2) by (simp_all add: 3(3) Let_def same_anchor_def)
    moreover have "sig_error sg' \<noteq> DKIM_SIGERROR_UNKNOWN \<or> flag_set sg' DKIM_SIGFLAG_PASSED" "sig_error sg' \<noteq> DKIM_SIGERROR_OK"
      by (simp_all add: 3(3) Let_def assms(5))
    moreover have "w_rsa_verify w (if sig_hashtype sg = DKIM_HASHTYPE_SHA256 then NID_sha256 else NID_sha1) digest (the (sig_sig sg)) ?key"
      if "flag_set sg' DKIM_SIGFLAG_PASSED"
      using that assms(3) by (auto simp: 3(3) Let_def split: if_splits)
    moreover have "key_refusal w dk sg' st = key_refusal w dk sg st" for st
      by (rule key_refusal_cong) (use \<open>same_anchor sg' sg\<close> in \<open>simp_all add: same_anchor_def\<close>)
    ultimately show ?thesis
      using assms(1,4) 3(1) dig anchored_same [of sg' sg dk]
      by (auto simp: sig_genuine_def rsa_verified_def key_permits_def same_anchor_def Let_def)
  qed
qed

text \<open>The body hash, the two late refusals and the final error code.\<close>

definition sig_finish :: "env \<Rightarrow> dkim \<Rightarrow> siginfo \<Rightarrow> siginfo" where
  "sig_finish e dk sg = sig_settle (sig_mustsign dk (sig_subdomain dk (sig_bodyhash e dk sg)))"

definition sig_settled :: "siginfo \<Rightarrow> bool" where
  "sig_settled sg \<longleftrightarrow> (flag_set sg DKIM_SIGFLAG_PASSED \<and> (sig_error sg = DKIM_SIGERROR_OK \<or> sig_error sg = DKIM_SIGERROR_UNKNOWN) \<longrightarrow>
     sig_bh sg \<noteq> DKIM_SIGBH_UNTESTED)"

lemma finish_error:
  "\<exists>err. sig_finish e dk sg = (sig_bodyhash e dk sg)\<lparr>sig_error := err\<rparr> \<and>
     (err = DKIM_SIGERROR_UNKNOWN \<longrightarrow> sig_error sg = DKIM_SIGERROR_UNKNOWN \<and> sig_bh (sig_bodyhash e dk sg) = DKIM_SIGBH_UNTESTED) \<and>
     (err = DKIM_SIGERROR_OK \<longrightarrow> sig_error sg = DKIM_SIGERROR_OK \<or> sig_bh (sig_bodyhash e dk sg) \<noteq> DKIM_SIGBH_UNTESTED)"
proof -
  let ?s = "sig_bodyhash e dk sg"
  have e0: "sig_error ?s = sig_error sg" by (simp add: sig_bodyhash_def Let_def)
  have self: "?s\<lparr>sig_error := sig_error sg\<rparr> = ?s" by (simp add: e0 [symmetric])
  have "sig_subdomain dk s = s \<or> sig_subdomain dk s = s\<lparr>sig_error := DKIM_SIGERROR_SUBDOMAIN\<rparr>" for s
    by (auto simp: sig_subdomain_def Let_def split: option.splits)
  from this [of ?s] have "\<exists>e1. sig_subdomain dk ?s = ?s\<lparr>sig_error := e1\<rparr> \<and> (e1 = sig_error sg \<or> e1 = DKIM_SIGERROR_SUBDOMAIN)"
  proof
    assume eq: "sig_subdomain dk ?s = ?s"
    show ?thesis unfolding eq by (rule exI [of _ "sig_error sg"]) (simp add: self)
  qed auto
  then obtain e1 where 1: "sig_subdomain dk ?s = ?s\<lparr>sig_error := e1\<rparr>" "e1 = sig_error sg \<or> e1 = DKIM_SIGERROR_SUBDOMAIN"
    by blast
  have "sig_mustsign dk s = s \<or> sig_mustsign dk s = s\<lparr>sig_error := DKIM_SIGERROR_MBSFAILED\<rparr>" for s
    by (auto simp: sig_mustsign_def split: option.splits)
  from this [of "?s\<lparr>sig_error := e1\<rparr>"] obtain e2 where
    2: "sig_mustsign dk (sig_subdomain dk ?s) = ?s\<lparr>sig_error := e2\<rparr>" "e2 = e1 \<or> e2 = DKIM_SIGERROR_MBSFAILED"
    unfolding 1(1) by (elim disjE) auto
  show ?thesis
  proof (cases "e2 = DKIM_SIGERROR_UNKNOWN \<and> sig_bh ?s \<noteq> DKIM_SIGBH_UNTESTED")
    case True
    then have "sig_finish e dk sg = ?s\<lparr>sig_error := DKIM_SIGERROR_OK\<rparr>" by (simp add: sig_finish_def 2(1) sig_settle_def)
    with True show ?thesis by (intro exI [of _ DKIM_SIGERROR_OK]) simp
  next
    case False
    then have "sig_finish e dk sg = ?s\<lparr>sig_error := e2\<rparr>" by (auto simp: sig_finish_def 2(1) sig_settle_def)
    with False 1(2) 2(2) show ?thesis by (intro exI [of _ e2]) auto
  qed
qed

lemma bodyhash_fields:
  "\<exists>bh. sig_bodyhash e dk sg = sg\<lparr>sig_bh := bh\<rparr>"
  "\<not> (dkim_bodydone dk \<and> sig_bh sg = DKIM_SIGBH_UNTESTED \<and> flag_set sg DKIM_SIGFLAG_PASSED) \<Longrightarrow> sig_bodyhash e dk sg = sg"
  by (auto simp: sig_bodyhash_def Let_def intro: exI [of _ "sig_bh sg"])

lemma finish_genuine:
  assumes g: "sig_genuine w e dk sg" and fin: "dkim_bodydone dk \<Longrightarrow> \<forall>c\<in>set (dkim_canons dk). canon_hdr c \<or> canon_done c"
  shows "sig_genuine w e dk (sig_finish e dk sg) \<and> (dkim_bodydone dk \<longrightarrow> sig_settled (sig_finish e dk sg))"
proof -
  let ?s = "sig_bodyhash e dk sg"
  obtain bh where bh: "?s = sg\<lparr>sig_bh := bh\<rparr>" using bodyhash_fields(1) by blast
  obtain err where err: "sig_finish e dk sg = ?s\<lparr>sig_error := err\<rparr>"
    "err = DKIM_SIGERROR_UNKNOWN \<Longrightarrow> sig_error sg = DKIM_SIGERROR_UNKNOWN \<and> sig_bh ?s = DKIM_SIGBH_UNTESTED"
    "err = DKIM_SIGERROR_OK \<Longrightarrow> sig_error sg = DKIM_SIGERROR_OK \<or> sig_bh ?s \<noteq> DKIM_SIGBH_UNTESTED"
    using finish_error by blast
  let ?f = "sg\<lparr>sig_bh := bh, sig_error := err\<rparr>"
  have f: "sig_finish e dk sg = ?f" by (simp add: err(1) bh)
  have "same_anchor ?f sg" by (simp add: same_anchor_def)
  then have anch: "sig_anchored dk ?f = sig_anchored dk sg" by (rule anchored_same)
  show ?thesis
  proof (cases "flag_set sg DKIM_SIGFLAG_PASSED")
    case False
    then have "bh = sig_bh sg" using bodyhash_fields(2) [of dk sg e] bh by (metis siginfo.select_convs(3) siginfo.update_convs(3) siginfo.surjective)
    then show ?thesis
      unfolding f using False g err(2) anch bh by (auto simp: sig_genuine_def sig_settled_def)
  next
    case True
    then have G: "flag_set sg DKIM_SIGFLAG_PROCESSED" "sig_anchored dk sg" "rsa_verified w e dk sg" "key_permits w dk sg"
      "sig_error sg = DKIM_SIGERROR_OK \<Longrightarrow> sig_bh sg \<noteq> DKIM_SIGBH_UNTESTED"
      "sig_bh sg \<in> {DKIM_SIGBH_UNTESTED, DKIM_SIGBH_MATCH, DKIM_SIGBH_MISMATCH}"
      "sig_bh sg = DKIM_SIGBH_MATCH \<Longrightarrow> body_matched e dk sg"
      using g unfolding sig_genuine_def by blast+
    have rsa: "rsa_verified w e dk ?f" using G(3) by (simp add: rsa_verified_def)
    have key: "key_permits w dk ?f"
      using G(4) key_refusal_cong [of ?f sg] by (simp add: key_permits_def)
    have body: "body_matched e dk ?f = body_matched e dk sg" by (simp add: body_matched_def)
    have test: "bh \<in> {DKIM_SIGBH_UNTESTED, DKIM_SIGBH_MATCH, DKIM_SIGBH_MISMATCH} \<and> (bh = DKIM_SIGBH_MATCH \<longrightarrow> body_matched e dk sg) \<and>
      (dkim_bodydone dk \<longrightarrow> bh \<noteq> DKIM_SIGBH_UNTESTED) \<and> (sig_bh sg \<noteq> DKIM_SIGBH_UNTESTED \<longrightarrow> bh = sig_bh sg)"
    proof (cases "dkim_bodydone dk \<and> sig_bh sg = DKIM_SIGBH_UNTESTED")
      case False
      then have "?s = sg" using bodyhash_fields(2) by blast
      then have "bh = sig_bh sg" using bh by (metis siginfo.select_convs(3) siginfo.update_convs(3) siginfo.surjective)
      then show ?thesis using G(6,7) False by auto
    next
      case b: True
      let ?c = "dkim_canons dk ! the (sig_bodycanon sg)"
      have "\<not> canon_hdr ?c" "the (sig_bodycanon sg) < length (dkim_canons dk)"
        using G(2) by (auto simp: sig_anchored_def Let_def)
      then have c: "canon_done ?c" using fin b nth_mem by blast
      have "sig_bh ?s = (if dkim_param_get (dkim_sets dk ! the (sig_taglist sg)) ''bh'' = dkim_base64_encode (canon_digest e ?c) BUFRSZ
          then DKIM_SIGBH_MATCH else DKIM_SIGBH_MISMATCH)"
        using b True c by (simp add: sig_bodyhash_def dkim_canon_getfinal_def Let_def)
      then have "bh = (if dkim_param_get (dkim_sets dk ! the (sig_taglist sg)) ''bh'' = dkim_base64_encode (canon_digest e ?c) BUFRSZ
          then DKIM_SIGBH_MATCH else DKIM_SIGBH_MISMATCH)" by (simp add: bh)
      then show ?thesis using c b by (simp add: body_matched_def Let_def)
    qed
    have e2: "err = DKIM_SIGERROR_UNKNOWN \<Longrightarrow> bh = DKIM_SIGBH_UNTESTED" "err = DKIM_SIGERROR_OK \<Longrightarrow> bh \<noteq> DKIM_SIGBH_UNTESTED"
      using err(2,3) G(5) test bh by auto
    show ?thesis
      unfolding f sig_genuine_def sig_settled_def anch body
      using True G(1,2) rsa key test e2 by auto
  qed
qed

text \<open>One call of \<open>dkim_sig_process\<close>: it rewrites one element, and when the body is done settles it.\<close>

definition process_post :: "world \<Rightarrow> env \<Rightarrow> nat \<Rightarrow> dkim \<Rightarrow> dkim \<Rightarrow> bool" where
  "process_post w e j dk dk' \<longleftrightarrow> verify_inv w e dk' \<and> (\<exists>dk1 sg. dk' = set_sig dk1 j sg \<and> dk_quiet dk dk1 \<and>
     flag_set sg DKIM_SIGFLAG_IGNORE = flag_set (dkim_siglist dk ! j) DKIM_SIGFLAG_IGNORE \<and>
     (dkim_bodydone dk \<and> \<not> flag_set sg DKIM_SIGFLAG_IGNORE \<longrightarrow> sig_settled sg))"

lemma process_postI:
  assumes "verify_inv w e dk" "dk_quiet dk dk1" "sig_genuine w e dk1 sg" "keytag_ok dk1 sg"
    "flag_set sg DKIM_SIGFLAG_IGNORE = flag_set (dkim_siglist dk ! j) DKIM_SIGFLAG_IGNORE"
    "dkim_bodydone dk \<Longrightarrow> \<not> flag_set sg DKIM_SIGFLAG_IGNORE \<Longrightarrow> sig_settled sg"
  shows "process_post w e j dk (set_sig dk1 j sg)"
  unfolding process_post_def using inv_set_sig [OF assms(1-4)] assms(2,5,6) by blast

lemma ignore_bits [simp]:
  "and (or f DKIM_SIGFLAG_PROCESSED) DKIM_SIGFLAG_IGNORE = and (f::32 word) DKIM_SIGFLAG_IGNORE"
  "and (or f DKIM_SIGFLAG_PASSED) DKIM_SIGFLAG_IGNORE = and f DKIM_SIGFLAG_IGNORE"
  by (simp_all add: bit.conj_disj_distrib2)

lemma key_fields_ignore: "key_fields sg sg' \<Longrightarrow> flag_set sg' DKIM_SIGFLAG_IGNORE = flag_set sg DKIM_SIGFLAG_IGNORE"
  using flags_extend_bits by (fastforce simp: key_fields_def)

lemma key_failure_flags: "key_failure status sg = Some sg' \<Longrightarrow>
    flag_set sg' DKIM_SIGFLAG_IGNORE = flag_set sg DKIM_SIGFLAG_IGNORE \<and> flag_set sg' DKIM_SIGFLAG_PASSED = flag_set sg DKIM_SIGFLAG_PASSED"
  by (auto simp: key_failure_def Let_def split: if_splits)

lemma sig_rsa_flags:
  "sig_rsa w e sg digest = Inl (st, sg') \<Longrightarrow> sig_flags sg' = sig_flags sg"
  "sig_rsa w e sg digest = Inr sg' \<Longrightarrow> flag_set sg' DKIM_SIGFLAG_IGNORE = flag_set sg DKIM_SIGFLAG_IGNORE"
  by (auto simp: sig_rsa_def Let_def split: if_splits option.splits)

text \<open>Fetching and checking the key of a signature that has not been processed.\<close>

lemma fetch_post:
  assumes inv: "verify_inv w e dk" and j: "j < length (dkim_siglist dk)"
    and sg: "sig_error (dkim_siglist dk ! j) = DKIM_SIGERROR_UNKNOWN" "\<not> flag_set (dkim_siglist dk ! j) DKIM_SIGFLAG_PROCESSED"
  shows "case sig_fetch w e dk j of
      Inl (st, dk') \<Rightarrow> process_post w e j dk dk'
    | Inr dk' \<Rightarrow> \<exists>dk1 sg'. dk' = set_sig dk1 j sg' \<and> dk_quiet dk dk1 \<and> sig_genuine w e dk1 sg' \<and> keytag_ok dk1 sg' \<and>
        flag_set sg' DKIM_SIGFLAG_IGNORE = flag_set (dkim_siglist dk ! j) DKIM_SIGFLAG_IGNORE"
proof -
  let ?sg = "dkim_siglist dk ! j"
  have gen: "sig_genuine w e dk ?sg" "keytag_ok dk ?sg" using inv j by (simp_all add: verify_inv_def)
  then have np: "\<not> flag_set ?sg DKIM_SIGFLAG_PASSED" and anch: "sig_anchored dk ?sg" "sig_bh ?sg = DKIM_SIGBH_UNTESTED"
    using sg by (auto simp: sig_genuine_def)
  show ?thesis
  proof (cases "canon_done (dkim_canons dk ! the (sig_hdrcanon ?sg))")
    case False
    have "process_post w e j dk (set_sig dk j ?sg)"
      by (rule process_postI) (use inv gen np in \<open>auto simp: sig_settled_def\<close>)
    moreover have "set_sig dk j ?sg = dk" by (simp add: set_sig_def)
    ultimately show ?thesis using False by (simp add: sig_fetch_def dkim_canon_getfinal_def)
  next
    case True
    define digest where "digest = canon_digest e (dkim_canons dk ! the (sig_hdrcanon ?sg))"
    have fin: "dkim_canon_getfinal e (dkim_canons dk ! the (sig_hdrcanon ?sg)) = (DKIM_STAT_OK, Some digest)"
      using True by (simp add: dkim_canon_getfinal_def digest_def)
    obtain st dk' where gk: "dkim_get_key w e dk j = (st, dk')" by force
    obtain dk1 sg1 where K: "dk' = set_sig dk1 j sg1" "dk_quiet dk dk1" "key_fields ?sg sg1" "keytag_ok dk1 sg1"
      "st = DKIM_STAT_OK \<Longrightarrow> key_permits w dk1 sg1 \<and> sig_error sg1 = sig_error ?sg"
      using get_key_grows [OF gk j inv] by blast
    have el: "dkim_siglist dk' ! j = sg1" using K(1,2) j by (simp add: dk_quiet_def)
    have grow: "dk_grows dk dk1" using K(2) by (simp add: dk_quiet_def)
    have same: "same_anchor sg1 ?sg" "sig_bh sg1 = DKIM_SIGBH_UNTESTED" using key_fields_anchor [OF K(3)] anch by auto
    have a1: "sig_anchored dk1 sg1" using anchored_grows [OF anch(1) grow] anchored_same [OF same(1)] by simp
    have np1: "\<not> flag_set sg1 DKIM_SIGFLAG_PASSED" using key_fields_flags [OF K(3)] np by simp
    note ig = key_fields_ignore [OF K(3)]
    have eq: "sig_fetch w e dk j = (case key_failure st sg1 of
         Some sg \<Rightarrow> Inl (DKIM_STAT_OK, set_sig dk1 j sg)
       | None \<Rightarrow> if st \<noteq> DKIM_STAT_OK then Inl (st, set_sig dk1 j sg1)
           else (case sig_rsa w e sg1 digest of
               Inl (st, sg) \<Rightarrow> Inl (st, set_sig dk1 j sg) | Inr sg \<Rightarrow> Inr (set_sig dk1 j sg)))"
      unfolding sig_fetch_def fin gk prod.case option.case el unfolding K(1) set_sig_set ..
    show ?thesis
    proof (cases "key_failure st sg1")
      case (Some sg2)
      note kf = key_failure_genuine [OF Some np1] and fl = key_failure_flags [OF Some]
      have "process_post w e j dk (set_sig dk1 j sg2)"
        by (rule process_postI) (use inv K(2,4) kf fl ig np1 in \<open>auto simp: sig_settled_def keytag_ok_def\<close>)
      then show ?thesis by (simp add: eq Some)
    next
      case None
      show ?thesis
      proof (cases "st = DKIM_STAT_OK")
        case False
        have "process_post w e j dk (set_sig dk1 j sg1)"
          by (rule process_postI) (use inv K(2,4) a1 same(2) np1 ig in \<open>auto simp: sig_settled_def intro: not_passed_genuine\<close>)
        then show ?thesis by (simp add: eq None False)
      next
        case True
        have "canon_done (dkim_canons dk1 ! the (sig_hdrcanon sg1))"
          "dkim_canons dk1 ! the (sig_hdrcanon ?sg) = dkim_canons dk ! the (sig_hdrcanon ?sg)"
          using done_grows [OF grow _ \<open>canon_done _\<close>] anchored_canons [OF anch(1)] \<open>canon_done _\<close> same(1)
          by (auto simp: same_anchor_def)
        then have fin1: "dkim_canon_getfinal e (dkim_canons dk1 ! the (sig_hdrcanon sg1)) = (DKIM_STAT_OK, Some digest)"
          using same(1) by (simp add: dkim_canon_getfinal_def digest_def same_anchor_def)
        have err: "sig_error sg1 = DKIM_SIGERROR_UNKNOWN" "key_permits w dk1 sg1" using K(5) True sg(1) by auto
        show ?thesis
        proof (cases "sig_rsa w e sg1 digest")
          case (Inl r)
          then obtain st2 sg2 where r: "sig_rsa w e sg1 digest = Inl (st2, sg2)" by (cases r) auto
          note G = sig_rsa_genuine [OF a1 same(2) np1 err(2,1) fin1 disjI1 [OF r]]
          have "process_post w e j dk (set_sig dk1 j sg2)"
            by (rule process_postI)
              (use inv K(2,4) G ig np1 sig_rsa_flags(1) [OF r] in \<open>auto simp: sig_settled_def keytag_ok_def\<close>)
          then show ?thesis unfolding eq None by (simp add: True r)
        next
          case (Inr sg2)
          note G = sig_rsa_genuine [OF a1 same(2) np1 err(2,1) fin1 disjI2 [OF Inr]]
          have "keytag_ok dk1 sg2" using K(4) G by (auto simp: keytag_ok_def)
          then have "\<exists>dk1' sg'. set_sig dk1 j sg2 = set_sig dk1' j sg' \<and> dk_quiet dk dk1' \<and> sig_genuine w e dk1' sg' \<and>
              keytag_ok dk1' sg' \<and> flag_set sg' DKIM_SIGFLAG_IGNORE = flag_set ?sg DKIM_SIGFLAG_IGNORE"
            using K(2) G ig sig_rsa_flags(2) [OF Inr] by blast
          then show ?thesis unfolding eq None by (simp add: True Inr)
        qed
      qed
    qed
  qed
qed

lemma finish_set_sig: "sig_finish e (set_sig dk j x) sg = sig_finish e dk sg"
  unfolding sig_finish_def sig_bodyhash_def sig_subdomain_def sig_mustsign_def dkim_get_header_def set_sig_fields ..

lemma process_step:
  assumes inv: "verify_inv w e dk" and j: "j < length (dkim_siglist dk)"
  shows "process_post w e j dk (snd (dkim_sig_process w e dk j))"
proof -
  let ?sg = "dkim_siglist dk ! j"
  have gen: "sig_genuine w e dk ?sg" "keytag_ok dk ?sg" using inv j by (simp_all add: verify_inv_def)
  have self: "set_sig dk j ?sg = dk" by (simp add: set_sig_def)
  have fin: "dkim_bodydone dk \<Longrightarrow> \<forall>c\<in>set (dkim_canons dk). canon_hdr c \<or> canon_done c"
    using inv by (simp add: verify_inv_def)
  show ?thesis
  proof (cases "flag_set ?sg DKIM_SIGFLAG_IGNORE \<or> sig_error ?sg \<noteq> DKIM_SIGERROR_UNKNOWN")
    case True
    have "process_post w e j dk (set_sig dk j ?sg)"
      by (rule process_postI) (use inv gen True in \<open>auto simp: sig_settled_def sig_genuine_def\<close>)
    then show ?thesis using True by (auto simp: dkim_sig_process_def Let_def self)
  next
    case False
    have tail: "process_post w e j dk (set_sig dk2 j (sig_finish e dk2 (dkim_siglist dk2 ! j)))"
      if "dk2 = set_sig dk1 j sg" "dk_quiet dk dk1" "sig_genuine w e dk1 sg" "keytag_ok dk1 sg"
         "flag_set sg DKIM_SIGFLAG_IGNORE = flag_set ?sg DKIM_SIGFLAG_IGNORE" for dk1 dk2 sg
    proof -
      have el: "dkim_siglist dk2 ! j = sg" using that(1,2) j by (simp add: dk_quiet_def)
      have f2: "sig_finish e dk2 sg = sig_finish e dk1 sg"
        unfolding that(1) by (rule finish_set_sig)
      have "verify_inv w e dk1" by (rule inv_quiet [OF inv that(2)])
      then have G: "sig_genuine w e dk1 (sig_finish e dk1 sg)" "dkim_bodydone dk1 \<Longrightarrow> sig_settled (sig_finish e dk1 sg)"
        using finish_genuine [OF that(3)] by (simp_all add: verify_inv_def)
      obtain err bh where fe: "sig_finish e dk1 sg = sg\<lparr>sig_bh := bh, sig_error := err\<rparr>"
        using finish_error [of e dk1 sg] bodyhash_fields(1) [of e dk1 sg] by auto
      have bd: "dkim_bodydone dk1 = dkim_bodydone dk" using that(2) by (simp add: dk_quiet_def)
      have eq2: "set_sig dk2 j (sig_finish e dk2 (dkim_siglist dk2 ! j)) = set_sig dk1 j (sig_finish e dk1 sg)"
        unfolding el f2 unfolding that(1) set_sig_set ..
      show ?thesis
        unfolding eq2
        by (rule process_postI [OF inv that(2) G(1)])
          (use that(4,5) G(2) bd in \<open>simp_all add: fe keytag_ok_def\<close>)
    qed
    show ?thesis
    proof (cases "flag_set ?sg DKIM_SIGFLAG_PROCESSED")
      case True
      with False have "snd (dkim_sig_process w e dk j) = set_sig dk j (sig_finish e dk ?sg)"
        by (simp add: dkim_sig_process_def sig_finish_def Let_def)
      then show ?thesis using tail [OF self [symmetric] quiet_refl gen refl] by simp
    next
      case np: False
      note F = fetch_post [OF inv j _ np]
      show ?thesis
      proof (cases "sig_fetch w e dk j")
        case (Inl r)
        then show ?thesis using F False np by (auto simp: dkim_sig_process_def Let_def)
      next
        case (Inr dk2)
        then have "snd (dkim_sig_process w e dk j) = set_sig dk2 j (sig_finish e dk2 (dkim_siglist dk2 ! j))"
          using False np by (simp add: dkim_sig_process_def sig_finish_def Let_def)
        moreover obtain dk1 sg' where "dk2 = set_sig dk1 j sg'" "dk_quiet dk dk1" "sig_genuine w e dk1 sg'" "keytag_ok dk1 sg'"
          "flag_set sg' DKIM_SIGFLAG_IGNORE = flag_set ?sg DKIM_SIGFLAG_IGNORE"
          using F False Inr by auto
        ultimately show ?thesis using tail by simp
      qed
    qed
  qed
qed

end
