(* ===== verification/Dkim_Result.thy ===== *)
theory Dkim_Result
  imports Dkim_Genuine "HOL-Library.Multiset"
begin

text \<open>
  From one signature to the result of the library. \<open>verify_step\<close> is the relation of the operations that
  may run between the end of the header and the end of the message: body chunks, the header
  canonicalizations, and what a callback of the caller may do (process a signature, mark it, reorder
  the list). \<open>verify_inv\<close> is an invariant of it, \<open>dkim_eoh_verify\<close> establishes it on a fresh handle, and
  \<open>dkim_eom_verify\<close> answers "good" only for a genuine signature.
\<close>

subsection \<open>Steps of a verification\<close>

inductive verify_step :: "world \<Rightarrow> env \<Rightarrow> dkim \<Rightarrow> dkim \<Rightarrow> bool" for w :: world and e :: env where
  headers: "dkim_canon_runheaders e dk False = (st, dk') \<Longrightarrow> verify_step w e dk dk'"
| body: "dkim_canon_bodychunk e dk buf = (st, dk') \<Longrightarrow> verify_step w e dk dk'"
| process: "j < length (dkim_siglist dk) \<Longrightarrow> dkim_sig_process w e dk j = (st, dk') \<Longrightarrow> verify_step w e dk dk'"
| ignore: "j < length (dkim_siglist dk) \<Longrightarrow> verify_step w e dk (dkim_sig_ignore dk j)"
| reorder: "mset sgs = mset (dkim_siglist dk) \<Longrightarrow> verify_step w e dk (dk\<lparr>dkim_siglist := sgs\<rparr>)"

lemma ignore_genuine:
  "sig_genuine w e dk sg \<Longrightarrow> sig_genuine w e dk (sg\<lparr>sig_flags := or (sig_flags sg) DKIM_SIGFLAG_IGNORE\<rparr>)"
proof -
  have "and (or f DKIM_SIGFLAG_IGNORE) DKIM_SIGFLAG_PASSED = and f DKIM_SIGFLAG_PASSED"
    "and (or f DKIM_SIGFLAG_IGNORE) DKIM_SIGFLAG_PROCESSED = and f DKIM_SIGFLAG_PROCESSED" for f :: "32 word"
    by (simp_all add: bit.conj_disj_distrib2)
  moreover have "sig_anchored dk (sg\<lparr>sig_flags := f\<rparr>) = sig_anchored dk sg" for f
    by (rule anchored_same) (simp add: same_anchor_def)
  moreover have "key_permits w dk (sg\<lparr>sig_flags := f\<rparr>) = key_permits w dk sg" for f
  proof -
    have "key_refusal w dk (sg\<lparr>sig_flags := f\<rparr>) st = key_refusal w dk sg st" for st
      by (rule key_refusal_cong) simp_all
    then show ?thesis by (simp add: key_permits_def)
  qed
  ultimately show "sig_genuine w e dk sg \<Longrightarrow> ?thesis"
    by (simp add: sig_genuine_def rsa_verified_def body_matched_def)
qed

lemma step_inv:
  assumes "verify_step w e dk dk'" "verify_inv w e dk"
  shows "verify_inv w e dk'"
  using assms(1)
proof cases
  case (headers st)
  then show ?thesis using inv_quiet [OF assms(2)] runheaders_quiet by blast
next
  case (body buf st)
  then show ?thesis using inv_quiet [OF assms(2)] bodychunk_grows by blast
next
  case (process j st)
  then show ?thesis using process_step [OF assms(2), of j] by (simp add: process_post_def)
next
  case (ignore j)
  then have "sig_genuine w e dk (dkim_siglist dk ! j)" "keytag_ok dk (dkim_siglist dk ! j)"
    using assms(2) by (simp_all add: verify_inv_def)
  then show ?thesis unfolding ignore dkim_sig_ignore_def
    by (intro inv_set_sig [OF assms(2)] ignore_genuine) (simp_all add: keytag_ok_def)
next
  case (reorder sgs)
  then have "set sgs = set (dkim_siglist dk)" "length sgs = length (dkim_siglist dk)"
    by (metis set_mset_mset, metis size_mset)
  moreover have "sig_genuine w e (dk\<lparr>dkim_siglist := sgs\<rparr>) sg = sig_genuine w e dk sg" for sg
    using genuine_grows [of w e dk sg "dk\<lparr>dkim_siglist := sgs\<rparr>"] genuine_grows [of w e "dk\<lparr>dkim_siglist := sgs\<rparr>" sg dk]
    by (auto simp: dk_grows_def)
  ultimately show ?thesis
    using assms(2) unfolding reorder by (simp add: verify_inv_def keytag_ok_def)
qed

lemma steps_inv: "(verify_step w e)\<^sup>*\<^sup>* dk dk' \<Longrightarrow> verify_inv w e dk \<Longrightarrow> verify_inv w e dk'"
  by (induction rule: rtranclp_induct) (auto intro: step_inv)

subsection \<open>The end of the header on a fresh handle\<close>

text \<open>Elements before any key was fetched.\<close>

definition sig_fresh :: "siginfo \<Rightarrow> bool" where
  "sig_fresh sg \<longleftrightarrow> sig_flags sg = 0 \<and> sig_keytaglist sg = None"

lemma basics_fresh:
  "sig_basics e dk st sg = (dk', Inl sg') \<Longrightarrow> sig_fresh sg' = sig_fresh sg \<and> sig_taglist sg' = sig_taglist sg"
  "sig_basics e dk st sg = (dk', Inr sg') \<Longrightarrow> sig_fresh sg' = sig_fresh sg \<and> sig_taglist sg' = sig_taglist sg"
  by (auto simp: sig_basics_def Let_def sig_fresh_def split: option.splits if_splits prod.splits)

lemma algorithm_fresh:
  "sig_algorithm st sg = Inl sg' \<Longrightarrow> sig_fresh sg' = sig_fresh sg \<and> sig_taglist sg' = sig_taglist sg"
  "sig_algorithm st sg = Inr sg' \<Longrightarrow> sig_fresh sg' = sig_fresh sg \<and> sig_taglist sg' = sig_taglist sg"
  by (auto simp: sig_algorithm_def Let_def sig_fresh_def split: option.splits if_splits)

lemma override_fresh [simp]: "sig_fresh (override_query lib sg) = sig_fresh sg"
  by (simp add: override_query_def sig_fresh_def)

lemma last_tags_fresh:
  "sig_last_tags lib st sg = Inl sg' \<Longrightarrow> sig_fresh sg' = sig_fresh sg \<and> sig_taglist sg' = sig_taglist sg"
  "sig_last_tags lib st sg = Inr sg' \<Longrightarrow> sig_fresh sg' = sig_fresh sg \<and> sig_taglist sg' = sig_taglist sg"
  by (auto simp: sig_last_tags_def sig_querymethod_def sig_values_def Let_def sig_fresh_def override_query_def
      split: option.splits if_splits prod.splits sum.splits)

lemma first_tags_fresh:
  "sig_first_tags e dk st sg = (dk', Inl sg') \<Longrightarrow> sig_fresh sg' = sig_fresh sg \<and> sig_taglist sg' = sig_taglist sg"
  "sig_first_tags e dk st sg = (dk', Inr (sg', cs, h)) \<Longrightarrow> sig_fresh sg' = sig_fresh sg \<and> sig_taglist sg' = sig_taglist sg"
  by (auto simp: sig_first_tags_def sig_fresh_def split: prod.splits sum.splits dest!: basics_fresh algorithm_fresh)

lemma handles_fresh:
  "sig_handles e dk st sg cs h n = (ret, dk', sg') \<Longrightarrow> sig_fresh sg \<Longrightarrow> sig_fresh sg' \<and> sig_taglist sg' = sig_taglist sg"
  by (auto simp: sig_handles_def sig_fresh_def Let_def split: prod.splits sum.splits if_splits)

lemma fresh_error [simp]: "sig_fresh (sg\<lparr>sig_error := err\<rparr>) = sig_fresh sg"
  by (simp add: sig_fresh_def)

lemma element_fresh:
  assumes "siglist_element e dk k sg0 n = (ret, dk', sg, n')" "sig_fresh sg0"
  shows "sig_fresh sg \<and> sig_taglist sg = Some k"
proof -
  let ?sg1 = "override_query (dkim_libhandle dk) (sg0\<lparr>sig_error := DKIM_SIGERROR_UNKNOWN, sig_taglist := Some k\<rparr>)"
  have "sig_fresh ?sg1" "sig_taglist ?sg1 = Some k" using assms(2) by (simp_all add: sig_fresh_def override_query_def)
  then show ?thesis
    using assms(1) unfolding siglist_element_def Let_def
    by (auto split: prod.splits sum.splits if_splits dest!: first_tags_fresh last_tags_fresh handles_fresh)
qed

lemma add_canon_bodydone:
  "dkim_add_canon e dk hdr c ht hl sh n = (st, h, dk') \<Longrightarrow> dkim_bodydone dk' = dkim_bodydone dk"
  by (auto simp: dkim_add_canon_def split: option.splits if_splits)

lemma first_tags_bodydone: "sig_first_tags e dk st sg = (dk', r) \<Longrightarrow> dkim_bodydone dk' = dkim_bodydone dk"
  by (auto simp: sig_first_tags_def marked_def split: prod.splits sum.splits dest!: basics_marked)

lemma handles_bodydone:
  "sig_handles e dk st sg cs h n = (ret, dk', sg') \<Longrightarrow> dkim_bodydone dk' = dkim_bodydone dk"
  by (auto simp: sig_handles_def Let_def split: prod.splits sum.splits if_splits dest!: add_canon_bodydone)

lemma element_bodydone:
  "siglist_element e dk k sg n = (ret, dk', sg', n') \<Longrightarrow> dkim_bodydone dk' = dkim_bodydone dk"
  by (auto simp: siglist_element_def Let_def split: prod.splits sum.splits if_splits
      dest!: first_tags_bodydone handles_bodydone)

text \<open>The loop over the sets: every element is fresh, and those to be verified have a set.\<close>

definition list_fresh :: "dkim \<Rightarrow> bool" where
  "list_fresh dk \<longleftrightarrow> (\<forall>sg\<in>set (dkim_siglist dk). sig_fresh sg \<and>
     (sig_error sg = DKIM_SIGERROR_UNKNOWN \<longrightarrow> (\<exists>k. sig_taglist sg = Some k \<and> k < length (dkim_sets dk))))"

lemma siglist_loop_fresh:
  assumes "siglist_loop e dk ks c n = (DKIM_STAT_OK, dk')" "list_fresh dk" "\<forall>k\<in>set ks. k < length (dkim_sets dk)"
    "dkim_sigcount dk \<le> length (dkim_siglist dk)"
  shows "list_fresh dk' \<and> dkim_bodydone dk' = dkim_bodydone dk \<and> dkim_sigcount dk' = dkim_sigcount dk"
  using assms
proof (induction e dk ks c n rule: siglist_loop.induct)
  case (2 e dk k ks c n)
  obtain ret dk1 sg len where el: "siglist_element e dk k (dkim_siglist dk ! c) n = (ret, dk1, sg, len)"
    by (metis prod_cases4)
  let ?d = "dk1\<lparr>dkim_siglist := (dkim_siglist dk1)[c := sg]\<rparr>"
  show ?case
  proof (cases "c < dkim_sigcount dk \<and> \<not> set_bad (dkim_sets dk ! k)")
    case True
    then have ret: "ret = None" using "2.prems"(1) el by (cases ret) (auto simp: Let_def dest: element_return)
    have ext: "dk_extends dk dk1" using element_result [OF el [unfolded ret]] by blast
    have "dkim_siglist dk ! c \<in> set (dkim_siglist dk)" using True "2.prems"(4) by simp
    then have fr: "sig_fresh sg \<and> sig_taglist sg = Some k"
      using element_fresh [OF el] "2.prems"(2) by (simp add: list_fresh_def)
    have "list_fresh ?d"
      unfolding list_fresh_def
    proof
      fix x assume "x \<in> set (dkim_siglist ?d)"
      then have "x = sg \<or> x \<in> set (dkim_siglist dk)"
        using ext set_update_subset_insert [of "dkim_siglist dk1" c sg] by (auto simp: dk_extends_def)
      then show "sig_fresh x \<and> (sig_error x = DKIM_SIGERROR_UNKNOWN \<longrightarrow> (\<exists>k. sig_taglist x = Some k \<and> k < length (dkim_sets ?d)))"
        using fr ext "2.prems"(2,3) by (auto simp: list_fresh_def dk_extends_def)
    qed
    moreover have "siglist_loop e ?d ks (Suc c) len = (DKIM_STAT_OK, dk')"
      using "2.prems"(1) True el ret by (simp add: Let_def)
    ultimately show ?thesis
      using "2.IH"(2) [OF _ _ el [symmetric]] True ret ext "2.prems"(3,4) element_bodydone [OF el]
      by (simp add: dk_extends_def)
  next
    case False
    then show ?thesis using "2.IH"(1) "2.prems" by (auto split: if_splits)
  qed
qed simp

lemma init_loop_config:
  "canon_init_loop e tmp ts cs = (st, cs') \<Longrightarrow> map canon_config cs' = map canon_config cs"
  by (induction cs arbitrary: st cs') (auto simp: canon_config_def Let_def split: if_splits prod.splits)

text \<open>Setting up the list and the canonicalizations of a handle that has none.\<close>

lemma linked_anchored:
  "sig_linked dk sg \<Longrightarrow> sig_taglist sg = Some k \<Longrightarrow> k < length (dkim_sets dk) \<Longrightarrow> sig_anchored dk sg"
  unfolding sig_linked_def sig_anchored_def Let_def by fastforce

lemma anchored_config:
  assumes "sig_anchored dk sg" "dkim_sets dk' = dkim_sets dk" "map canon_config (dkim_canons dk') = map canon_config (dkim_canons dk)"
  shows "sig_anchored dk' sg"
proof -
  have "length (dkim_canons dk') = length (dkim_canons dk)" using assms(3) by (metis length_map)
  moreover have "canon_config (dkim_canons dk' ! i) = canon_config (dkim_canons dk ! i)" if "i < length (dkim_canons dk)" for i
    using assms(3) that calculation by (metis nth_map)
  ultimately show ?thesis
    using assms(1,2) unfolding sig_anchored_def Let_def canon_config_def by simp metis
qed

lemma fresh_inv:
  assumes "list_fresh dk" "siglist_inv e dk" "dkim_sigcount dk \<le> length (dkim_siglist dk)" "\<not> dkim_bodydone dk"
  shows "verify_inv w e dk"
proof -
  have "sig_genuine w e dk sg \<and> keytag_ok dk sg" if "sg \<in> set (dkim_siglist dk)" for sg
  proof -
    have "sig_flags sg = 0" "sig_keytaglist sg = None" using assms(1) that by (simp_all add: list_fresh_def sig_fresh_def)
    moreover have "sig_anchored dk sg \<and> sig_bh sg = DKIM_SIGBH_UNTESTED" if "sig_error sg = DKIM_SIGERROR_UNKNOWN"
    proof -
      have "sig_linked dk sg" using assms(2) that \<open>sg \<in> _\<close> by (simp add: siglist_inv_def)
      moreover from this have "sig_bh sg = DKIM_SIGBH_UNTESTED" by (auto simp: sig_linked_def)
      ultimately show ?thesis using assms(1) that \<open>sg \<in> _\<close> linked_anchored by (auto simp: list_fresh_def)
    qed
    ultimately show ?thesis by (simp add: sig_genuine_def keytag_ok_def)
  qed
  then show ?thesis using assms(3,4) by (simp add: verify_inv_def)
qed

lemma inv_init:
  assumes "verify_inv w e dk" "list_fresh dk" "\<not> dkim_bodydone dk"
    "map canon_config cs = map canon_config (dkim_canons dk)"
  shows "verify_inv w e (dk\<lparr>dkim_canons := cs\<rparr>)"
proof -
  have "sig_genuine w e (dk\<lparr>dkim_canons := cs\<rparr>) sg" if "sg \<in> set (dkim_siglist dk)" for sg
    using assms that anchored_config [of dk sg "dk\<lparr>dkim_canons := cs\<rparr>"]
    by (simp add: verify_inv_def sig_genuine_def list_fresh_def sig_fresh_def)
  then show ?thesis using assms(1,3) by (simp add: verify_inv_def keytag_ok_def)
qed

lemma eoh_signatures_inv:
  assumes "eoh_signatures w e dk = Inr dk'" "dkim_siglist dk = []" "\<not> dkim_bodydone dk"
  shows "verify_inv w e dk'"
proof -
  define dk0 where "dk0 = dk\<lparr>dkim_sigcount := dkim_sigcount dk
      + length (filter (\<lambda>k. \<not> set_bad (dkim_sets dk ! k)) (signature_sets dk))\<rparr>"
  obtain dk1 tmp where s: "dkim_siglist_setup e dk0 = (DKIM_STAT_OK, dk1)"
    "dkim_canon_init e dk1 tmp (w_tmpfile w) = (DKIM_STAT_OK, dk')"
    using assms(1,2) by (auto simp: eoh_signatures_def Let_def dk0_def split: if_splits prod.splits)
  let ?d = "dk0\<lparr>dkim_siglist := replicate (dkim_sigcount dk0) siginfo0\<rparr>"
  have l: "siglist_loop e ?d (signature_sets dk0) 0 (- 1) = (DKIM_STAT_OK, dk1)"
    using s(1) by (simp add: dkim_siglist_setup_def split: if_splits)
  have "list_fresh ?d" by (simp add: list_fresh_def sig_fresh_def siginfo0_def)
  then have f: "list_fresh dk1 \<and> dkim_bodydone dk1 = dkim_bodydone dk \<and> dkim_sigcount dk1 = dkim_sigcount dk0"
    using siglist_loop_fresh [OF l] by (simp add: signature_sets_def dk0_def)
  then have "verify_inv w e dk1"
    using fresh_inv [of dk1 e] siglist_setup_inv [OF s(1)] assms(3) by simp
  then show ?thesis
    using inv_init [of w e dk1] f assms(3) s(2) init_loop_config
    by (auto simp: dkim_canon_init_def split: prod.splits)
qed

lemma sender_frame:
  "eoh_sender e dk = Inr dk' \<Longrightarrow> dkim_siglist dk' = dkim_siglist dk \<and> dkim_bodydone dk' = dkim_bodydone dk"
  by (auto simp: eoh_sender_def Let_def split: option.splits prod.splits if_splits)

text \<open>What a callback may do: any number of the steps above.\<close>

definition callback_steps :: "world \<Rightarrow> env \<Rightarrow> (dkim \<Rightarrow> int \<times> dkim) option \<Rightarrow> bool" where
  "callback_steps w e f \<longleftrightarrow> (\<forall>dk. (verify_step w e)\<^sup>*\<^sup>* dk (snd (callback f dk)))"

lemma callback_inv:
  "callback_steps w e f \<Longrightarrow> callback f dk = (st, dk') \<Longrightarrow> verify_inv w e dk \<Longrightarrow> verify_inv w e dk'"
  using steps_inv unfolding callback_steps_def by (metis snd_conv)

lemma steps_bodydone:
  "(verify_step w e)\<^sup>*\<^sup>* dk dk' \<Longrightarrow> verify_inv w e dk \<Longrightarrow> dkim_bodydone dk' = dkim_bodydone dk"
proof (induction rule: rtranclp_induct)
  case (step b c)
  have "verify_inv w e b" using steps_inv [OF step.hyps(1) step.prems] .
  from step.hyps(2) have "dkim_bodydone c = dkim_bodydone b"
  proof cases
    case (process j st)
    then show ?thesis using process_step [OF \<open>verify_inv w e b\<close>, of j] by (auto simp: process_post_def dk_quiet_def)
  next
    case (headers st)
    then show ?thesis using runheaders_quiet by (auto simp: dk_quiet_def)
  next
    case (body buf st)
    then show ?thesis using bodychunk_grows by (auto simp: dk_quiet_def)
  qed (simp_all add: dkim_sig_ignore_def)
  then show ?case using step by simp
qed simp

lemma callback_bodydone:
  "callback_steps w e f \<Longrightarrow> callback f dk = (st, dk') \<Longrightarrow> verify_inv w e dk \<Longrightarrow> dkim_bodydone dk' = dkim_bodydone dk"
  using steps_bodydone unfolding callback_steps_def by (metis snd_conv)

lemma callback_none: "callback_steps w e None"
  by (simp add: callback_steps_def callback_def)

lemma process_frame:
  assumes "verify_inv w e dk" "j < dkim_sigcount dk" "dkim_sig_process w e dk j = (st, dk')"
  shows "verify_inv w e dk' \<and> dkim_sigcount dk' = dkim_sigcount dk \<and> dkim_bodydone dk' = dkim_bodydone dk"
proof -
  have "process_post w e j dk dk'" using process_step [OF assms(1), of j] assms by (simp add: verify_inv_def)
  then show ?thesis by (auto simp: process_post_def dk_quiet_def)
qed

lemma eoh_process_inv:
  "eoh_process w e js dk = (st, dk') \<Longrightarrow> verify_inv w e dk \<Longrightarrow> \<forall>j\<in>set js. j < dkim_sigcount dk \<Longrightarrow> verify_inv w e dk'"
proof (induction js arbitrary: dk)
  case (Cons j js)
  obtain st1 dk1 where p: "dkim_sig_process w e dk j = (st1, dk1)" by force
  with process_frame [OF Cons.prems(2) _ p] Cons show ?case by (auto simp: Let_def split: if_splits)
qed simp

lemma eoh_run_inv:
  assumes "eoh_run w e dk = (DKIM_STAT_OK, dk')" "verify_inv w e dk"
  shows "verify_inv w e dk'"
proof -
  obtain st1 dk1 where h: "dkim_canon_runheaders e dk False = (st1, dk1)" by force
  have "verify_inv w e dk1" using inv_quiet [OF assms(2)] runheaders_quiet [OF h] by blast
  with assms(1) eoh_process_inv [of w e _ dk1] show ?thesis
    by (auto simp: eoh_run_def h split: if_splits prod.splits option.splits)
qed

lemma callback_status_OK: "callback_status st \<noteq> DKIM_STAT_OK"
  by (simp add: callback_status_def)

lemma inv_state [simp]: "verify_inv w e (dk\<lparr>dkim_state := s\<rparr>) = verify_inv w e dk"
  using inv_quiet [of w e dk "dk\<lparr>dkim_state := s\<rparr>"] inv_quiet [of w e "dk\<lparr>dkim_state := s\<rparr>" dk]
  by (auto simp: dk_quiet_def dk_grows_def)

lemma sender_fail: "eoh_sender e dk = Inl (st, dk') \<Longrightarrow> st \<noteq> DKIM_STAT_OK"
  by (auto simp: eoh_sender_def Let_def split: option.splits prod.splits if_splits)

lemma signatures_fail: "eoh_signatures w e dk = Inl (st, dk') \<Longrightarrow> st \<noteq> DKIM_STAT_OK"
  by (auto simp: eoh_signatures_def Let_def split: prod.splits if_splits)

lemma eoh_verify_inv:
  assumes "dkim_eoh_verify w e dk = (DKIM_STAT_OK, dk')" "dkim_siglist dk = []" "\<not> dkim_bodydone dk"
    "callback_steps w e (w_prescreen w)"
  shows "verify_inv w e dk'"
proof -
  define dk0 where "dk0 = (if dkim_state dk < DKIM_STATE_EOH1 then dk\<lparr>dkim_state := DKIM_STATE_EOH1\<rparr> else dk)"
  obtain dk1 where s1: "eoh_sender e dk0 = Inr dk1"
    using assms(1) sender_fail [of e dk0]
    by (cases "eoh_sender e dk0") (auto simp: dkim_eoh_verify_def dk0_def Let_def split: if_splits)
  obtain dk2 where s2: "eoh_signatures w e dk1 = Inr dk2"
    using assms(1) s1 signatures_fail [of w e dk1]
    by (cases "eoh_signatures w e dk1") (auto simp: dkim_eoh_verify_def dk0_def Let_def split: if_splits)
  obtain st dk3 where s3: "callback (w_prescreen w) dk2 = (st, dk3)" by force
  have run: "eoh_run w e (dk3\<lparr>dkim_state := DKIM_STATE_EOH2\<rparr>) = (DKIM_STAT_OK, dk')"
    using assms(1) s1 s2 s3 callback_status_OK [of st]
    by (auto simp: dkim_eoh_verify_def dk0_def Let_def split: if_splits)
  have "dkim_siglist dk1 = []" "\<not> dkim_bodydone dk1"
    using sender_frame [OF s1] assms(2,3) by (simp_all add: dk0_def)
  then have "verify_inv w e dk2" by (rule eoh_signatures_inv [OF s2])
  then show ?thesis using callback_inv [OF assms(4) s3] eoh_run_inv [OF run] by simp
qed

subsection \<open>The end of the message\<close>

text \<open>Signatures whose "l=" is greater than the body are given up.\<close>

lemma toolarge_cases: "toolarge dk sg = sg \<or> toolarge dk sg = sg\<lparr>sig_error := DKIM_SIGERROR_TOOLARGE_L\<rparr>"
  by (simp add: toolarge_def Let_def split: option.split)

lemma error_genuine:
  assumes "sig_genuine w e dk sg" "err \<noteq> DKIM_SIGERROR_UNKNOWN" "err \<noteq> DKIM_SIGERROR_OK"
  shows "sig_genuine w e dk (sg\<lparr>sig_error := err\<rparr>)"
proof -
  have "sig_anchored dk (sg\<lparr>sig_error := err\<rparr>) = sig_anchored dk sg"
    by (rule anchored_same) (simp add: same_anchor_def)
  moreover have "key_refusal w dk (sg\<lparr>sig_error := err\<rparr>) st = key_refusal w dk sg st" for st
    by (rule key_refusal_cong) simp_all
  ultimately show ?thesis
    using assms by (simp add: sig_genuine_def key_permits_def rsa_verified_def body_matched_def)
qed

lemma siglist_genuine [simp]:
  "sig_genuine w e (dk\<lparr>dkim_siglist := l\<rparr>) sg = sig_genuine w e dk sg"
  using genuine_grows [of w e dk sg "dk\<lparr>dkim_siglist := l\<rparr>"] genuine_grows [of w e "dk\<lparr>dkim_siglist := l\<rparr>" sg dk]
  by (auto simp: dk_grows_def)

lemma mark_inv: "verify_inv w e dk \<Longrightarrow> verify_inv w e (mark_toolarge dk)"
proof -
  assume inv: "verify_inv w e dk"
  have "sig_genuine w e dk (toolarge dk sg) \<and> keytag_ok dk (toolarge dk sg)" if "sg \<in> set (dkim_siglist dk)" for sg
    using toolarge_cases [of dk sg] inv that error_genuine [of w e dk sg DKIM_SIGERROR_TOOLARGE_L]
    by (auto simp: verify_inv_def keytag_ok_def)
  then show ?thesis using inv by (simp add: verify_inv_def mark_toolarge_def keytag_ok_def)
qed

lemma close_inv:
  assumes "verify_inv w e dk"
  shows "verify_inv w e ((snd (dkim_canon_closebody dk))\<lparr>dkim_bodydone := True\<rparr>)"
proof -
  let ?d = "(snd (dkim_canon_closebody dk))\<lparr>dkim_bodydone := True\<rparr>"
  have g: "dk_grows dk ?d" using closebody_grows [of dk] by (simp add: dk_grows_def)
  moreover have "dkim_siglist ?d = dkim_siglist dk" "dkim_sigcount ?d = dkim_sigcount dk"
    by (simp_all add: dkim_canon_closebody_def)
  ultimately show ?thesis
    using assms genuine_grows [OF _ g] keytag_grows [OF _ g] closebody_grows [of dk] by (simp add: verify_inv_def)
qed

text \<open>After the loop over the signatures, those not ignored are settled, unless one was found.\<close>

lemma run_sigs_inv:
  assumes "run_sigs w e js dk = (r, dk')" "verify_inv w e dk" "dkim_bodydone dk" "distinct js"
    "\<forall>j\<in>set js. j < dkim_sigcount dk"
  shows "verify_inv w e dk' \<and> dkim_bodydone dk' \<and> dkim_sigcount dk' = dkim_sigcount dk \<and>
    (\<forall>i. i \<notin> set js \<longrightarrow> dkim_siglist dk' ! i = dkim_siglist dk ! i) \<and>
    (case r of Some j \<Rightarrow> j \<in> set js \<and> sig_good (dkim_siglist dk' ! j)
     | None \<Rightarrow> \<forall>j\<in>set js. flag_set (dkim_siglist dk' ! j) DKIM_SIGFLAG_IGNORE \<or> sig_settled (dkim_siglist dk' ! j))"
  using assms
proof (induction js arbitrary: dk)
  case (Cons j js)
  have j: "j < length (dkim_siglist dk)" using Cons.prems(2,5) by (auto simp: verify_inv_def)
  show ?case
  proof (cases "flag_set (dkim_siglist dk ! j) DKIM_SIGFLAG_IGNORE")
    case True
    then have "run_sigs w e js dk = (r, dk')" using Cons.prems(1) by simp
    from Cons.IH [OF this Cons.prems(2,3)] True Cons.prems(4,5) show ?thesis by (auto split: option.splits)
  next
    case False
    obtain st dk1 where p: "dkim_sig_process w e dk j = (st, dk1)" by force
    have post: "process_post w e j dk dk1" using process_step [OF Cons.prems(2) j] p by simp
    then have s: "dkim_siglist dk1 = (dkim_siglist dk)[j := dkim_siglist dk1 ! j]" "sig_settled (dkim_siglist dk1 ! j)"
      "verify_inv w e dk1" "dkim_bodydone dk1" "dkim_sigcount dk1 = dkim_sigcount dk"
      using j False Cons.prems(3) by (auto simp: process_post_def dk_quiet_def)
    show ?thesis
    proof (cases "st = DKIM_STAT_OK \<and> sig_good (dkim_siglist dk1 ! j)")
      case True
      then have "r = Some j \<and> dk' = dk1" using Cons.prems(1) False p by simp
      moreover have "dkim_siglist dk1 ! i = dkim_siglist dk ! i" if "i \<noteq> j" for i using s(1) that by (metis nth_list_update_neq)
      ultimately show ?thesis using True s by simp
    next
      case notgood: False
      have "run_sigs w e js dk1 = (r, dk')" using Cons.prems(1) False notgood p by auto
      from Cons.IH [OF this s(3,4)] Cons.prems(4,5) s(5)
      have IH: "verify_inv w e dk' \<and> dkim_bodydone dk' \<and> dkim_sigcount dk' = dkim_sigcount dk"
        "\<forall>i. i \<notin> set js \<longrightarrow> dkim_siglist dk' ! i = dkim_siglist dk1 ! i"
        "case r of Some j \<Rightarrow> j \<in> set js \<and> sig_good (dkim_siglist dk' ! j)
         | None \<Rightarrow> \<forall>j\<in>set js. flag_set (dkim_siglist dk' ! j) DKIM_SIGFLAG_IGNORE \<or> sig_settled (dkim_siglist dk' ! j)"
        by auto
      have "dkim_siglist dk' ! i = dkim_siglist dk ! i" if "i \<notin> set (j # js)" for i
        using IH(2) s(1) that by (metis list.set_intros nth_list_update_neq)
      moreover have "dkim_siglist dk' ! j = dkim_siglist dk1 ! j" using IH(2) Cons.prems(4) by simp
      ultimately show ?thesis using IH(1,3) s(2) by (auto split: option.splits)
    qed
  qed
qed auto

lemma find_upt: "find P [0 ..< n] = Some j \<Longrightarrow> j < n \<and> P j"
  by (auto simp: find_Some_iff)

lemma choose_sig_spec:
  assumes "choose_sig w e dk = (Some j, dk')" "verify_inv w e dk" "dkim_bodydone dk"
  shows "verify_inv w e dk' \<and> j < dkim_sigcount dk' \<and>
    (sig_good (dkim_siglist dk' ! j) \<or> sig_settled (dkim_siglist dk' ! j))"
proof (cases "find (\<lambda>j. sig_good (dkim_siglist dk ! j) \<and> \<not> flag_set (dkim_siglist dk ! j) DKIM_SIGFLAG_IGNORE)
    [0 ..< dkim_sigcount dk]")
  case (Some i)
  then show ?thesis using assms find_upt [OF Some] by (simp add: choose_sig_def)
next
  case None
  obtain r dk1 where r: "run_sigs w e [0 ..< dkim_sigcount dk] dk = (r, dk1)" by force
  note R = run_sigs_inv [OF r assms(2,3)]
  show ?thesis
  proof (cases r)
    case (Some i)
    then have "i = j \<and> dk' = dk1" using assms(1) None r by (simp add: choose_sig_def)
    then show ?thesis using R Some by simp
  next
    case none: None
    then have f: "first_enabled dk1 = Some j \<and> dk' = dk1" using assms(1) None r by (auto simp: choose_sig_def)
    then have "j < dkim_sigcount dk1 \<and> \<not> flag_set (dkim_siglist dk1 ! j) DKIM_SIGFLAG_IGNORE"
      using find_upt unfolding first_enabled_def by blast
    then show ?thesis using R none f by auto
  qed
qed

lemma final_result_OK:
  "final_result sg = DKIM_STAT_OK \<Longrightarrow> flag_set sg DKIM_SIGFLAG_PASSED \<and> sig_bh sg \<noteq> DKIM_SIGBH_MISMATCH \<and>
    (sig_error sg = DKIM_SIGERROR_OK \<or> sig_error sg = DKIM_SIGERROR_UNKNOWN)"
  by (auto simp: final_result_def split: if_splits)

lemma eom_unsigned_fail: "fst (eom_unsigned e dk) \<noteq> DKIM_STAT_OK"
  by (auto simp: eom_unsigned_def Let_def split: option.splits prod.splits)

lemma eom_verify_genuine:
  assumes "dkim_eom_verify w e dk = (DKIM_STAT_OK, tk, dk')" "verify_inv w e dk" "callback_steps w e (w_final w)"
  shows "\<exists>j. dkim_signature dk' = Some j \<and> j < length (dkim_siglist dk') \<and> sig_genuine w e dk' (dkim_siglist dk' ! j) \<and>
    flag_set (dkim_siglist dk' ! j) DKIM_SIGFLAG_PASSED \<and> sig_bh (dkim_siglist dk' ! j) = DKIM_SIGBH_MATCH"
proof -
  define dk0 where "dk0 = (if dkim_state dk < DKIM_STATE_EOM1 then dk\<lparr>dkim_state := DKIM_STATE_EOM1\<rparr> else dk)"
  define dk1 where "dk1 = (snd (dkim_canon_closebody dk0))\<lparr>dkim_bodydone := True\<rparr>"
  have i1: "verify_inv w e dk1" unfolding dk1_def by (rule close_inv) (simp add: dk0_def assms(2))
  obtain st dk2 where cb: "callback (w_final w) (mark_toolarge dk1) = (st, dk2)" by force
  obtain r dk3 where ch: "choose_sig w e (dk2\<lparr>dkim_state := DKIM_STATE_EOM2\<rparr>) = (r, dk3)" by force
  have eq: "dkim_eom_verify w e dk = (if dkim_state dk \<ge> DKIM_STATE_EOM2 then (DKIM_STAT_INVALID, False, dk)
     else if dkim_chunkstate dk0 \<noteq> DKIM_CHUNKSTATE_INIT \<and> dkim_chunkstate dk0 \<noteq> DKIM_CHUNKSTATE_DONE
     then (DKIM_STAT_INVALID, False, dk0)
     else if dkim_sigcount dk1 = 0 then (case eom_unsigned e dk1 of (status, dk) \<Rightarrow> (status, False, dk))
     else if st \<noteq> DKIM_CBSTAT_CONTINUE then (callback_status st, False, dk2)
     else case r of None \<Rightarrow> (DKIM_STAT_NOSIG, False, dk3)
     | Some j \<Rightarrow> (final_result (dkim_siglist dk3 ! j), final_result (dkim_siglist dk3 ! j) \<noteq> DKIM_STAT_CANTVRFY \<and>
         flag_set (dkim_siglist dk3 ! j) DKIM_SIGFLAG_TESTKEY, dk3\<lparr>dkim_signature := Some j\<rparr>))"
    unfolding dkim_eom_verify_def dk0_def [symmetric] Let_def unfolding dk1_def [symmetric] cb ch prod.case
    unfolding ch prod.case by (cases r) simp_all
  obtain j where j: "r = Some j" "final_result (dkim_siglist dk3 ! j) = DKIM_STAT_OK" "dk' = dk3\<lparr>dkim_signature := Some j\<rparr>"
    using assms(1) eom_unsigned_fail [of e dk1] callback_status_OK [of st] unfolding eq
    by (cases r) (auto split: if_splits prod.splits)
  have "verify_inv w e dk2" by (rule callback_inv [OF assms(3) cb mark_inv [OF i1]])
  moreover have "dkim_bodydone dk2"
    using callback_bodydone [OF assms(3) cb mark_inv [OF i1]] by (simp add: mark_toolarge_def dk1_def)
  ultimately have C: "verify_inv w e dk3" "j < dkim_sigcount dk3" "sig_good (dkim_siglist dk3 ! j) \<or> sig_settled (dkim_siglist dk3 ! j)"
    using choose_sig_spec [OF ch [unfolded j(1)]] by simp_all
  let ?sg = "dkim_siglist dk3 ! j"
  have jl: "j < length (dkim_siglist dk3)" using C(1,2) by (simp add: verify_inv_def)
  have g: "sig_genuine w e dk3 ?sg" using C(1) jl by (simp add: verify_inv_def)
  have p: "flag_set ?sg DKIM_SIGFLAG_PASSED" "sig_bh ?sg = DKIM_SIGBH_MATCH"
    using final_result_OK [OF j(2)] C(3) g by (auto simp: sig_good_def sig_settled_def sig_genuine_def)
  have "dk_grows dk3 dk'" unfolding j(3) by (simp add: dk_grows_def)
  then show ?thesis using genuine_grows [OF g] p jl j(3) by simp
qed



subsection \<open>A run\<close>

text \<open>A message with one signature, whose key the caller's lookup returns.\<close>

definition vr_header :: "string \<Rightarrow> nat \<Rightarrow> header" where
  "vr_header s n = \<lparr>hdr_signed = False, hdr_textlen = length s, hdr_namelen = n, hdr_text = s, hdr_colon = Some n\<rparr>"

definition vr_env :: env where
  "vr_env = env0\<lparr>env_sha1 := (\<lambda>s. ''AAA'')\<rparr>"

definition vr_set :: dkim_set where
  "vr_set = (sig_set_of [(''v'', ''1''), (''a'', ''rsa-sha1''), (''c'', ''simple''), (''d'', ''x''),
     (''s'', ''k''), (''h'', ''from''), (''bh'', ''QUFB''), (''b'', ''QUFB'')])\<lparr>set_udata := Some 1\<rparr>"

definition vr_dk :: dkim where
  "vr_dk = (dkim_zero (lib0\<lparr>dkiml_flags := DKIM_LIBFLAGS_DELAYSIGPROC\<rparr>))\<lparr>dkim_mode := DKIM_MODE_VERIFY,
     dkim_sets := [vr_set],
     dkim_hdrs := [vr_header ''From:a@x'' 4, vr_header ''DKIM-Signature:b=QUFB'' 14]\<rparr>"

text \<open>The handle at the end of the header, but for its two string buffers.\<close>

definition vr_sig :: siginfo where
  "vr_sig = siginfo0\<lparr>sig_error := DKIM_SIGERROR_UNKNOWN, sig_bh := DKIM_SIGBH_UNTESTED, sig_siglen := 3,
     sig_domain := Some ''x'', sig_selector := Some ''k'', sig_sig := Some ''AAA'', sig_hdrcanon := Some 0,
     sig_bodycanon := Some 1, sig_taglist := Some 0\<rparr>"

definition vr_eoh :: dkim where
  "vr_eoh = vr_dk\<lparr>dkim_state := DKIM_STATE_EOH2, dkim_sigcount := 1, dkim_domain := Some ''x'', dkim_user := Some ''a'',
     dkim_sender := Some ''a'', dkim_hdrlist_buf := Some ''from'', dkim_siglist := [vr_sig],
     dkim_hdrs := [(vr_header ''From:a@x'' 4)\<lparr>hdr_signed := True\<rparr>, vr_header ''DKIM-Signature:b=QUFB'' 14],
     dkim_senderhdr := Some 0,
     dkim_canons := [canon0\<lparr>canon_hashtype := 0, canon_done := True, canon_hdr := True, canon_hashbufsize := 4096, canon_remain := - 1,
         canon_wrote := 27, canon_length := - 1, canon_hdrlist := Some ''from'',
         canon_hash := ''From:a@x'' @ CRLF @ ''DKIM-Signature:b='', canon_sigheader := Some 1\<rparr>,
       canon0\<lparr>canon_hashtype := 0, canon_remain := - 1, canon_length := - 1\<rparr>]\<rparr>"

text \<open>What simplification needs to run the program on it.\<close>

lemmas vr_defs = vr_env_def vr_dk_def vr_header_def vr_set_def sig_set_of_def dkim_zero_def env0_def lib0_def world0_def
  vr_sig_def vr_eoh_def canon0_def siginfo0_def

lemmas vr_mail = rfc2822_mailbox_split_def split_loop.simps angle_loop.simps addr_loop.simps rfc2822_first_special.simps
      rfc2822_token_def skip_space.simps SPECIALS_def atom_char_def mailbox0_def mb_at_def mb_append_def mb_word_def cstr_def cctype

lemmas vr_canon = dkim_canon_runheaders_def run_round_def canon_sigfield_def hdr_canon_ok_def dkim_dstring_new_def dkim_dstring_blank_def
  dkim_dstring_catn_def dkim_dstring_cat1_def dkim_dstring_cat_def dkim_dstring_get_def dkim_dstring_len_def
  dkim_canon_selecthdrs_def hdr_matches_def hdr_trim_def dkim_canon_header_def dkim_canon_buffer_def dkim_canon_write_def
  canon_init_loop.simps dkim_canon_init_def callback_def strlcpy_def poke_def ds_content_def
lemma vr_eoh_run: "\<exists>hb cb. dkim_eoh_verify world0 vr_env vr_dk = (DKIM_STAT_OK, vr_eoh\<lparr>dkim_hdrbuf := hb, dkim_canonbuf := cb\<rparr>)"
  by (simp add: vr_canon dkim_eoh_verify_def eoh_sender_def vr_defs absent_def dkim_strdup_def strncaseeq_def vr_mail char_eval upt_rec
     eoh_run_def first_enabled_def eoh_signatures_def siglist_eval siglist_data_eval strtok_def hw_put_def hw_flush_def char_of_def bit_0)

definition vr_kset :: dkim_set where
  "vr_kset = \<lparr>set_bad = False, set_type = DKIM_SETTYPE_KEY, set_udata = None,
     set_plist = [(''s'', ''*''), (''g'', ''*''), (''p'', ''QUJD''), (''k'', ''rsa'')]\<rparr>"

definition vr_keyed :: siginfo where
  "vr_keyed = vr_sig\<lparr>sig_keytaglist := Some 1, sig_b64key := Some ''QUJD'', sig_b64keylen := 4, sig_key := Some ''ABC'',
     sig_keylen := 3\<rparr>"

lemma vr_key_set: "dkim_process_set vr_env d DKIM_SETTYPE_KEY ''k=rsa;p=QUJD'' (length ''k=rsa;p=QUJD'') None False =
    (DKIM_STAT_OK, d\<lparr>dkim_sets := dkim_sets d @ [vr_kset]\<rparr>)"
  by (simp add: process_eval vr_env_def env0_def Let_def cctype char_eval siglist_data_eval siglist_eval vr_kset_def)

lemma vr_kset_params:
  "dkim_param_get vr_kset ''v'' = None" "dkim_param_get vr_kset ''h'' = None" "dkim_param_get vr_kset ''t'' = None"
  "dkim_param_get vr_kset ''k'' = Some ''rsa''" "dkim_param_get vr_kset ''p'' = Some ''QUJD''"
  "dkim_param_get vr_kset ''g'' = Some ''*''" "dkim_param_get vr_kset ''s'' = Some ''*''"
  by (simp_all add: vr_kset_def dkim_param_get_def)

lemma vr_key:
  assumes "dkim_siglist d = [vr_sig]" "dkim_sets d = dkim_sets vr_dk"
  shows "dkim_get_key world0 vr_env d 0 = (DKIM_STAT_OK, d\<lparr>dkim_sets := dkim_sets d @ [vr_kset], dkim_siglist := [vr_keyed]\<rparr>)"
proof -
  have l: "key_lookup world0 d vr_sig False False = Inr ''k=rsa;p=QUJD''"
    by (simp add: key_lookup_def world0_def strlcpy_def)
  have n: "length (dkim_sets d) = 1" "dkim_sets d ! 0 = vr_set" "set_type vr_set = DKIM_SETTYPE_SIGNATURE"
    using assms(2) by (simp_all add: vr_dk_def vr_set_def sig_set_of_def)
  have p: "key_parse vr_env d vr_sig False ''k=rsa;p=QUJD'' =
      (DKIM_STAT_OK, d\<lparr>dkim_sets := dkim_sets d @ [vr_kset]\<rparr>, vr_sig\<lparr>sig_keytaglist := Some 1\<rparr>)"
    unfolding key_parse_def vr_key_set using n by (simp add: key_sets_def nth_append vr_kset_def)
  have r: "key_refusal world0 d1 sg vr_kset = None" for d1 sg
    by (simp add: key_refusal_def vr_kset_params dkim_key_hashesok_def dkim_key_hashok_def dkim_key_smtp_def
      dkim_key_granok_def prv_keytypes_def strtok_def strlcpy_def Let_def char_eval)
  have d: "key_decode vr_env (vr_sig\<lparr>sig_keytaglist := Some 1\<rparr>) vr_kset = (DKIM_STAT_OK, vr_keyed)"
    by (simp add: key_decode_def vr_kset_params vr_env_def env0_def siglist_data_eval char_eval char_of_def bit_0 vr_keyed_def)
  have f: "key_flags vr_kset vr_keyed = vr_keyed" by (simp add: key_flags_def vr_kset_params)
  show ?thesis
    using n assms(1) by (simp add: dkim_get_key_def get_key_sig_def key_source_def key_copy_def l p [unfolded One_nat_def] r d [unfolded One_nat_def] f Let_def nth_append)
qed

definition vr_passed :: siginfo where
  "vr_passed = vr_keyed\<lparr>sig_keybits := 1024, sig_flags := 6, sig_bh := DKIM_SIGBH_MATCH, sig_error := DKIM_SIGERROR_OK\<rparr>"

lemma vr_sig_fields: "sig_hdrcanon vr_sig = Some 0" "sig_flags vr_sig = 0" "sig_error vr_sig = DKIM_SIGERROR_UNKNOWN"
  by (simp_all add: vr_sig_def siginfo0_def)

lemma vr_fetch:
  assumes "dkim_siglist d = [vr_sig]" "dkim_sets d = dkim_sets vr_dk" "dkim_canons d ! 0 = dkim_canons vr_eoh ! 0"
  shows "sig_fetch world0 vr_env d 0 =
     Inr (d\<lparr>dkim_sets := dkim_sets d @ [vr_kset], dkim_siglist := [vr_keyed\<lparr>sig_keybits := 1024, sig_flags := 6\<rparr>]\<rparr>)"
proof -
  have c: "dkim_canon_getfinal vr_env (dkim_canons d ! 0) = (DKIM_STAT_OK, Some ''AAA'')"
    using assms(3) by (simp add: dkim_canon_getfinal_def canon_digest_def vr_env_def vr_eoh_def canon0_def)
  have rsa: "sig_rsa world0 vr_env vr_keyed ''AAA'' = Inr (vr_keyed\<lparr>sig_keybits := 1024, sig_flags := 6\<rparr>)"
    by (simp add: sig_rsa_def vr_env_def env0_def world0_def vr_keyed_def vr_sig_def siginfo0_def Let_def)
  show ?thesis
    by (simp add: sig_fetch_def assms(1) vr_sig_fields c vr_key [OF assms(1,2)] key_failure_def rsa set_sig_def Let_def)
qed

lemma vr_process:
  assumes "dkim_siglist d = [vr_sig]" "dkim_sets d = dkim_sets vr_dk" "dkim_bodydone d"
    "dkiml_mbs (dkim_libhandle d) = None" "dkim_canons d = map canon_close (dkim_canons vr_eoh)"
  shows "dkim_sig_process world0 vr_env d 0 =
    (DKIM_STAT_OK, d\<lparr>dkim_sets := dkim_sets d @ [vr_kset], dkim_siglist := [vr_passed]\<rparr>)"
proof -
  have h: "dkim_canons d ! 0 = dkim_canons vr_eoh ! 0"
    using assms(5) by (simp add: vr_eoh_def canon_close_def canon0_def)
  have "canon_done (dkim_canons d ! 1)" "canon_hashtype (dkim_canons d ! 1) = DKIM_HASHTYPE_SHA1"
    using assms(5) by (auto simp: vr_eoh_def canon_close_def canon0_def Let_def)
  moreover from this have "canon_digest vr_env (dkim_canons d ! 1) = ''AAA''" by (simp add: canon_digest_def vr_env_def)
  moreover have "dkim_base64_encode ''AAA'' BUFRSZ = Some ''QUFB''"
    by (simp add: dkim_base64_encode_def b64_encode_tail_def alphabet_def cctype char_eval)
  ultimately show ?thesis
    by (simp add: dkim_sig_process_def assms vr_sig_fields vr_fetch [OF assms(1,2) h] sig_bodyhash_def vr_keyed_def vr_sig_def
        siginfo0_def vr_dk_def vr_set_def sig_set_of_def dkim_canon_getfinal_def dkim_param_get_def sig_subdomain_def
        sig_mustsign_def sig_settle_def set_sig_def vr_passed_def)
qed

lemma vr_eom_run: "fst (dkim_eom_verify world0 vr_env (vr_eoh\<lparr>dkim_hdrbuf := hb, dkim_canonbuf := cb\<rparr>)) = DKIM_STAT_OK"
proof -
  let ?d = "\<lambda>s. vr_eoh\<lparr>dkim_hdrbuf := hb, dkim_canonbuf := cb, dkim_state := s, dkim_bodydone := True,
     dkim_canons := map canon_close (dkim_canons vr_eoh)\<rparr>"
  have f: "dkim_siglist vr_eoh = [vr_sig]" "dkim_sigcount vr_eoh = 1" "dkim_state vr_eoh = 3" "dkim_chunkstate vr_eoh = 0"
    "dkim_sets vr_eoh = dkim_sets vr_dk" "dkiml_mbs (dkim_libhandle vr_eoh) = None"
    "sig_flags vr_sig = 0" "sig_flags vr_passed = 6" "sig_bh vr_passed = DKIM_SIGBH_MATCH" "sig_error vr_passed = DKIM_SIGERROR_OK"
    by (simp_all add: vr_eoh_def vr_dk_def dkim_zero_def lib0_def vr_sig_def vr_passed_def siginfo0_def)
  have b: "sig_bodycanon vr_sig = Some 1" "canon_length (canon_close (dkim_canons vr_eoh ! 1)) = - 1" "length (dkim_canons vr_eoh) = 2"
    by (simp_all add: vr_sig_def vr_eoh_def canon0_def canon_close_def Let_def)
  have c: "snd (dkim_canon_closebody (vr_eoh\<lparr>dkim_hdrbuf := hb, dkim_canonbuf := cb, dkim_state := s\<rparr>))\<lparr>dkim_bodydone := True\<rparr> = ?d s" for s
    by (simp add: dkim_canon_closebody_def)
  have m: "mark_toolarge (?d s) = ?d s" for s
    using f(1) b by (simp add: mark_toolarge_def toolarge_def Let_def)
  let ?e = "vr_eoh\<lparr>dkim_hdrbuf := hb, dkim_canonbuf := cb, dkim_bodydone := True,
     dkim_canons := map canon_close (dkim_canons vr_eoh), dkim_state := DKIM_STATE_EOM2\<rparr>"
  have p: "dkim_sig_process world0 vr_env ?e 0 =
     (DKIM_STAT_OK, ?e\<lparr>dkim_sets := dkim_sets ?e @ [vr_kset], dkim_siglist := [vr_passed]\<rparr>)"
    by (rule vr_process) (simp_all add: f)
  have "choose_sig world0 vr_env ?e = (Some 0, ?e\<lparr>dkim_sets := dkim_sets ?e @ [vr_kset], dkim_siglist := [vr_passed]\<rparr>)"
    using p f by (simp add: choose_sig_def sig_good_def upt_rec)
  moreover have "w_final world0 = None" by (simp add: world0_def)
  ultimately  show ?thesis
    using c m f by (simp add: dkim_eom_verify_def callback_def final_result_def)
qed


lemma vr_early:
  assumes "dk1 = vr_eoh\<lparr>dkim_hdrbuf := hb, dkim_canonbuf := cb\<rparr>"
  shows "\<exists>dk2. dkim_sig_process world0 vr_env dk1 0 = (DKIM_STAT_OK, dk2) \<and>
    dkim_siglist dk2 = [vr_keyed\<lparr>sig_keybits := 1024, sig_flags := 6\<rparr>]"
proof -
  have f: "dkim_siglist dk1 = [vr_sig]" "dkim_sets dk1 = dkim_sets vr_dk" "dkim_canons dk1 ! 0 = dkim_canons vr_eoh ! 0"
    "\<not> dkim_bodydone dk1" "dkiml_mbs (dkim_libhandle dk1) = None"
    by (simp_all add: assms vr_eoh_def vr_dk_def dkim_zero_def lib0_def)
  show ?thesis
    by (simp add: dkim_sig_process_def f vr_sig_fields vr_fetch [OF f(1-3)] sig_bodyhash_def sig_subdomain_def sig_mustsign_def
        sig_settle_def set_sig_def vr_keyed_def vr_sig_def siginfo0_def)
qed

lemma vr_hyps: "dkim_siglist vr_dk = []" "\<not> dkim_bodydone vr_dk"
  "callback_steps world0 vr_env (w_prescreen world0)" "callback_steps world0 vr_env (w_final world0)"
  by (simp_all add: vr_dk_def dkim_zero_def world0_def callback_none)



end
