(* ===== verification/Dkim_Session.thy ===== *)
theory Dkim_Session
  imports Dkim_Signed Dkim_Result
begin

text \<open>
  A handle over its life, in \<open>dkim.c\<close>: its creation (\<open>dkim_new\<close>, \<open>dkim_sign\<close>, \<open>dkim_verify\<close>), the
  functions an application calls for each part of a message (\<open>dkim_header\<close>, \<open>dkim_eoh\<close>, \<open>dkim_body\<close>,
  \<open>dkim_eom\<close>), and \<open>dkim_chunk\<close>, which cuts the text of a whole message into those parts. A failed
  \<open>assert\<close> is \<open>None\<close>.

  The lemmas show that \<open>dkim_chunk\<close> makes the same calls for every cut of the text, and what it does
  with a message that has no header fields.
\<close>

subsection \<open>Creation\<close>

abbreviation (input) DKIM_CANON_DEFAULT :: int where "DKIM_CANON_DEFAULT \<equiv> DKIM_CANON_SIMPLE"
abbreviation (input) DKIM_SIGN_DEFAULT :: int where "DKIM_SIGN_DEFAULT \<equiv> DKIM_SIGN_RSASHA256"
abbreviation (input) DKIM_QUERY_DEFAULT :: int where "DKIM_QUERY_DEFAULT \<equiv> DKIM_QUERY_DNS"

text \<open>The status and the handle; the transaction id and the closure of the allocator are not kept.\<close>

definition dkim_new :: "env \<Rightarrow> dkim_lib \<Rightarrow> int \<Rightarrow> int \<Rightarrow> int \<Rightarrow> int \<times> dkim option" where
  "dkim_new e lib hdrcanon_alg bodycanon_alg sign_alg =
    (if \<not> env_malloc e sizeof_struct then (DKIM_STAT_NORESOURCE, None)
     else (DKIM_STAT_OK, Some ((dkim_zero lib)\<lparr>
       dkim_signalg := (if sign_alg = - 1 then DKIM_SIGN_DEFAULT else sign_alg),
       dkim_hdrcanonalg := (if hdrcanon_alg = - 1 then DKIM_CANON_DEFAULT else hdrcanon_alg),
       dkim_bodycanonalg := (if bodycanon_alg = - 1 then DKIM_CANON_DEFAULT else bodycanon_alg),
       dkim_querymethod := DKIM_QUERY_DEFAULT, dkim_mode := DKIM_MODE_UNKNOWN, dkim_state := DKIM_STATE_INIT,
       dkim_presult := DKIM_PRESULT_NONE, dkim_margin := DKIM_HDRMARGIN\<rparr>)))"

text \<open>
  The copies that \<open>dkim_strdup\<close> makes of the selector and the domain are not checked. A length of -1
  becomes \<open>ULONG_MAX\<close>, which is -1 again in the \<open>off_t\<close> it is stored in.
\<close>

definition dkim_sign :: "env \<Rightarrow> dkim_lib \<Rightarrow> string \<Rightarrow> string \<Rightarrow> string \<Rightarrow> int \<Rightarrow> int \<Rightarrow> int \<Rightarrow> int \<Rightarrow> (int \<times> dkim option) option" where
  "dkim_sign e lib secretkey selector domain hdrcanonalg bodycanonalg signalg len =
    (if hdrcanonalg \<notin> {DKIM_CANON_SIMPLE, DKIM_CANON_RELAXED} \<or> bodycanonalg \<notin> {DKIM_CANON_SIMPLE, DKIM_CANON_RELAXED} \<or>
        signalg \<notin> {DKIM_SIGN_RSASHA1, DKIM_SIGN_RSASHA256} then None
     else Some (case dkim_new e lib hdrcanonalg bodycanonalg signalg of
         (status, None) \<Rightarrow> (status, None)
       | (status, Some new) \<Rightarrow>
           if \<not> env_malloc e (length secretkey + 1) then (DKIM_STAT_NORESOURCE, None)
           else (status, Some (new\<lparr>dkim_mode := DKIM_MODE_SIGN, dkim_key := Some secretkey,
             dkim_selector := map_option cstr (dkim_strdup (env_malloc e) selector 0),
             dkim_domain := map_option cstr (dkim_strdup (env_malloc e) domain 0), dkim_signlen := len\<rparr>))))"

definition dkim_verify :: "env \<Rightarrow> dkim_lib \<Rightarrow> int \<times> dkim option" where
  "dkim_verify e lib =
    (case dkim_new e lib DKIM_CANON_UNKNOWN DKIM_CANON_UNKNOWN DKIM_SIGN_UNKNOWN of
       (status, new) \<Rightarrow> (status, map_option (\<lambda>dk. dk\<lparr>dkim_mode := DKIM_MODE_VERIFY\<rparr>) new))"

subsection \<open>Header fields\<close>

definition memchr :: "string \<Rightarrow> byte \<Rightarrow> nat option" where
  "memchr s c = (if c \<in> set s then Some (length (before s c)) else None)"

text \<open>\<open>end\<close>: the white space before the colon does not belong to the name.\<close>

definition name_end :: "string \<Rightarrow> nat" where
  "name_end s = length (dropWhile (\<lambda>c. isascii c \<and> isspace c) (rev s))"

text \<open>
  The name that is matched against the headers to skip: a copy of at most \<open>DKIM_MAXHEADER\<close> bytes of the
  C string at \<open>hdr\<close>, cut at \<open>end\<close> (where the NUL is stored outside the buffer if \<open>end\<close> is beyond it).
\<close>

definition skip_name :: "string \<Rightarrow> nat option \<Rightarrow> string" where
  "skip_name hdr nend =
    (let name = strlcpy (cstr hdr) (DKIM_MAXHEADER + 1) in case nend of None \<Rightarrow> name | Some n \<Rightarrow> take n name)"

text \<open>\<open>hdr\<close> is what is at the pointer, of which \<open>len\<close> bytes are the field.\<close>

definition dkim_header :: "env \<Rightarrow> dkim \<Rightarrow> string \<Rightarrow> nat \<Rightarrow> (int \<times> dkim) option" where
  "dkim_header e dk hdr len =
    (if len = 0 then None
     else if dkim_state dk > DKIM_STATE_HEADER then Some (DKIM_STAT_INVALID, dk)
     else
    (let dk = dk\<lparr>dkim_state := DKIM_STATE_HEADER\<rparr>;
         colon = memchr (take len hdr) CHR '':'';
         nend = map_option (\<lambda>n. name_end (take n hdr)) colon in
     if dkim_mode dk = DKIM_MODE_SIGN \<and> dkiml_skipre (dkim_libhandle dk) \<and> env_skiphdrre e (skip_name hdr nend)
     then Some (DKIM_STAT_OK, dk)
     else if \<not> env_malloc e sizeof_struct then Some (DKIM_STAT_NORESOURCE, dk)
     else case dkim_strdup (env_malloc e) hdr len of
         None \<Rightarrow> Some (DKIM_STAT_NORESOURCE, dk)
       | Some tx \<Rightarrow>
           (let namelen = (case nend of Some n \<Rightarrow> n | None \<Rightarrow> len);
                h = \<lparr>hdr_signed = False, hdr_textlen = len, hdr_namelen = namelen, hdr_text = cstr tx, hdr_colon = colon\<rparr>;
                i = length (dkim_hdrs dk);
                dk = dk\<lparr>dkim_hdrs := dkim_hdrs dk @ [h]\<rparr> in
            Some (case colon of
                None \<Rightarrow> (DKIM_STAT_OK, dk)
              | Some c \<Rightarrow>
                  if namelen = length DKIM_SIGNHEADER \<and> strncaseeq hdr DKIM_SIGNHEADER (length DKIM_SIGNHEADER)
                  then dkim_process_set e dk DKIM_SETTYPE_SIGNATURE (cstr (drop (c + 1) tx)) (len - c - 1) (Some i) False
                  else (DKIM_STAT_OK, dk)))))"

subsection \<open>The end of the header, the body and the end of the message\<close>

definition dkim_eoh :: "signer \<Rightarrow> world \<Rightarrow> env \<Rightarrow> dkim \<Rightarrow> (int \<times> dkim) option" where
  "dkim_eoh s w e dk =
    (if dkim_mode dk = DKIM_MODE_VERIFY then Some (dkim_eoh_verify w e dk) else dkim_eoh_sign s e dk)"

definition dkim_body :: "env \<Rightarrow> dkim \<Rightarrow> string \<Rightarrow> int \<times> dkim" where
  "dkim_body e dk buf =
    (if dkim_state dk > DKIM_STATE_BODY then (DKIM_STAT_INVALID, dk)
     else
    (let dk = dk\<lparr>dkim_state := DKIM_STATE_BODY\<rparr> in
     if dkim_skipbody dk then (DKIM_STAT_OK, dk) else dkim_canon_bodychunk e dk buf))"

text \<open>The status, whether TRUE is stored through \<open>testkey\<close>, and the handle.\<close>

definition dkim_eom :: "signer \<Rightarrow> world \<Rightarrow> env \<Rightarrow> dkim \<Rightarrow> (int \<times> bool \<times> dkim) option" where
  "dkim_eom s w e dk =
    (if dkim_mode dk = DKIM_MODE_SIGN
     then map_option (\<lambda>(status, dk). (status, False, dk)) (dkim_eom_sign s e dk)
     else Some (dkim_eom_verify w e dk))"

definition dkim_minbody :: "dkim \<Rightarrow> nat" where
  "dkim_minbody dk = dkim_canon_minbody dk"

definition dkim_key_syntax :: "env \<Rightarrow> dkim \<Rightarrow> string \<Rightarrow> nat \<Rightarrow> int \<times> dkim" where
  "dkim_key_syntax e dk str len = dkim_process_set e dk DKIM_SETTYPE_KEY str len None True"

definition dkim_policy_syntax :: "env \<Rightarrow> dkim \<Rightarrow> string \<Rightarrow> nat \<Rightarrow> int \<times> dkim" where
  "dkim_policy_syntax e dk str len = dkim_process_set e dk DKIM_SETTYPE_POLICY str len None True"

definition dkim_sig_syntax :: "env \<Rightarrow> dkim \<Rightarrow> string \<Rightarrow> nat \<Rightarrow> int \<times> dkim" where
  "dkim_sig_syntax e dk str len = dkim_process_set e dk DKIM_SETTYPE_SIGNATURE str len None True"

subsection \<open>Chunks\<close>

text \<open>Going on after a call that answered OK.\<close>

fun and_then :: "(int \<times> dkim) option \<Rightarrow> (dkim \<Rightarrow> (int \<times> dkim) option) \<Rightarrow> (int \<times> dkim) option" where
  "and_then None f = None"
| "and_then (Some (status, dk)) f = (if status \<noteq> DKIM_STAT_OK then Some (status, dk) else f dk)"

definition chunk_cat1 :: "env \<Rightarrow> dkim \<Rightarrow> byte \<Rightarrow> dkim" where
  "chunk_cat1 e dk c = dk\<lparr>dkim_hdrbuf := map_option (\<lambda>d. snd (dkim_dstring_cat1 (env_malloc e) d c)) (dkim_hdrbuf dk)\<rparr>"

definition chunk_blank :: "dkim \<Rightarrow> dkim" where
  "chunk_blank dk = dk\<lparr>dkim_hdrbuf := map_option dkim_dstring_blank (dkim_hdrbuf dk)\<rparr>"

text \<open>The field in the buffer, less its last \<open>n\<close> bytes.\<close>

definition chunk_header :: "env \<Rightarrow> dkim \<Rightarrow> nat \<Rightarrow> (int \<times> dkim) option" where
  "chunk_header e dk n =
    (let d = the (dkim_hdrbuf dk) in dkim_header e dk (ds_buf d) (dkim_dstring_len d - n))"

fun chunk_loop :: "signer \<Rightarrow> world \<Rightarrow> env \<Rightarrow> dkim \<Rightarrow> string \<Rightarrow> (int \<times> dkim) option" where
  "chunk_loop s w e dk [] = Some (DKIM_STAT_OK, dk)"
| "chunk_loop s w e dk (c # rest) =
    (if dkim_chunksm dk = 0 then
       chunk_loop s w e ((chunk_cat1 e dk c)\<lparr>dkim_chunksm := (if c = CR then 1 else 0)\<rparr>) rest
     else if dkim_chunksm dk = 1 then
       chunk_loop s w e ((chunk_cat1 e dk c)\<lparr>dkim_chunksm := (if c = LF then 2 else 0)\<rparr>) rest
     else if dkim_chunksm dk = 2 then
       (if DKIM_ISLWSP c then chunk_loop s w e ((chunk_cat1 e dk c)\<lparr>dkim_chunksm := 0\<rparr>) rest
        else if c = CR then chunk_loop s w e (dk\<lparr>dkim_chunksm := 3\<rparr>) rest
        else and_then (chunk_header e dk 2)
          (\<lambda>dk. chunk_loop s w e ((chunk_cat1 e (chunk_blank dk) c)\<lparr>dkim_chunksm := 0\<rparr>) rest))
     else if dkim_chunksm dk = 3 then
       (if c = LF then
          and_then (if dkim_dstring_len (the (dkim_hdrbuf dk)) > 0 then chunk_header e dk 2 else Some (DKIM_STAT_OK, dk))
            (\<lambda>dk. and_then (dkim_eoh s w e dk)
              (\<lambda>dk. let dk = dk\<lparr>dkim_chunkstate := DKIM_CHUNKSTATE_BODY\<rparr> in
                 Some (if rest \<noteq> [] then dkim_body e dk rest else (DKIM_STAT_OK, dk))))
        else and_then (chunk_header e dk 2)
          (\<lambda>dk. chunk_loop s w e ((chunk_cat1 e (chunk_cat1 e (chunk_blank dk) CR) c)\<lparr>dkim_chunksm := 0\<rparr>) rest))
     else None)"

definition chunk_start :: "env \<Rightarrow> dkim \<Rightarrow> dkim option" where
  "chunk_start e dk =
    (case (case dkim_hdrbuf dk of None \<Rightarrow> dkim_dstring_new (env_malloc e) (int BUFRSZ) (int MAXBUFRSZ)
             | Some d \<Rightarrow> Some (dkim_dstring_blank d)) of
       None \<Rightarrow> None
     | Some d \<Rightarrow> Some (dk\<lparr>dkim_hdrbuf := Some d, dkim_chunkstate := DKIM_CHUNKSTATE_HEADER, dkim_chunksm := 0\<rparr>))"

text \<open>The "end" call, without data.\<close>

definition chunk_end :: "signer \<Rightarrow> world \<Rightarrow> env \<Rightarrow> dkim \<Rightarrow> (int \<times> dkim) option" where
  "chunk_end s w e dk =
    and_then
      (if dkim_chunkstate dk = DKIM_CHUNKSTATE_HEADER
       then and_then (if dkim_dstring_len (the (dkim_hdrbuf dk)) > 0 then chunk_header e dk 0 else Some (DKIM_STAT_OK, dk))
              (dkim_eoh s w e)
       else Some (DKIM_STAT_OK, dk))
      (\<lambda>dk. Some (DKIM_STAT_OK, dk\<lparr>dkim_chunkstate := DKIM_CHUNKSTATE_DONE\<rparr>))"

text \<open>A NULL buffer is an empty one.\<close>

definition dkim_chunk :: "signer \<Rightarrow> world \<Rightarrow> env \<Rightarrow> dkim \<Rightarrow> string \<Rightarrow> (int \<times> dkim) option" where
  "dkim_chunk s w e dk buf =
    (if dkim_chunkstate dk \<ge> DKIM_CHUNKSTATE_DONE then Some (DKIM_STAT_INVALID, dk)
     else case (if dkim_chunkstate dk = DKIM_CHUNKSTATE_INIT then chunk_start e dk else Some dk) of
       None \<Rightarrow> Some (DKIM_STAT_NORESOURCE, dk)
     | Some dk \<Rightarrow>
         if buf = [] then chunk_end s w e dk
         else if dkim_chunkstate dk = DKIM_CHUNKSTATE_BODY then Some (dkim_body e dk buf)
         else if dkim_chunkstate dk = DKIM_CHUNKSTATE_HEADER then chunk_loop s w e dk buf
         else None)"

subsection \<open>Cuts\<close>

lemma and_then_OK: "and_then r f = Some (status, dk) \<Longrightarrow>
    (\<exists>dk1. r = Some (DKIM_STAT_OK, dk1) \<and> f dk1 = Some (status, dk)) \<or> (status \<noteq> DKIM_STAT_OK \<and> r = Some (status, dk))"
  by (cases "(r, f)" rule: and_then.cases) (auto split: if_splits)

lemma and_then_assoc: "and_then (and_then r f) g = and_then r (\<lambda>dk. and_then (f dk) g)"
  by (cases r) auto

lemma and_then_cong: "(\<And>dk. r = Some (DKIM_STAT_OK, dk) \<Longrightarrow> f dk = g dk) \<Longrightarrow> and_then r f = and_then r g"
  by (cases r) auto

text \<open>What \<open>dkim_header\<close> and \<open>dkim_body\<close> leave alone.\<close>

definition but_header :: "dkim \<Rightarrow> dkim" where
  "but_header dk = dk\<lparr>dkim_state := 0, dkim_hdrs := [], dkim_sets := []\<rparr>"

definition but_body :: "dkim \<Rightarrow> dkim" where
  "but_body dk = dk\<lparr>dkim_state := 0, dkim_bodylen := 0, dkim_canonbuf := None, dkim_canons := []\<rparr>"

lemma process_set_rest: "dkim_process_set e d t str n u x = (st, d') \<Longrightarrow> but_header d' = but_header d"
  by (drule process_set_frame) (auto simp: but_header_def)

lemma header_frame: "dkim_header e dk hdr len = Some (status, dk') \<Longrightarrow> but_header dk' = but_header dk"
proof -
  assume h: "dkim_header e dk hdr len = Some (status, dk')"
  have "but_header (dk\<lparr>dkim_state := st\<rparr>) = but_header dk" "but_header (dk\<lparr>dkim_state := st, dkim_hdrs := hs\<rparr>) = but_header dk" for st hs
    by (simp_all add: but_header_def)
  then show ?thesis
    using h unfolding dkim_header_def Let_def
    by (auto split: if_splits option.splits dest!: process_set_rest)
qed

lemma header_kept:
  assumes "dkim_header e dk hdr len = Some (status, dk')"
  shows "dkim_chunkstate dk' = dkim_chunkstate dk" "dkim_chunksm dk' = dkim_chunksm dk" "dkim_hdrbuf dk' = dkim_hdrbuf dk"
    "dkim_mode dk' = dkim_mode dk" "dkim_libhandle dk' = dkim_libhandle dk"
  using header_frame [OF assms] unfolding but_header_def by (cases dk; cases dk'; simp)+

lemma body_frame: "but_body (snd (dkim_body e dk buf)) = but_body dk"
proof -
  let ?d = "dk\<lparr>dkim_state := DKIM_STATE_BODY, dkim_bodylen := dkim_bodylen dk + length buf\<rparr>"
  obtain st1 dk1 cs where r: "bodychunk_canons e (lib_flag ?d DKIM_LIBFLAGS_FIXCRLF \<and> dkim_mode ?d = DKIM_MODE_SIGN)
      buf ?d (dkim_canons ?d) = (st1, dk1, cs)" by (metis prod_cases3)
  obtain b where b: "dk1 = ?d\<lparr>dkim_canonbuf := b\<rparr>" using bodychunk_canons_step [OF r] by blast
  show ?thesis
    using r b by (auto simp: dkim_body_def dkim_canon_bodychunk_def but_body_def Let_def)
qed

lemma body_kept:
  "dkim_chunkstate (snd (dkim_body e dk buf)) = dkim_chunkstate dk"
  using body_frame [of e dk buf] unfolding but_body_def by (cases dk; cases "snd (dkim_body e dk buf)"; simp)

text \<open>The position in the header depends on the bytes alone; 4 is behind the empty line.\<close>

definition sm_step :: "int \<Rightarrow> byte \<Rightarrow> int" where
  "sm_step sm c =
    (if sm = 0 then (if c = CR then 1 else 0)
     else if sm = 1 then (if c = LF then 2 else 0)
     else if sm = 2 then (if c = CR then 3 else 0)
     else if sm = 3 then (if c = LF then 4 else 0)
     else sm)"

definition sm_run :: "int \<Rightarrow> string \<Rightarrow> int" where
  "sm_run = foldl sm_step"

lemma sm_run_simps [simp]:
  "sm_run sm [] = sm" "sm_run sm (c # s) = sm_run (sm_step sm c) s" "sm_run sm (a @ b) = sm_run (sm_run sm a) b"
  by (simp_all add: sm_run_def)

lemma sm_run_done [simp]: "sm_run 4 s = 4"
  by (induction s) (simp_all add: sm_step_def)

lemma chunk_cat1_fields [simp]:
  "dkim_chunkstate (chunk_cat1 e dk c) = dkim_chunkstate dk" "dkim_chunksm (chunk_cat1 e dk c) = dkim_chunksm dk"
  "dkim_chunkstate (chunk_blank dk) = dkim_chunkstate dk" "dkim_chunksm (chunk_blank dk) = dkim_chunksm dk"
  by (simp_all add: chunk_cat1_def chunk_blank_def)

lemma chunk_header_state:
  "chunk_header e dk n = Some (status, dk') \<Longrightarrow> dkim_chunkstate dk' = dkim_chunkstate dk \<and> dkim_chunksm dk' = dkim_chunksm dk"
  unfolding chunk_header_def Let_def using header_kept(1,2) by metis

lemma chunk_step_cases:
  assumes "sm_step (dkim_chunksm dk) c \<noteq> 4"
  shows "\<exists>f. (\<forall>rest. chunk_loop s w e dk (c # rest) = and_then f (\<lambda>dk. chunk_loop s w e dk rest)) \<and>
    (\<forall>dk1. f = Some (DKIM_STAT_OK, dk1) \<longrightarrow> dkim_chunkstate dk1 = dkim_chunkstate dk \<and> dkim_chunksm dk1 = sm_step (dkim_chunksm dk) c)"
proof -
  consider (a) "dkim_chunksm dk = 0" | (b) "dkim_chunksm dk = 1" | (c1) "dkim_chunksm dk = 2" "DKIM_ISLWSP c" | (c2) "dkim_chunksm dk = 2" "\<not> DKIM_ISLWSP c" "c = CR"
    | (c3) "dkim_chunksm dk = 2" "\<not> DKIM_ISLWSP c" "c \<noteq> CR" | (d) "dkim_chunksm dk = 3" "c \<noteq> LF" | (x) "dkim_chunksm dk \<notin> {0, 1, 2, 3}"
    using assms by (auto simp: sm_step_def split: if_splits)
  then show ?thesis
  proof cases
    case a
    then show ?thesis by (intro exI [of _ "Some (DKIM_STAT_OK, (chunk_cat1 e dk c)\<lparr>dkim_chunksm := (if c = CR then 1 else 0)\<rparr>)"]) (simp add: sm_step_def)
  next
    case b
    then show ?thesis by (intro exI [of _ "Some (DKIM_STAT_OK, (chunk_cat1 e dk c)\<lparr>dkim_chunksm := (if c = LF then 2 else 0)\<rparr>)"]) (simp add: sm_step_def)
  next
    case c1
    then show ?thesis by (intro exI [of _ "Some (DKIM_STAT_OK, (chunk_cat1 e dk c)\<lparr>dkim_chunksm := 0\<rparr>)"]) (auto simp: sm_step_def DKIM_ISLWSP_def)
  next
    case c2
    then show ?thesis by (intro exI [of _ "Some (DKIM_STAT_OK, dk\<lparr>dkim_chunksm := 3\<rparr>)"]) (simp add: sm_step_def)
  next
    case c3
    then show ?thesis
      by (intro exI [of _ "and_then (chunk_header e dk 2) (\<lambda>dk. Some (DKIM_STAT_OK, (chunk_cat1 e (chunk_blank dk) c)\<lparr>dkim_chunksm := 0\<rparr>))"])
        (auto simp: sm_step_def and_then_assoc dest!: and_then_OK dest: chunk_header_state)
  next
    case d
    then show ?thesis
      by (intro exI [of _ "and_then (chunk_header e dk 2) (\<lambda>dk. Some (DKIM_STAT_OK, (chunk_cat1 e (chunk_cat1 e (chunk_blank dk) CR) c)\<lparr>dkim_chunksm := 0\<rparr>))"])
        (auto simp: sm_step_def and_then_assoc dest!: and_then_OK dest: chunk_header_state)
  next
    case x
    then show ?thesis by (intro exI [of _ None]) simp
  qed
qed

declare chunk_loop.simps(2) [simp del]

lemma chunk_loop_append:
  assumes "sm_run (dkim_chunksm dk) a \<noteq> 4"
  shows "chunk_loop s w e dk (a @ b) = and_then (chunk_loop s w e dk a) (\<lambda>dk. chunk_loop s w e dk b) \<and>
    (\<forall>dk1. chunk_loop s w e dk a = Some (DKIM_STAT_OK, dk1) \<longrightarrow>
       dkim_chunkstate dk1 = dkim_chunkstate dk \<and> dkim_chunksm dk1 = sm_run (dkim_chunksm dk) a)"
  using assms
proof (induction a arbitrary: dk)
  case (Cons c a)
  have "sm_step (dkim_chunksm dk) c \<noteq> 4" using Cons.prems by auto
  from chunk_step_cases [OF this] obtain f where f:
    "\<And>rest. chunk_loop s w e dk (c # rest) = and_then f (\<lambda>dk. chunk_loop s w e dk rest)"
    "\<And>dk1. f = Some (DKIM_STAT_OK, dk1) \<Longrightarrow> dkim_chunkstate dk1 = dkim_chunkstate dk \<and> dkim_chunksm dk1 = sm_step (dkim_chunksm dk) c" by metis
  have IH: "chunk_loop s w e dk1 (a @ b) = and_then (chunk_loop s w e dk1 a) (\<lambda>dk. chunk_loop s w e dk b)"
    "\<And>dk2. chunk_loop s w e dk1 a = Some (DKIM_STAT_OK, dk2) \<Longrightarrow>
       dkim_chunkstate dk2 = dkim_chunkstate dk1 \<and> dkim_chunksm dk2 = sm_run (dkim_chunksm dk1) a"
    if "f = Some (DKIM_STAT_OK, dk1)" for dk1
    using Cons.IH [of dk1] Cons.prems f(2) [OF that] by auto
  have "chunk_loop s w e dk ((c # a) @ b) = and_then (chunk_loop s w e dk (c # a)) (\<lambda>dk. chunk_loop s w e dk b)"
    unfolding append_Cons f(1) and_then_assoc by (rule and_then_cong) (rule IH(1))
  moreover have "dkim_chunkstate dk2 = dkim_chunkstate dk \<and> dkim_chunksm dk2 = sm_run (dkim_chunksm dk) (c # a)"
    if h: "chunk_loop s w e dk (c # a) = Some (DKIM_STAT_OK, dk2)" for dk2
  proof -
    obtain dk1 where k: "f = Some (DKIM_STAT_OK, dk1)" "chunk_loop s w e dk1 a = Some (DKIM_STAT_OK, dk2)"
      using and_then_OK [OF h [unfolded f(1)]] by auto
    show ?thesis using f(2) [OF k(1)] IH(2) [OF k] by simp
  qed
  ultimately show ?case by blast
qed simp

text \<open>Chunks one after the other, up to the first that is not answered with OK, and likewise for the body.\<close>

fun chunks :: "signer \<Rightarrow> world \<Rightarrow> env \<Rightarrow> dkim \<Rightarrow> string list \<Rightarrow> (int \<times> dkim) option" where
  "chunks s w e dk [] = Some (DKIM_STAT_OK, dk)"
| "chunks s w e dk (t # ts) = and_then (dkim_chunk s w e dk t) (\<lambda>dk. chunks s w e dk ts)"

fun bodies :: "env \<Rightarrow> dkim \<Rightarrow> string list \<Rightarrow> (int \<times> dkim) option" where
  "bodies e dk [] = Some (DKIM_STAT_OK, dk)"
| "bodies e dk (t # ts) = and_then (Some (dkim_body e dk t)) (\<lambda>dk. bodies e dk ts)"

text \<open>The header of a message up to and with the empty line, read from the position \<open>sm\<close>.\<close>

definition header_text :: "int \<Rightarrow> string \<Rightarrow> bool" where
  "header_text sm y \<longleftrightarrow> y \<noteq> [] \<and> sm_run sm (butlast y) \<noteq> 4 \<and> sm_run sm y = 4"

lemma header_text_end:
  assumes "header_text sm y"
  shows "y = butlast y @ [LF]" "sm_run sm (butlast y) = 3"
proof -
  have y: "y = butlast y @ [last y]" using assms by (simp add: header_text_def)
  have r: "sm_run sm (butlast y) \<noteq> 4" "sm_run sm y = 4" using assms by (simp_all add: header_text_def)
  then have "sm_step (sm_run sm (butlast y)) (last y) = 4" using y by (metis sm_run_simps)
  then have "sm_run sm (butlast y) = 3 \<and> last y = LF" using r(1) by (auto simp: sm_step_def split: if_splits)
  then show "y = butlast y @ [LF]" "sm_run sm (butlast y) = 3" using y by auto
qed

lemma header_text_cut:
  assumes "header_text sm (t @ y)" "y \<noteq> []"
  shows "sm_run sm t \<noteq> 4" "header_text (sm_run sm t) y"
proof -
  have b: "butlast (t @ y) = t @ butlast y" using assms(2) by (simp add: butlast_append)
  show "sm_run sm t \<noteq> 4"
  proof
    assume "sm_run sm t = 4"
    then have "sm_run sm (butlast (t @ y)) = 4" unfolding b by simp
    then show False using assms(1) by (simp add: header_text_def)
  qed
  show "header_text (sm_run sm t) y" using assms b unfolding header_text_def by simp
qed

text \<open>The header and what follows it in the same chunk.\<close>

lemma chunk_loop_body:
  assumes "header_text (dkim_chunksm dk) y"
  shows "chunk_loop s w e dk (y @ b) = and_then (chunk_loop s w e dk y) (\<lambda>dk. Some (if b \<noteq> [] then dkim_body e dk b else (DKIM_STAT_OK, dk))) \<and>
    (\<forall>dk1. chunk_loop s w e dk y = Some (DKIM_STAT_OK, dk1) \<longrightarrow> dkim_chunkstate dk1 = DKIM_CHUNKSTATE_BODY)"
proof -
  define y' where "y' = butlast y"
  have y: "y = y' @ [LF]" "sm_run (dkim_chunksm dk) y' = 3" using header_text_end [OF assms] by (simp_all add: y'_def)
  define f where "f = (\<lambda>dk. and_then (if dkim_dstring_len (the (dkim_hdrbuf dk)) > 0 then chunk_header e dk 2 else Some (DKIM_STAT_OK, dk)) (dkim_eoh s w e))"
  have last: "chunk_loop s w e dk1 (LF # r) = and_then (f dk1)
      (\<lambda>dk. let dk = dk\<lparr>dkim_chunkstate := DKIM_CHUNKSTATE_BODY\<rparr> in Some (if r \<noteq> [] then dkim_body e dk r else (DKIM_STAT_OK, dk)))"
    if "dkim_chunksm dk1 = 3" for dk1 r
    using that by (simp add: chunk_loop.simps(2) f_def and_then_assoc)
  have ap: "chunk_loop s w e dk (y' @ r) = and_then (chunk_loop s w e dk y') (\<lambda>dk. chunk_loop s w e dk r)"
    "\<And>dk1. chunk_loop s w e dk y' = Some (DKIM_STAT_OK, dk1) \<Longrightarrow> dkim_chunksm dk1 = 3" for r
    using chunk_loop_append [of dk y' s w e] y(2) by auto
  have all: "chunk_loop s w e dk (y @ r) = and_then (and_then (chunk_loop s w e dk y') f)
      (\<lambda>dk. let dk = dk\<lparr>dkim_chunkstate := DKIM_CHUNKSTATE_BODY\<rparr> in Some (if r \<noteq> [] then dkim_body e dk r else (DKIM_STAT_OK, dk)))" for r
    unfolding y(1) append_assoc append_Cons append_Nil ap(1) and_then_assoc by (rule and_then_cong) (rule last [OF ap(2)])
  have none: "chunk_loop s w e dk y = and_then (and_then (chunk_loop s w e dk y') f) (\<lambda>dk. Some (DKIM_STAT_OK, dk\<lparr>dkim_chunkstate := DKIM_CHUNKSTATE_BODY\<rparr>))"
    using all [of "[]"] by (simp add: Let_def)
  show ?thesis
    unfolding all none and_then_assoc by (auto simp: Let_def dest!: and_then_OK intro!: and_then_cong)
qed

lemma chunks_body:
  "dkim_chunkstate dk = DKIM_CHUNKSTATE_BODY \<Longrightarrow> [] \<notin> set ts \<Longrightarrow> chunks s w e dk ts = bodies e dk ts"
proof (induction ts arbitrary: dk)
  case (Cons t ts)
  have "t \<noteq> []" using Cons.prems(2) by auto
  then have c: "dkim_chunk s w e dk t = Some (dkim_body e dk t)" using Cons.prems(1) by (simp add: dkim_chunk_def)
  obtain st dk1 where b: "dkim_body e dk t = (st, dk1)" by force
  have "dkim_chunkstate dk1 = DKIM_CHUNKSTATE_BODY" using body_kept [of e dk t] b Cons.prems(1) by simp
  then show ?case using Cons c b by simp
qed simp

text \<open>What comes after the header, in the chunks it comes in.\<close>

definition tail_cut :: "string list \<Rightarrow> string \<Rightarrow> string list \<Rightarrow> bool" where
  "tail_cut ts body bs \<longleftrightarrow> concat bs = body \<and> [] \<notin> set bs \<and> last ` set bs \<subseteq> last ` set ts"

lemma last_concat_in: "[] \<notin> set ts \<Longrightarrow> ts \<noteq> [] \<Longrightarrow> last (concat ts) \<in> last ` set ts"
proof (induction ts)
  case (Cons t ts)
  then show ?case by (cases "ts = []") (auto simp: last_append)
qed simp

lemma chunks_cut:
  assumes "dkim_chunkstate dk = DKIM_CHUNKSTATE_HEADER" "header_text (dkim_chunksm dk) y" "[] \<notin> set ts" "concat ts = y @ body"
  shows "\<exists>bs. tail_cut ts body bs \<and> chunks s w e dk ts = and_then (chunk_loop s w e dk y) (\<lambda>dk. bodies e dk bs)"
  using assms
proof (induction ts arbitrary: dk y)
  case Nil
  then show ?case by (simp add: header_text_def)
next
  case (Cons t ts)
  have ts: "t \<noteq> []" "[] \<notin> set ts" using Cons.prems(3) by auto
  have c: "dkim_chunk s w e dk t = chunk_loop s w e dk t" using Cons.prems(1) ts(1) by (simp add: dkim_chunk_def)
  have eq: "t @ concat ts = y @ body" using Cons.prems(4) by simp
  show ?case
  proof (cases "length t < length y")
    case True
    then obtain y' where y: "y = t @ y'" "y' \<noteq> []" "concat ts = y' @ body" using eq by (auto simp: append_eq_append_conv2)
    note cut = header_text_cut [OF Cons.prems(2) [unfolded y(1)] y(2)]
    note ap = chunk_loop_append [OF cut(1), of s w e]
    show ?thesis
    proof (cases "\<exists>dk1. chunk_loop s w e dk t = Some (DKIM_STAT_OK, dk1)")
      case True
      then obtain dk1 where d: "chunk_loop s w e dk t = Some (DKIM_STAT_OK, dk1)" by blast
      then have "dkim_chunkstate dk1 = DKIM_CHUNKSTATE_HEADER" "header_text (dkim_chunksm dk1) y'" using ap cut(2) Cons.prems(1) by auto
      from Cons.IH [OF this ts(2) y(3)] obtain bs where "tail_cut ts body bs"
        "chunks s w e dk1 ts = and_then (chunk_loop s w e dk1 y') (\<lambda>dk. bodies e dk bs)" by blast
      then show ?thesis using ap d c y(1) by (intro exI [of _ bs]) (auto simp: tail_cut_def)
    next
      case False
      then have stop: "and_then (chunk_loop s w e dk t) f = chunk_loop s w e dk t" for f
        by (cases "(chunk_loop s w e dk t, f)" rule: and_then.cases) auto
      have "body \<noteq> [] \<Longrightarrow> last body \<in> last ` set (t # ts)" using last_concat_in [OF Cons.prems(3)] Cons.prems(4) by auto
      then show ?thesis
        by (intro exI [of _ "if body = [] then [] else [body]"]) (simp add: c stop ap y(1) tail_cut_def)
    qed
  next
    case False
    then obtain r where t: "t = y @ r" "body = r @ concat ts" using eq by (auto simp: append_eq_append_conv2)
    define bs where "bs = (if r = [] then ts else r # ts)"
    have "chunks s w e dk (t # ts) = and_then (chunk_loop s w e dk y) (\<lambda>dk. bodies e dk bs)"
      unfolding chunks.simps c unfolding t(1) conjunct1 [OF chunk_loop_body [OF Cons.prems(2)]] and_then_assoc
    proof (rule and_then_cong)
      fix dk1 assume "chunk_loop s w e dk y = Some (DKIM_STAT_OK, dk1)"
      then have b: "dkim_chunkstate dk1 = DKIM_CHUNKSTATE_BODY" using chunk_loop_body [OF Cons.prems(2)] by blast
      obtain st dk2 where d: "dkim_body e dk1 r = (st, dk2)" by force
      have b2: "dkim_chunkstate dk2 = DKIM_CHUNKSTATE_BODY" using body_kept [of e dk1 r] d b by simp
      show "and_then (Some (if r \<noteq> [] then dkim_body e dk1 r else (DKIM_STAT_OK, dk1))) (\<lambda>dk. chunks s w e dk ts) = bodies e dk1 bs"
        using chunks_body [OF b ts(2)] chunks_body [OF b2 ts(2)] d by (simp add: bs_def)
    qed
    moreover have "tail_cut (t # ts) body bs" using t ts(2) by (auto simp: bs_def tail_cut_def)
    ultimately show ?thesis by blast
  qed
qed

subsection \<open>The fields\<close>

definition field_ok :: "string \<Rightarrow> bool" where
  "field_ok f \<longleftrightarrow> CHR '':'' \<in> set f \<and> is_cstring f \<and> \<not> DKIM_ISLWSP (hd f) \<and> hd f \<noteq> CR \<and> length f + 2 < MAXBUFRSZ"

text \<open>A field ends at the first CRLF that no white space follows.\<close>

fun unfolded :: "int \<Rightarrow> string \<Rightarrow> bool" where
  "unfolded sm [] \<longleftrightarrow> sm = 2"
| "unfolded sm (c # s) \<longleftrightarrow> (sm = 2 \<longrightarrow> DKIM_ISLWSP c) \<and> sm \<noteq> 3 \<and> sm \<noteq> 4 \<and> unfolded (sm_step sm c) s"

definition fields_text :: "string list \<Rightarrow> string" where
  "fields_text fs = concat (map (\<lambda>f. f @ CRLF) fs) @ CRLF"

fun headers :: "env \<Rightarrow> dkim \<Rightarrow> string list \<Rightarrow> (int \<times> dkim) option" where
  "headers e dk [] = Some (DKIM_STAT_OK, dk)"
| "headers e dk (f # fs) = and_then (dkim_header e dk f (length f)) (\<lambda>dk. headers e dk fs)"

definition set_chunk :: "dkim \<Rightarrow> dstring \<Rightarrow> int \<Rightarrow> dkim" where
  "set_chunk dk d sm = dk\<lparr>dkim_hdrbuf := Some d, dkim_chunkstate := DKIM_CHUNKSTATE_HEADER, dkim_chunksm := sm\<rparr>"

lemma set_chunk_fields [simp]:
  "dkim_hdrbuf (set_chunk dk d sm) = Some d" "dkim_chunksm (set_chunk dk d sm) = sm" "dkim_chunkstate (set_chunk dk d sm) = DKIM_CHUNKSTATE_HEADER"
  "(set_chunk dk d sm)\<lparr>dkim_chunksm := sm'\<rparr> = set_chunk dk d sm'"
  "chunk_cat1 e (set_chunk dk d sm) c = set_chunk dk (snd (dkim_dstring_cat1 (env_malloc e) d c)) sm"
  "chunk_blank (set_chunk dk d sm) = set_chunk dk (dkim_dstring_blank d) sm"
  by (simp_all add: set_chunk_def chunk_cat1_def chunk_blank_def)

lemma process_set_chunk:
  "dkim_process_set e (set_chunk dk d sm) t str n u x = map_prod id (\<lambda>dk. set_chunk dk d sm) (dkim_process_set e dk t str n u x)"
  by (simp add: dkim_process_set_def set_chunk_def split: prod.split)

lemma header_set_chunk:
  "dkim_header e (set_chunk dk d sm) hdr len = map_option (map_prod id (\<lambda>dk. set_chunk dk d sm)) (dkim_header e dk hdr len)"
proof -
  have st: "(set_chunk dk d sm)\<lparr>dkim_state := st\<rparr> = set_chunk (dk\<lparr>dkim_state := st\<rparr>) d sm"
    "(set_chunk dk d sm)\<lparr>dkim_hdrs := hs\<rparr> = set_chunk (dk\<lparr>dkim_hdrs := hs\<rparr>) d sm"
    "dkim_state (set_chunk dk d sm) = dkim_state dk" "dkim_mode (set_chunk dk d sm) = dkim_mode dk"
    "dkim_libhandle (set_chunk dk d sm) = dkim_libhandle dk" "dkim_hdrs (set_chunk dk d sm) = dkim_hdrs dk" for dk st hs
    by (simp_all add: set_chunk_def)
  show ?thesis
    unfolding dkim_header_def Let_def st process_set_chunk by (simp split: option.split)
qed

text \<open>A field with a colon is read from its own bytes alone.\<close>

lemma header_prefix:
  assumes "CHR '':'' \<in> set f" "is_cstring f"
  shows "dkim_header e dk (f @ r) (length f) = dkim_header e dk f (length f)"
proof -
  define n where "n = length (before f CHR '':'')"
  have mc: "memchr f CHR '':'' = Some n" using assms(1) by (simp add: memchr_def n_def)
  have n: "n < length f"
  proof -
    obtain a b where "f = a @ CHR '':'' # b" "CHR '':'' \<notin> set a" using split_list_first [OF assms(1)] by blast
    then show ?thesis unfolding n_def before_def by (auto simp: takeWhile_append)
  qed
  have tk: "take n (f @ r) = take n f" using n by simp
  define m where "m = name_end (take n f)"
  have m: "m \<le> n"
  proof -
    have "name_end t \<le> length t" for t using length_dropWhile_le [of "\<lambda>c. isascii c \<and> isspace c" "rev t"] by (simp add: name_end_def)
    from this [of "take n f"] show ?thesis using n by (simp add: m_def)
  qed
  have cs: "cstr (f @ r) = f @ cstr r" "cstr f = f" using assms(2) cstr_id [of f] unfolding cstr_def is_cstring_def by (auto simp: takeWhile_append)
  have sk: "skip_name (f @ r) (Some m) = skip_name f (Some m)"
  proof -
    have "take m (take k (f @ x)) = take m (take k f)" for k x unfolding take_take using m n by (simp add: take_append)
    then show ?thesis by (simp add: skip_name_def cs strlcpy_def)
  qed
  have dup: "dkim_strdup mk (f @ r) (length f) = dkim_strdup mk f (length f)" for mk
    using n by (auto simp: dkim_strdup_def Let_def)
  have sn: "(m = length DKIM_SIGNHEADER \<and> strncaseeq (f @ r) DKIM_SIGNHEADER (length DKIM_SIGNHEADER)) \<longleftrightarrow>
      (m = length DKIM_SIGNHEADER \<and> strncaseeq f DKIM_SIGNHEADER (length DKIM_SIGNHEADER))"
    using m n by (auto simp: strncaseeq_def)
  have whole: "take (length f) (f @ r) = f" "take (length f) f = f" by simp_all
  show ?thesis
    by (simp only: dkim_header_def Let_def whole mc option.map tk m_def [symmetric] sk dup option.case sn)
qed

lemma cat1_content:
  assumes "\<forall>n. mk n" "ds_wf d" "ds_max d = MAXBUFRSZ" "length (ds_content d) + 1 < MAXBUFRSZ"
  shows "ds_wf (snd (dkim_dstring_cat1 mk d c)) \<and> ds_max (snd (dkim_dstring_cat1 mk d c)) = MAXBUFRSZ \<and>
    ds_content (snd (dkim_dstring_cat1 mk d c)) = ds_content d @ [c]"
  using emit_append [OF assms(1-3), of "Cat1 c"] assms(4) ds_content_len [OF assms(2)] by simp

text \<open>The bytes of a field are appended to the buffer.\<close>

lemma loop_unfolded:
  assumes "\<forall>n. env_malloc e n" "unfolded sm x" "0 \<le> sm" "sm < 3" "ds_wf d" "ds_max d = MAXBUFRSZ" "length (ds_content d @ x) < MAXBUFRSZ"
  obtains d' where "ds_wf d'" "ds_max d' = MAXBUFRSZ" "ds_content d' = ds_content d @ x"
    "\<And>rest. chunk_loop s w e (set_chunk dk d sm) (x @ rest) = chunk_loop s w e (set_chunk dk d' 2) rest"
  using assms(2-)
proof (induction x arbitrary: sm d thesis)
  case Nil
  then show ?case by simp
next
  case (Cons c x)
  define d1 where "d1 = snd (dkim_dstring_cat1 (env_malloc e) d c)"
  have d1: "ds_wf d1" "ds_max d1 = MAXBUFRSZ" "ds_content d1 = ds_content d @ [c]"
    using cat1_content [OF assms(1) Cons.prems(5,6), of c] Cons.prems(7) by (simp_all add: d1_def)
  have sm: "sm = 0 \<or> sm = 1 \<or> sm = 2" using Cons.prems(3,4) by auto
  have nx: "unfolded (sm_step sm c) x" "0 \<le> sm_step sm c" "sm_step sm c < 3"
    using Cons.prems(2) sm by (auto simp: sm_step_def DKIM_ISLWSP_def)
  have step: "chunk_loop s w e (set_chunk dk d sm) ((c # x) @ rest) = chunk_loop s w e (set_chunk dk d1 (sm_step sm c)) (x @ rest)" for rest
    using sm Cons.prems(2) by (auto simp: chunk_loop.simps(2) sm_step_def d1_def DKIM_ISLWSP_def)
  have "length (ds_content d1 @ x) < MAXBUFRSZ" using Cons.prems(7) d1(3) by simp
  from Cons.IH [OF _ nx d1(1,2) this] obtain d' where "ds_wf d'" "ds_max d' = MAXBUFRSZ" "ds_content d' = ds_content d1 @ x"
    "\<And>rest. chunk_loop s w e (set_chunk dk d1 (sm_step sm c)) (x @ rest) = chunk_loop s w e (set_chunk dk d' 2) rest" by blast
  then show ?case using Cons.prems(1) [of d'] step d1(3) by simp
qed

lemma chunk_header_field:
  assumes "field_ok f" "ds_wf d" "ds_content d = f @ CRLF"
  shows "chunk_header e (set_chunk dk d sm) 2 = map_option (map_prod id (\<lambda>dk. set_chunk dk d sm)) (dkim_header e dk f (length f))"
proof -
  have "ds_buf d = ds_content d @ drop (ds_len d) (ds_buf d)" by (simp add: ds_content_def)
  then have b: "ds_buf d = f @ CRLF @ drop (ds_len d) (ds_buf d)" unfolding assms(3) by simp
  have l: "dkim_dstring_len d = length f + 2" using ds_content_len [OF assms(2)] assms(3) by (simp add: dkim_dstring_len_def)
  have "dkim_header e (set_chunk dk d sm) (ds_buf d) (length f) = dkim_header e (set_chunk dk d sm) f (length f)"
    using header_prefix [of f e "set_chunk dk d sm" "CRLF @ drop (ds_len d) (ds_buf d)"] assms(1) b by (simp add: field_ok_def)
  then show ?thesis unfolding chunk_header_def Let_def set_chunk_fields option.sel l by (simp add: header_set_chunk)
qed

lemma header_fields:
  assumes "dkim_header e dk f (length f) = Some (DKIM_STAT_OK, dk1)" "field_ok f" "ds_wf d" "ds_content d = f @ CRLF"
  shows "chunk_header e (set_chunk dk d sm) 2 = Some (DKIM_STAT_OK, set_chunk dk1 d sm)"
  using assms by (simp add: chunk_header_field)

text \<open>All the fields behind the one that is complete in the buffer.\<close>

lemma loop_fields:
  assumes mem: "\<forall>n. env_malloc e n" and fs: "\<forall>f\<in>set (f # fs). field_ok f \<and> unfolded 0 (f @ CRLF)"
    and d: "ds_wf d" "ds_max d = MAXBUFRSZ" "ds_content d = f @ CRLF"
    and hs: "headers e dk (f # fs) = Some (DKIM_STAT_OK, dk1)"
  shows "\<exists>d'. ds_wf d' \<and> ds_max d' = MAXBUFRSZ \<and> chunk_loop s w e (set_chunk dk d 2) (fields_text fs) =
    and_then (dkim_eoh s w e (set_chunk dk1 d' 3)) (\<lambda>dk. Some (DKIM_STAT_OK, dk\<lparr>dkim_chunkstate := DKIM_CHUNKSTATE_BODY\<rparr>))"
  using fs d hs
proof (induction fs arbitrary: f d dk)
  case Nil
  then have h: "dkim_header e dk f (length f) = Some (DKIM_STAT_OK, dk1)" by (auto dest!: and_then_OK)
  have len: "dkim_dstring_len d > 0" using ds_content_len [OF Nil(2)] Nil(4) by (simp add: dkim_dstring_len_def)
  show ?case
    using header_fields [OF h _ Nil(2,4), of 3] Nil(1,2,3) len
    by (intro exI [of _ d]) (simp add: fields_text_def chunk_loop.simps(2) DKIM_ISLWSP_def Let_def)
next
  case (Cons g gs)
  obtain dk2 where h: "dkim_header e dk f (length f) = Some (DKIM_STAT_OK, dk2)" "headers e dk2 (g # gs) = Some (DKIM_STAT_OK, dk1)"
    using Cons.prems(5) by (auto dest!: and_then_OK)
  have g: "field_ok g" "unfolded 0 (g @ CRLF)" "field_ok f" using Cons.prems(1) by auto
  obtain c g' where gc: "g = c # g'" using g(1) by (cases g) (auto simp: field_ok_def)
  have c: "\<not> DKIM_ISLWSP c" "c \<noteq> CR" using g(1) by (simp_all add: field_ok_def gc)
  define d0 where "d0 = dkim_dstring_blank d"
  have d0: "ds_wf d0" "ds_content d0 = []" "ds_max d0 = MAXBUFRSZ" using blank_wf [OF Cons.prems(2)] Cons.prems(3) by (simp_all add: d0_def blank_max)
  have "length (ds_content d0 @ g @ CRLF) < MAXBUFRSZ" using g(1) d0(2) by (simp add: field_ok_def)
  from loop_unfolded [OF mem g(2) _ _ d0(1,3) this, of s w dk2] obtain d1 where d1: "ds_wf d1" "ds_max d1 = MAXBUFRSZ" "ds_content d1 = g @ CRLF"
    "\<And>rest. chunk_loop s w e (set_chunk dk2 d0 0) ((g @ CRLF) @ rest) = chunk_loop s w e (set_chunk dk2 d1 2) rest"
    using d0(2) by auto
  have ft: "fields_text (g # gs) = (g @ CRLF) @ fields_text gs" by (simp add: fields_text_def)
  have "chunk_loop s w e (set_chunk dk d 2) (fields_text (g # gs)) = chunk_loop s w e (set_chunk dk2 d0 0) (fields_text (g # gs))"
    unfolding ft unfolding gc append_Cons using header_fields [OF h(1) g(3) Cons.prems(2,4), of 2] c
    by (simp add: chunk_loop.simps(2) d0_def)
  also have "\<dots> = chunk_loop s w e (set_chunk dk2 d1 2) (fields_text gs)" unfolding ft by (rule d1(4))
  finally show ?case using Cons.IH [OF _ d1(1-3) h(2)] Cons.prems(1) by simp
qed

lemma unfolded_run: "unfolded sm x \<Longrightarrow> sm_run sm x = 2"
  by (induction sm x rule: unfolded.induct) auto

lemma field_run:
  assumes "field_ok f" "unfolded 0 (f @ CRLF)" "sm = 0 \<or> sm = 2"
  shows "sm_run sm (f @ CRLF) = 2"
proof -
  obtain c f' where f: "f = c # f'" using assms(1) by (cases f) (auto simp: field_ok_def)
  have "sm_step 2 c = sm_step 0 c" using assms(1) by (simp add: field_ok_def f sm_step_def)
  then show ?thesis using unfolded_run [OF assms(2)] assms(3) unfolding f by auto
qed

lemma fields_run:
  assumes "\<forall>f\<in>set fs. field_ok f \<and> unfolded 0 (f @ CRLF)" "sm = 0 \<or> sm = 2"
  shows "sm_run sm (concat (map (\<lambda>f. f @ CRLF) fs)) = (if fs = [] then sm else 2)"
  using assms
proof (induction fs arbitrary: sm)
  case (Cons f fs)
  have f: "sm_run sm (f @ CRLF) = 2" by (rule field_run) (use Cons.prems in auto)
  have r: "sm_run 2 (concat (map (\<lambda>f. f @ CRLF) fs)) = 2" using Cons.IH [of 2] Cons.prems(1) by simp
  have "sm_run sm (concat (map (\<lambda>f. f @ CRLF) (f # fs))) = sm_run (sm_run sm (f @ CRLF)) (concat (map (\<lambda>f. f @ CRLF) fs))"
    unfolding list.map concat.simps by (rule sm_run_simps(3))
  then show ?case unfolding f r by simp
qed simp

lemma fields_header_text:
  assumes "\<forall>f\<in>set fs. field_ok f \<and> unfolded 0 (f @ CRLF)" "fs \<noteq> []"
  shows "header_text 0 (fields_text fs)"
proof -
  have r: "sm_run 0 (concat (map (\<lambda>f. f @ CRLF) fs)) = 2" using fields_run [OF assms(1), of 0] assms(2) by simp
  have b: "butlast (fields_text fs) = concat (map (\<lambda>f. f @ CRLF) fs) @ [CR]" by (simp add: fields_text_def butlast_append)
  show ?thesis unfolding header_text_def b using r by (simp add: fields_text_def sm_step_def)
qed

lemma chunk_start_ok:
  assumes "\<forall>n. env_malloc e n" "dkim_hdrbuf dk = None \<or> hdrbuf_ok dk"
  obtains d where "chunk_start e dk = Some (set_chunk dk d 0)" "ds_wf d" "ds_max d = MAXBUFRSZ" "ds_content d = []"
proof (cases "dkim_hdrbuf dk")
  case None
  obtain d where d: "dkim_dstring_new (env_malloc e) (int BUFRSZ) (int MAXBUFRSZ) = Some d"
    using assms(1) by (simp add: dkim_dstring_new_def Let_def)
  have "ds_wf d" "ds_content d = []" "ds_max d = MAXBUFRSZ" using new_wf [OF d] by simp_all
  then show ?thesis using that [of d] d None by (simp add: chunk_start_def set_chunk_def)
next
  case (Some d0)
  then have "ds_wf d0" "ds_max d0 = MAXBUFRSZ" using assms(2) by (auto simp: hdrbuf_ok_def)
  then show ?thesis using that [of "dkim_dstring_blank d0"] Some blank_wf [of d0] by (simp add: chunk_start_def set_chunk_def blank_max)
qed

lemma chunk_first:
  assumes "dkim_chunkstate dk = DKIM_CHUNKSTATE_INIT" "chunk_start e dk = Some (set_chunk dk d 0)"
  shows "dkim_chunk s w e dk t = dkim_chunk s w e (set_chunk dk d 0) t"
  using assms by (simp add: dkim_chunk_def)

lemma chunks_append: "chunks s w e dk (a @ b) = and_then (chunks s w e dk a) (\<lambda>dk. chunks s w e dk b)"
  by (induction a arbitrary: dk) (simp_all add: and_then_assoc)

lemma bodies_state: "bodies e dk bs = Some (status, dk') \<Longrightarrow> dkim_chunkstate dk' = dkim_chunkstate dk"
proof (induction bs arbitrary: dk)
  case (Cons b bs)
  obtain st dk1 where d: "dkim_body e dk b = (st, dk1)" by force
  then show ?case using Cons body_kept [of e dk b] by (auto split: if_splits)
qed simp

lemma chunk_run:
  assumes mem: "\<forall>n. env_malloc e n" and init: "dkim_chunkstate dk = DKIM_CHUNKSTATE_INIT" and hb: "dkim_hdrbuf dk = None \<or> hdrbuf_ok dk"
    and fs: "fs \<noteq> []" "\<forall>f\<in>set fs. field_ok f \<and> unfolded 0 (f @ CRLF)" and hs: "headers e dk fs = Some (DKIM_STAT_OK, dk1)"
    and ts: "[] \<notin> set ts" "concat ts = fields_text fs @ body"
  shows "\<exists>d bs. ds_wf d \<and> ds_max d = MAXBUFRSZ \<and> tail_cut ts body bs \<and>
    chunks s w e dk (ts @ [[]]) =
      and_then (dkim_eoh s w e (set_chunk dk1 d 3)) (\<lambda>dk.
      and_then (bodies e (dk\<lparr>dkim_chunkstate := DKIM_CHUNKSTATE_BODY\<rparr>) bs) (\<lambda>dk.
      Some (DKIM_STAT_OK, dk\<lparr>dkim_chunkstate := DKIM_CHUNKSTATE_DONE\<rparr>)))"
proof -
  obtain d0 where d0: "chunk_start e dk = Some (set_chunk dk d0 0)" "ds_wf d0" "ds_max d0 = MAXBUFRSZ" "ds_content d0 = []"
    by (rule chunk_start_ok [OF mem hb])
  let ?dk = "set_chunk dk d0 0"
  obtain t ts' where t: "ts = t # ts'" using ts(2) by (cases ts) (auto simp: fields_text_def)
  have start: "chunks s w e dk (ts @ [[]]) = and_then (chunks s w e ?dk ts) (\<lambda>dk. chunks s w e dk [[]])"
    unfolding chunks_append t chunks.simps chunk_first [OF init d0(1)] ..
  obtain bs where bs: "tail_cut ts body bs" "chunks s w e ?dk ts = and_then (chunk_loop s w e ?dk (fields_text fs)) (\<lambda>dk. bodies e dk bs)"
    using chunks_cut [of ?dk "fields_text fs" ts body s w e] fields_header_text [OF fs(2,1)] ts by auto
  obtain f fs' where f: "fs = f # fs'" using fs(1) by (cases fs) auto
  have fo: "field_ok f" "unfolded 0 (f @ CRLF)" using fs(2) f by auto
  have "length (ds_content d0 @ f @ CRLF) < MAXBUFRSZ" using fo(1) d0(4) by (simp add: field_ok_def)
  from loop_unfolded [OF mem fo(2) _ _ d0(2,3) this, of s w dk] obtain d1 where d1: "ds_wf d1" "ds_max d1 = MAXBUFRSZ" "ds_content d1 = f @ CRLF"
    "\<And>rest. chunk_loop s w e ?dk ((f @ CRLF) @ rest) = chunk_loop s w e (set_chunk dk d1 2) rest"
    using d0(4) by auto
  obtain d where d: "ds_wf d" "ds_max d = MAXBUFRSZ" "chunk_loop s w e (set_chunk dk d1 2) (fields_text fs') =
      and_then (dkim_eoh s w e (set_chunk dk1 d 3)) (\<lambda>dk. Some (DKIM_STAT_OK, dk\<lparr>dkim_chunkstate := DKIM_CHUNKSTATE_BODY\<rparr>))"
    using loop_fields [OF mem fs(2) [unfolded f] d1(1-3) hs [unfolded f]] by blast
  have ft: "fields_text fs = (f @ CRLF) @ fields_text fs'" by (simp add: fields_text_def f)
  have loop: "chunk_loop s w e ?dk (fields_text fs) =
      and_then (dkim_eoh s w e (set_chunk dk1 d 3)) (\<lambda>dk. Some (DKIM_STAT_OK, dk\<lparr>dkim_chunkstate := DKIM_CHUNKSTATE_BODY\<rparr>))"
    unfolding ft d1(4) by (rule d(3))
  have fin: "chunks s w e dk' [[]] = Some (DKIM_STAT_OK, dk'\<lparr>dkim_chunkstate := DKIM_CHUNKSTATE_DONE\<rparr>)"
    if "bodies e (dk2\<lparr>dkim_chunkstate := DKIM_CHUNKSTATE_BODY\<rparr>) bs = Some (DKIM_STAT_OK, dk')" for dk2 dk'
    using bodies_state [OF that] by (simp add: dkim_chunk_def chunk_end_def)
  have "chunks s w e dk (ts @ [[]]) =
      and_then (dkim_eoh s w e (set_chunk dk1 d 3)) (\<lambda>dk.
      and_then (bodies e (dk\<lparr>dkim_chunkstate := DKIM_CHUNKSTATE_BODY\<rparr>) bs) (\<lambda>dk.
      Some (DKIM_STAT_OK, dk\<lparr>dkim_chunkstate := DKIM_CHUNKSTATE_DONE\<rparr>)))"
    unfolding start bs(2) loop and_then_assoc
    by (rule and_then_cong) (simp del: chunks.simps, rule and_then_cong, simp del: chunks.simps add: fin)
  then show ?thesis using d(1,2) bs(1) by blast
qed

text \<open>
  C6: \<open>dkim_chunk\<close> makes the calls that an application would make itself. For a message that is given
  in any chunks, then ended, the header fields are those between the line ends that no white space
  follows, each given to \<open>dkim_header\<close> without its CRLF; after the empty line \<open>dkim_eoh\<close> is called,
  and \<open>dkim_body\<close> with what is left of each chunk. The first answer that is not OK ends the run.
\<close>
theorem chunk_session:
  assumes mem: "\<forall>n. env_malloc e n" and init: "dkim_chunkstate dk = DKIM_CHUNKSTATE_INIT" and hb: "dkim_hdrbuf dk = None \<or> hdrbuf_ok dk"
    and fs: "fs \<noteq> []" "\<forall>f\<in>set fs. field_ok f \<and> unfolded 0 (f @ CRLF)" and hs: "headers e dk fs = Some (DKIM_STAT_OK, dk1)"
    and ts: "[] \<notin> set ts" "concat ts = fields_text fs @ body"
  shows "\<exists>d bs. ds_wf d \<and> ds_max d = MAXBUFRSZ \<and> tail_cut ts body bs \<and>
    chunks s w e dk (ts @ [[]]) =
      and_then (dkim_eoh s w e (set_chunk dk1 d 3)) (\<lambda>dk.
      and_then (bodies e (dk\<lparr>dkim_chunkstate := DKIM_CHUNKSTATE_BODY\<rparr>) bs) (\<lambda>dk.
      Some (DKIM_STAT_OK, dk\<lparr>dkim_chunkstate := DKIM_CHUNKSTATE_DONE\<rparr>)))"
  by (rule chunk_run [OF assms])

text \<open>
  C40: a message without header fields stops the program. When the first line of the text is empty,
  the CRLF of that line is taken for a field, and \<open>dkim_header\<close> fails its assertion that a field is not
  empty as soon as the next line is seen, unless that line starts with white space.
\<close>
theorem chunk_no_fields:
  assumes "\<forall>n. env_malloc e n" "dkim_chunkstate dk = DKIM_CHUNKSTATE_INIT" "dkim_hdrbuf dk = None \<or> hdrbuf_ok dk"
    "\<not> DKIM_ISLWSP c"
  shows "dkim_chunk s w e dk (CRLF @ c # c' # r) = None"
proof -
  obtain d0 where d0: "chunk_start e dk = Some (set_chunk dk d0 0)" "ds_wf d0" "ds_max d0 = MAXBUFRSZ" "ds_content d0 = []"
    by (rule chunk_start_ok [OF assms(1,3)])
  have "unfolded 0 CRLF" by (simp add: sm_step_def)
  moreover have "length (ds_content d0 @ CRLF) < MAXBUFRSZ" using d0(4) by simp
  ultimately obtain d where d: "ds_wf d" "ds_content d = CRLF"
    "\<And>rest. chunk_loop s w e (set_chunk dk d0 0) (CRLF @ rest) = chunk_loop s w e (set_chunk dk d 2) rest"
    using loop_unfolded [OF assms(1), of 0 CRLF d0 s w dk] d0 by auto
  have len: "dkim_dstring_len d = 2" using ds_content_len [OF d(1)] d(2) by (simp add: dkim_dstring_len_def)
  have none: "chunk_header e (set_chunk dk d sm) 2 = None" for sm
    by (simp add: chunk_header_def len dkim_header_def)
  have "chunk_loop s w e (set_chunk dk d 2) (c # c' # r) = None"
    using assms(4) none by (cases "c = CR") (simp_all add: chunk_loop.simps(2) len)
  then show ?thesis
    unfolding chunk_first [OF assms(2) d0(1)] using d(3) by (simp add: dkim_chunk_def)
qed

subsection \<open>A message signed in chunks\<close>

lemma headers_frame: "headers e dk fs = Some (status, dk') \<Longrightarrow> but_header dk' = but_header dk"
proof (induction fs arbitrary: dk)
  case (Cons f fs)
  obtain st dk1 where h: "dkim_header e dk f (length f) = Some (st, dk1)" using Cons.prems by (cases "dkim_header e dk f (length f)") auto
  show ?case using Cons h header_frame [OF h] by (auto split: if_splits)
qed simp

lemma headers_last:
  "headers e dk fs = Some (DKIM_STAT_OK, dk') \<Longrightarrow> fs \<noteq> [] \<Longrightarrow> dkim_state dk' = DKIM_STATE_HEADER"
proof (induction fs arbitrary: dk)
  case (Cons f fs)
  obtain dk1 where h: "dkim_header e dk f (length f) = Some (DKIM_STAT_OK, dk1)" "headers e dk1 fs = Some (DKIM_STAT_OK, dk')"
    using Cons.prems(1) by (auto dest!: and_then_OK)
  have st: "dkim_state d' = dkim_state d" if "dkim_process_set e d t str n u x = (r, d')" for d t str n u x r d'
    using process_set_frame [OF that] by auto
  have "dkim_state dk1 = DKIM_STATE_HEADER"
    using h(1) unfolding dkim_header_def Let_def by (auto split: if_splits option.splits dest!: st)
  then show ?case using Cons.IH [OF h(2)] h(2) by (cases fs) simp_all
qed simp

lemma bodies_plain:
  assumes "plain_body dk" "\<not> dkim_skipbody dk" "dkim_state dk \<le> DKIM_STATE_BODY"
  shows "bodies e dk bs = Some (DKIM_STAT_OK, if bs = [] then dk else feed_body e (dk\<lparr>dkim_state := DKIM_STATE_BODY\<rparr>) bs)"
  using assms
proof (induction bs arbitrary: dk)
  case (Cons b bs)
  define d where "d = dk\<lparr>dkim_state := DKIM_STATE_BODY\<rparr>"
  define d1 where "d1 = snd (dkim_canon_bodychunk e d b)"
  have p: "plain_body d" using Cons.prems(1) by (simp add: plain_body_def d_def)
  note c = bodychunk_plain [OF p, of e b]
  have b: "dkim_body e dk b = (DKIM_STAT_OK, d1)" using Cons.prems(2,3) c by (simp add: dkim_body_def d_def [symmetric] d1_def) (simp add: d_def)
  have d1: "plain_body d1" "\<not> dkim_skipbody d1" "dkim_state d1 \<le> DKIM_STATE_BODY" "d1\<lparr>dkim_state := DKIM_STATE_BODY\<rparr> = d1"
    using c p Cons.prems(2) by (simp_all add: plain_body_def d1_def d_def)
  have f: "feed_body e d (b # bs) = feed_body e d1 bs" by (simp add: feed_body_def d1_def)
  show ?case
    using Cons.IH [OF d1(1-3)] unfolding d1(4) d_def [symmetric] f bodies.simps b by (simp add: feed_body_def)
qed simp

lemma ready_set [simp]:
  "sign_ready (dk\<lparr>dkim_chunkstate := c\<rparr>) h b = sign_ready dk h b" "sign_ready (dk\<lparr>dkim_state := st\<rparr>) h b = sign_ready dk h b"
  by (simp_all add: sign_ready_def canonbuf_ok_def hdrbuf_ok_def)

text \<open>What the body leaves of a handle that is ready.\<close>

lemma bodies_ready:
  assumes "sign_ready dk 0 1" "plain_body dk" "length (dkim_canons dk) = 2" "\<not> dkim_skipbody dk" "dkim_state dk \<le> DKIM_STATE_BODY"
  obtains dk' where "bodies e dk bs = Some (DKIM_STAT_OK, dk')" "sign_ready dk' 0 1" "dkim_canons dk' ! 0 = dkim_canons dk ! 0"
    "dkim_hdrs dk' = dkim_hdrs dk" "dkim_libhandle dk' = dkim_libhandle dk" "dkim_key dk' = dkim_key dk" "dkim_state dk' \<le> DKIM_STATE_BODY"
    "dkim_siglist dk' = dkim_siglist dk" "dkim_margin dk' = dkim_margin dk" "dkim_signer dk' = dkim_signer dk" "dkim_partial dk' = dkim_partial dk"
    "dkim_canons dk' = map (\<lambda>c. foldl (canon_feed False) c bs) (dkim_canons dk)"
proof -
  define dk0 where "dk0 = dk\<lparr>dkim_state := DKIM_STATE_BODY\<rparr>"
  define dk' where "dk' = (if bs = [] then dk else feed_body e dk0 bs)"
  have p: "sign_ready dk0 0 1" "plain_body dk0" "length (dkim_canons dk0) = 2" using assms by (simp_all add: dk0_def plain_body_def)
  obtain n cs where f: "feed_body e dk0 bs = dk0\<lparr>dkim_bodylen := n, dkim_canons := cs\<rparr>" using feed_body_frame [OF p(2)] by blast
  have "dkim_state dk' \<le> DKIM_STATE_BODY" "dkim_siglist dk' = dkim_siglist dk" "dkim_margin dk' = dkim_margin dk" "dkim_signer dk' = dkim_signer dk"
    "dkim_partial dk' = dkim_partial dk" using assms(5) by (simp_all add: dk'_def f) (simp_all add: dk0_def)
  moreover have "sign_ready dk' 0 1 \<and> dkim_canons dk' ! 0 = dkim_canons dk ! 0 \<and> dkim_hdrs dk' = dkim_hdrs dk \<and>
      dkim_libhandle dk' = dkim_libhandle dk \<and> dkim_key dk' = dkim_key dk"
    using feed_ready [OF p, of e bs] assms(1) by (simp add: dk'_def) (simp add: dk0_def)
  moreover have "bodies e dk bs = Some (DKIM_STAT_OK, dk')"
    using bodies_plain [OF assms(2,4,5)] by (simp add: dk'_def dk0_def)
  moreover have "dkim_canons dk' = map (\<lambda>c. foldl (canon_feed False) c bs) (dkim_canons dk)"
    using feed_body_canons [OF p(2), of e bs] by (simp add: dk'_def) (simp add: dk0_def)
  ultimately show thesis using that by blast
qed

lemma sign_handle_new:
  "dkim_sign e lib key sel dmn hc bc alg len = Some (st, Some dk) \<Longrightarrow> dkim_chunkstate dk = DKIM_CHUNKSTATE_INIT \<and> dkim_hdrbuf dk = None"
  by (auto simp: dkim_sign_def dkim_new_def dkim_zero_def split: if_splits)

text \<open>A new handle to which header fields were given.\<close>

lemma sign_handle_fresh:
  assumes new: "dkim_sign e lib key sel dmn hc bc alg len = Some (st, Some dk)" and hs: "headers e dk fs = Some (DKIM_STAT_OK, dk1)" "fs \<noteq> []"
    and ok: "headers_ok (dkim_hdrs dk1)" and d: "ds_wf d" "ds_max d = MAXBUFRSZ"
  shows "sign_fresh (set_chunk dk1 d 3)" "dkim_libhandle dk1 = lib" "dkim_key dk1 = Some key" "dkim_hdrcanonalg dk1 = hc"
    "dkim_mode dk1 = DKIM_MODE_SIGN" "\<not> dkim_skipbody dk1"
    "dkim_bodycanonalg dk1 = bc" "dkim_signlen dk1 = len"
proof -
  have alg: "hc \<in> {DKIM_CANON_SIMPLE, DKIM_CANON_RELAXED}" "bc \<in> {DKIM_CANON_SIMPLE, DKIM_CANON_RELAXED}" "alg \<in> {DKIM_SIGN_RSASHA1, DKIM_SIGN_RSASHA256}"
    using new by (auto simp: dkim_sign_def split: if_splits)
  define z where "z = dkim_zero lib"
  have dk: "dk = z\<lparr>dkim_signalg := alg, dkim_hdrcanonalg := hc, dkim_bodycanonalg := bc, dkim_querymethod := DKIM_QUERY_DEFAULT, dkim_mode := DKIM_MODE_SIGN,
      dkim_state := DKIM_STATE_INIT, dkim_presult := DKIM_PRESULT_NONE, dkim_margin := DKIM_HDRMARGIN, dkim_key := Some key,
      dkim_selector := dkim_selector dk, dkim_domain := dkim_domain dk, dkim_signlen := len\<rparr>"
    using new alg by (auto simp: dkim_sign_def dkim_new_def z_def split: if_splits)
  have z: "dkim_libhandle z = lib" "dkim_canons z = []" "dkim_b64sig z = None" "dkim_signature z = None" "dkim_canonbuf z = None" "\<not> dkim_skipbody z"
    "dkim_chunkstate z = DKIM_CHUNKSTATE_INIT" "dkim_hdrbuf z = None"
    by (simp_all add: z_def dkim_zero_def)
  have b: "but_header dk1 = but_header dk" by (rule headers_frame [OF hs(1)])
  have same: "dkim_libhandle dk1 = dkim_libhandle dk" "dkim_key dk1 = dkim_key dk" "dkim_hdrcanonalg dk1 = dkim_hdrcanonalg dk" "dkim_mode dk1 = dkim_mode dk"
    "dkim_skipbody dk1 = dkim_skipbody dk" "dkim_canons dk1 = dkim_canons dk" "dkim_b64sig dk1 = dkim_b64sig dk" "dkim_signature dk1 = dkim_signature dk"
    "dkim_canonbuf dk1 = dkim_canonbuf dk" "dkim_bodycanonalg dk1 = dkim_bodycanonalg dk" "dkim_signalg dk1 = dkim_signalg dk"
    "dkim_signlen dk1 = dkim_signlen dk"
    using b unfolding but_header_def by (cases dk; cases dk1; simp)+
  have f: "dkim_libhandle dk = lib" "dkim_key dk = Some key" "dkim_hdrcanonalg dk = hc" "dkim_mode dk = DKIM_MODE_SIGN" "\<not> dkim_skipbody dk" "dkim_canons dk = []"
    "dkim_b64sig dk = None" "dkim_signature dk = None" "dkim_canonbuf dk = None" "dkim_bodycanonalg dk = bc" "dkim_signalg dk = alg"
    "dkim_chunkstate dk = DKIM_CHUNKSTATE_INIT" "dkim_hdrbuf dk = None" "dkim_signlen dk = len"
    by (subst dk, simp add: z)+
  show "sign_fresh (set_chunk dk1 d 3)"
    using headers_last [OF hs] alg ok d unfolding sign_fresh_def set_chunk_def by (simp add: same f canonbuf_ok_def hdrbuf_ok_def)
  show "dkim_libhandle dk1 = lib" "dkim_key dk1 = Some key" "dkim_hdrcanonalg dk1 = hc" "dkim_mode dk1 = DKIM_MODE_SIGN" "\<not> dkim_skipbody dk1"
    "dkim_bodycanonalg dk1 = bc" "dkim_signlen dk1 = len"
    by (simp_all add: same f)
qed

text \<open>The run up to the end of the body.\<close>

lemma chunk_signing_run:
  assumes mem: "\<forall>n. env_malloc e n" and new: "dkim_sign e lib key sel dmn hc bc alg len = Some (st, Some dk)"
    and fs: "fs \<noteq> []" "\<forall>f\<in>set fs. field_ok f \<and> unfolded 0 (f @ CRLF)" and hs: "headers e dk fs = Some (DKIM_STAT_OK, dk1)"
    and ok: "headers_ok (dkim_hdrs dk1)" and req: "required_present (dkim_hdrs dk1)" and re: "folds_case (env_hdrre e)" and nf: "names_fit e dk1"
    and plain: "plain_body dk1" and tmp: "\<not> lib_flag dk1 DKIM_LIBFLAGS_TMPFILES"
    and ts: "[] \<notin> set ts" "concat ts = fields_text fs @ body"
    and len: "- 1 \<le> len" "len < 2 ^ 63"
  obtains dka dkb dk2 where "chunks s w e dk (ts @ [[]]) = Some (DKIM_STAT_OK, dk2)" "headers_run e dka dkb" "sign_ready dk2 0 1" "sign_state dk2"
    "\<exists>d. dka = set_chunk dk1 d 3" "names_fit e dka" "dkim_hdrs dka = dkim_hdrs dk1" "dkim_hdrcanonalg dka = hc" "dkim_key dka = Some key"
    "dkim_canons dk2 ! 0 = dkim_canons dkb ! 0" "dkim_hdrs dk2 = dkim_hdrs dkb" "dkim_libhandle dk2 = dkim_libhandle dkb" "dkim_key dk2 = dkim_key dkb"
    "dkim_siglist dk2 = dkim_siglist dkb" "dkim_margin dk2 = dkim_margin dkb" "dkim_signer dk2 = dkim_signer dkb" "dkim_partial dk2 = dkim_partial dkb"
    "\<exists>bs c. tail_cut ts body bs \<and> dkim_canons dk2 ! 1 = foldl (canon_feed False) c bs \<and> fresh_body c \<and> canon_canon c = bc \<and> canon_remain c = len"
proof -
  have init: "dkim_chunkstate dk = DKIM_CHUNKSTATE_INIT" "dkim_hdrbuf dk = None \<or> hdrbuf_ok dk"
    using sign_handle_new [OF new] by simp_all
  obtain d bs where cut: "tail_cut ts body bs" and c: "ds_wf d" "ds_max d = MAXBUFRSZ" "chunks s w e dk (ts @ [[]]) =
      and_then (dkim_eoh s w e (set_chunk dk1 d 3)) (\<lambda>dk.
      and_then (bodies e (dk\<lparr>dkim_chunkstate := DKIM_CHUNKSTATE_BODY\<rparr>) bs) (\<lambda>dk.
      Some (DKIM_STAT_OK, dk\<lparr>dkim_chunkstate := DKIM_CHUNKSTATE_DONE\<rparr>)))"
    using chunk_run [OF mem init fs hs ts, of s w] by blast
  note h = sign_handle_fresh [OF new hs fs(1) ok c(1,2)]
  define dka where "dka = set_chunk dk1 d 3"
  have a: "dkim_hdrs dka = dkim_hdrs dk1" "dkim_libhandle dka = lib" "dkim_key dka = Some key" "dkim_mode dka = DKIM_MODE_SIGN"
    "dkim_hdrcanonalg dka = hc" "\<not> dkim_skipbody dka" "names_fit e dka" "plain_body dka" "dkim_bodycanonalg dka = bc" "dkim_signlen dka = len"
    using nf plain by (simp_all add: dka_def set_chunk_def names_fit_def always_list_def plain_body_def h(2-8))
  have fr: "sign_fresh dka" unfolding dka_def by (rule h(1))
  have req': "required_present (dkim_hdrs dka)" and tmp': "\<not> lib_flag dka DKIM_LIBFLAGS_TMPFILES" using req tmp by (simp_all add: a h(2))
  obtain dkb where b: "dkim_eoh_sign s e dka = Some (DKIM_STAT_OK, dkb)" "headers_run e dka dkb"
    using eoh_sign_headers [OF mem fr req' re _ names_fit_len [OF a(7)]] tmp' by blast
  obtain ht where ht: "sign_hashtype (dkim_signalg dka) = Some ht" using fr sign_hashtype_cases unfolding sign_fresh_def by blast
  obtain h1 h2 h3 h4 h5 where db: "dkb = (sign_start e dka ht)\<lparr>dkim_hdrbuf := h1, dkim_hdrlist_buf := h2, dkim_hdrs := h3,
        dkim_canonbuf := h4, dkim_canons := h5\<rparr>"
    using b(2) unfolding headers_run_def ht option.sel Let_def by metis
  have r: "sign_ready dkb 0 1" "length (dkim_canons dkb) = 2" "dkim_libhandle dkb = lib" "dkim_key dkb = Some key"
    using b(2) a(2,3) unfolding headers_run_def by auto
  define dkc where "dkc = dkb\<lparr>dkim_chunkstate := DKIM_CHUNKSTATE_BODY\<rparr>"
  have cc: "sign_ready dkc 0 1" "plain_body dkc" "length (dkim_canons dkc) = 2" "\<not> dkim_skipbody dkc" "dkim_state dkc \<le> DKIM_STATE_BODY"
    "sign_hashtype (sig_signalg (dkim_siglist dkc ! 0)) = Some (sig_hashtype (dkim_siglist dkc ! 0))"
    using r a(2,4,6,8) ht by (simp_all add: dkc_def plain_body_def) (simp_all add: db sign_start_def)
  obtain dkd where dd: "bodies e dkc bs = Some (DKIM_STAT_OK, dkd)" "sign_ready dkd 0 1" "dkim_canons dkd ! 0 = dkim_canons dkc ! 0"
    "dkim_hdrs dkd = dkim_hdrs dkc" "dkim_libhandle dkd = dkim_libhandle dkc" "dkim_key dkd = dkim_key dkc" "dkim_state dkd \<le> DKIM_STATE_BODY"
    "dkim_siglist dkd = dkim_siglist dkc" "dkim_margin dkd = dkim_margin dkc" "dkim_signer dkd = dkim_signer dkc" "dkim_partial dkd = dkim_partial dkc"
    "dkim_canons dkd = map (\<lambda>c. foldl (canon_feed False) c bs) (dkim_canons dkc)"
    by (rule bodies_ready [OF cc(1-5)])
  define dk2 where "dk2 = dkd\<lparr>dkim_chunkstate := DKIM_CHUNKSTATE_DONE\<rparr>"
  have run: "chunks s w e dk (ts @ [[]]) = Some (DKIM_STAT_OK, dk2)"
    unfolding c(3) dka_def [symmetric] using b(1) dd(1) a(4) by (simp add: dkim_eoh_def dkc_def dk2_def)
  have e2: "sign_ready dk2 0 1" "sign_state dk2" "dkim_canons dk2 ! 0 = dkim_canons dkb ! 0" "dkim_hdrs dk2 = dkim_hdrs dkb"
    "dkim_libhandle dk2 = dkim_libhandle dkb" "dkim_key dk2 = dkim_key dkb" "dkim_siglist dk2 = dkim_siglist dkb"
    "dkim_margin dk2 = dkim_margin dkb" "dkim_signer dk2 = dkim_signer dkb" "dkim_partial dk2 = dkim_partial dkb"
    using dd(2-11) cc(6) by (simp_all add: dk2_def dkc_def sign_state_def)
  have ex: "\<exists>d. dka = set_chunk dk1 d 3" unfolding dka_def by blast
  define c1 where "c1 = started (new_canon False bc ht None None len)"
  have c1: "dkim_canons (sign_start e dka ht) ! 1 = c1" by (simp add: sign_start_def c1_def a(9,10))
  have eq: "dkb = (sign_start e dka ht)\<lparr>dkim_hdrbuf := dkim_hdrbuf dkb, dkim_hdrlist_buf := dkim_hdrlist_buf dkb, dkim_hdrs := dkim_hdrs dkb,
      dkim_canonbuf := dkim_canonbuf dkb, dkim_canons := [dkim_canons dkb ! 0, c1]\<rparr>"
    using b(2) unfolding headers_run_def Let_def ht option.sel c1 by blast
  have "dkim_canons dkb = [dkim_canons dkb ! 0, c1]" by (rule trans [OF arg_cong [OF eq, of dkim_canons]]) simp
  then obtain x where "dkim_canons dkb = [x, c1]" by blast
  then have "dkim_canons dk2 ! 1 = foldl (canon_feed False) c1 bs" using cc(3) dd(12) by (simp add: dk2_def dkc_def)
  moreover have "bc \<in> {DKIM_CANON_SIMPLE, DKIM_CANON_RELAXED}" using new by (auto simp: dkim_sign_def split: if_splits)
  then have "fresh_body c1 \<and> canon_canon c1 = bc \<and> canon_remain c1 = len"
    using sign_hashtype_range [OF ht] len by (auto simp: c1_def started_def new_canon_def fresh_body_def)
  ultimately have body: "\<exists>bs c. tail_cut ts body bs \<and> dkim_canons dk2 ! 1 = foldl (canon_feed False) c bs \<and> fresh_body c \<and> canon_canon c = bc \<and> canon_remain c = len"
    using cut by blast
  show thesis
    by (rule that [OF run b(2) e2(1,2) ex a(7,1,5,3) e2(3-10) body])
qed



subsection \<open>Runs\<close>

lemma chunk_no_fields_witness: "dkim_chunk se_signer world0 se_env se_dk (CRLF @ ''hi'') = None"
  using chunk_no_fields [OF se_given(1,8), where s = se_signer and w = world0 and c = "CHR ''h''" and c' = "CHR ''i''" and r = "[]"]
  by (simp add: se_dk_def dkim_zero_def DKIM_ISLWSP_def)

definition sc_dk :: dkim where
  "sc_dk = (dkim_zero lib0)\<lparr>dkim_signalg := DKIM_SIGN_RSASHA256, dkim_hdrcanonalg := DKIM_CANON_RELAXED,
     dkim_bodycanonalg := DKIM_CANON_SIMPLE, dkim_querymethod := DKIM_QUERY_DEFAULT, dkim_mode := DKIM_MODE_SIGN,
     dkim_state := DKIM_STATE_INIT, dkim_presult := DKIM_PRESULT_NONE, dkim_margin := DKIM_HDRMARGIN, dkim_key := Some ''k'',
     dkim_selector := Some ''s'', dkim_domain := Some ''x'', dkim_signlen := - 1\<rparr>"

abbreviation sc_dk1 :: dkim where
  "sc_dk1 \<equiv> sc_dk\<lparr>dkim_state := DKIM_STATE_HEADER, dkim_hdrs := [hdr_of ''From: a'' 4]\<rparr>"

abbreviation sc_text :: "string list" where
  "sc_text \<equiv> [''Fro'', ''m: a'' @ [CR], [LF, CR, LF] @ ''hi'' @ [CR], [LF]]"

lemma sc_given:
  "dkim_sign se_env lib0 ''k'' ''s'' ''x'' DKIM_CANON_RELAXED DKIM_CANON_SIMPLE DKIM_SIGN_RSASHA256 (- 1) = Some (DKIM_STAT_OK, Some sc_dk)"
  "headers se_env sc_dk [''From: a''] = Some (DKIM_STAT_OK, sc_dk1)"
  "\<forall>f\<in>set [''From: a'']. field_ok f \<and> unfolded 0 (f @ CRLF)"
  "headers_ok (dkim_hdrs sc_dk1)" "required_present (dkim_hdrs sc_dk1)" "names_fit se_env sc_dk1" "plain_body sc_dk1"
  "\<not> lib_flag sc_dk1 DKIM_LIBFLAGS_TMPFILES" "[] \<notin> set sc_text" "concat sc_text = fields_text [''From: a''] @ ''hi'' @ CRLF"
          apply (simp add: dkim_sign_def dkim_new_def sc_dk_def se_env_def env0_def dkim_strdup_def cstr_def)
         apply (simp add: dkim_header_def sc_dk_def se_env_def env0_def dkim_strdup_def cstr_def memchr_def name_end_def before_def cctype hdr_of_def dkim_zero_def lib0_def Let_def)
        apply (simp add: field_ok_def is_cstring_def sm_step_def DKIM_ISLWSP_def)
  subgoal using se_given(2) by (simp add: sign_fresh_def se_dk_def)
  subgoal using se_given(3) by (simp add: se_dk_def)
  subgoal using se_given(5) by (simp add: names_fit_def se_dk_def sc_dk_def always_list_def dkim_zero_def)
  subgoal using se_given(6) by (simp add: plain_body_def sc_dk_def se_dk_def)
  subgoal using se_given(7) by (simp add: sc_dk_def se_dk_def)
  subgoal by simp
  subgoal by (simp add: fields_text_def)
  done


lemma chunk_session_witness:
  "\<exists>d bs. tail_cut sc_text (''hi'' @ CRLF) bs \<and> chunks se_signer world0 se_env sc_dk (sc_text @ [[]]) =
     and_then (dkim_eoh se_signer world0 se_env (set_chunk sc_dk1 d 3)) (\<lambda>dk.
     and_then (bodies se_env (dk\<lparr>dkim_chunkstate := DKIM_CHUNKSTATE_BODY\<rparr>) bs) (\<lambda>dk.
     Some (DKIM_STAT_OK, dk\<lparr>dkim_chunkstate := DKIM_CHUNKSTATE_DONE\<rparr>)))"
proof -
  have init: "dkim_chunkstate sc_dk = DKIM_CHUNKSTATE_INIT" "dkim_hdrbuf sc_dk = None \<or> hdrbuf_ok sc_dk"
    using sign_handle_new [OF sc_given(1)] by simp_all
  have ne: "[''From: a''] \<noteq> []" by simp
  show ?thesis
    using chunk_session [OF se_given(1) init ne sc_given(3,2,9,10), of se_signer world0] by blast
qed

lemma sc_room:
  assumes run: "headers_run se_env (set_chunk sc_dk1 d 3) dkb"
    and d2: "dkim_hdrs dk2 = dkim_hdrs dkb" "dkim_libhandle dk2 = dkim_libhandle dkb" "dkim_siglist dk2 = dkim_siglist dkb"
      "dkim_margin dk2 = dkim_margin dkb" "dkim_signer dk2 = dkim_signer dkb" "dkim_partial dk2 = dkim_partial dkb"
  shows "sign_room se_env dk2 3"
proof -
  let ?dk = "set_chunk sc_dk1 d 3"
  have ht: "sign_hashtype (dkim_signalg ?dk) = Some DKIM_HASHTYPE_SHA256" by (simp add: set_chunk_def sc_dk_def sign_hashtype_def)
  obtain h1 h2 h3 h4 h5 where d1: "dkb = (sign_start se_env ?dk DKIM_HASHTYPE_SHA256)\<lparr>dkim_hdrbuf := h1, dkim_hdrlist_buf := h2, dkim_hdrs := h3,
        dkim_canonbuf := h4, dkim_canons := h5\<rparr>"
    using run unfolding headers_run_def ht option.sel Let_def by metis
  have hb: "map hdr_bare h3 = [hdr_bare (hdr_of ''From: a'' 4)]" and fl: "\<forall>i<length h3. hdr_signed (h3 ! i)"
    using run by (auto simp: headers_run_def d1 may_sign_def set_chunk_def) (simp_all add: sc_dk_def dkim_zero_def lib0_def)
  obtain h where h: "h3 = [h]" "hdr_bare h = hdr_bare (hdr_of ''From: a'' 4)" using hb by auto
  have hn: "hdr_name h = ''From''" using hdr_bare_eq [OF h(2)] by (simp add: hdr_name_def hdr_of_def cstr_def)
  have f: "dkim_siglist dk2 = [se_sig\<lparr>sig_keybits := 0\<rparr>]" "dkim_libhandle dk2 = lib0" "dkim_signer dk2 = None" "\<not> dkim_partial dk2"
    "dkim_margin dk2 = 75" "dkim_hdrs dk2 = [h]"
    unfolding d2 d1 h(1)
    by (simp_all add: sign_start_def set_chunk_def sc_dk_def dkim_zero_def lib0_def sign_time_def se_env_def env0_def se_sig_def siginfo0_def)
  have sgh: "hdr_signed h" using fl by (simp add: h(1))
  show ?thesis by (rule se_room_fields [OF f sgh hn])
qed


end
