(* ===== verification/Dkim_Access.thy ===== *)
theory Dkim_Access
  imports Dkim_Policy Dkim_Session
begin

text \<open>
  What an application reads from a handle and sets in it (\<open>dkim.c\<close>): the signatures and their fields,
  the reporting information of a key, the margin and the identity of a signer, and \<open>dkim_ohdrs\<close>, which
  decodes the header fields that a signer copied into the tag "z=". The error text and the descriptors
  of temporary files are not kept.

  The lemmas show that the fields come back as they were copied, and that reading them spoils the tag.
\<close>

subsection \<open>Reading a handle\<close>

definition dkim_getsiglist :: "dkim \<Rightarrow> int \<times> (siginfo list \<times> nat) option" where
  "dkim_getsiglist dk =
    (if dkim_state dk < DKIM_STATE_EOH2 then (DKIM_STAT_INVALID, None)
     else (DKIM_STAT_OK, Some (dkim_siglist dk, dkim_sigcount dk)))"

definition dkim_getsignature :: "dkim \<Rightarrow> nat option" where
  "dkim_getsignature dk = dkim_signature dk"

definition dkim_sig_getdnssec :: "siginfo \<Rightarrow> 32 word" where
  "dkim_sig_getdnssec sg = DKIM_DNSSEC_UNKNOWN"

definition dkim_sig_getreportinfo :: "dkim \<Rightarrow> siginfo \<Rightarrow> report \<Rightarrow> int \<times> report" where
  "dkim_sig_getreportinfo dk sg rp =
    (if dkim_state dk \<noteq> DKIM_STATE_EOM2 \<or> dkim_mode dk \<noteq> DKIM_MODE_VERIFY then (DKIM_STAT_INVALID, rp)
     else case sig_keytaglist sg of
       None \<Rightarrow> (DKIM_STAT_INTERNAL, rp)
     | Some k \<Rightarrow> (DKIM_STAT_OK, report_fill (dkim_sets dk ! k) rp))"

text \<open>The lengths of the message, of its canonical form and of what was signed.\<close>

definition dkim_sig_getcanonlen :: "dkim \<Rightarrow> siginfo \<Rightarrow> int \<times> nat \<times> nat \<times> int" where
  "dkim_sig_getcanonlen dk sg =
    (let c = dkim_canons dk ! the (sig_bodycanon sg) in (DKIM_STAT_OK, dkim_bodylen dk, canon_wrote c, canon_length c))"

definition dkim_sig_getflags :: "siginfo \<Rightarrow> 32 word" where
  "dkim_sig_getflags sg = sig_flags sg"

definition dkim_sig_getbh :: "siginfo \<Rightarrow> int" where
  "dkim_sig_getbh sg = sig_bh sg"

definition dkim_sig_getkeysize :: "siginfo \<Rightarrow> int \<times> nat option" where
  "dkim_sig_getkeysize sg =
    (if sig_keybits sg = 0 then (DKIM_STAT_INVALID, None) else (DKIM_STAT_OK, Some (sig_keybits sg)))"

definition dkim_sig_getsignalg :: "siginfo \<Rightarrow> int \<times> int" where
  "dkim_sig_getsignalg sg = (DKIM_STAT_OK, sig_signalg sg)"

text \<open>The time is converted to the signed \<open>time_t\<close>.\<close>

definition dkim_sig_getsigntime :: "siginfo \<Rightarrow> int \<times> int option" where
  "dkim_sig_getsigntime sg =
    (if sig_timestamp sg = 0 then (DKIM_STAT_INVALID, None) else (DKIM_STAT_OK, Some (sint (sig_timestamp sg))))"

definition dkim_sig_getcanons :: "siginfo \<Rightarrow> int \<times> int \<times> int" where
  "dkim_sig_getcanons sg = (DKIM_STAT_OK, sig_hdrcanonalg sg, sig_bodycanonalg sg)"

definition dkim_getpartial :: "dkim \<Rightarrow> bool" where
  "dkim_getpartial dk = dkim_partial dk"

definition dkim_getpresult :: "dkim \<Rightarrow> int" where
  "dkim_getpresult dk = dkim_presult dk"

definition dkim_getmode :: "dkim \<Rightarrow> int" where
  "dkim_getmode dk = dkim_mode dk"

definition dkim_getdomain :: "dkim \<Rightarrow> string option" where
  "dkim_getdomain dk = dkim_domain dk"

definition dkim_sig_getselector :: "siginfo \<Rightarrow> string option" where
  "dkim_sig_getselector sg = sig_selector sg"

definition dkim_sig_getdomain :: "siginfo \<Rightarrow> string option" where
  "dkim_sig_getdomain sg = sig_domain sg"

definition dkim_sig_geterror :: "siginfo \<Rightarrow> int" where
  "dkim_sig_geterror sg = sig_error sg"

definition dkim_getresultstr :: "int \<Rightarrow> string option" where
  "dkim_getresultstr result = dkim_code_to_name prv_results result"

definition dkim_getpresultstr :: "int \<Rightarrow> string option" where
  "dkim_getpresultstr presult = dkim_code_to_name prv_policyresults presult"

definition dkim_getpolicystr :: "int \<Rightarrow> string option" where
  "dkim_getpolicystr policy = dkim_code_to_name prv_policies policy"

definition dkim_sig_geterrorstr :: "int \<Rightarrow> string option" where
  "dkim_sig_geterrorstr sigerr = dkim_code_to_name prv_sigerrors sigerr"

subsection \<open>Settings of a signer\<close>

definition dkim_set_signer :: "env \<Rightarrow> dkim \<Rightarrow> string \<Rightarrow> int \<times> dkim" where
  "dkim_set_signer e dk signer =
    (if dkim_mode dk \<noteq> DKIM_MODE_SIGN then (DKIM_STAT_INVALID, dk)
     else if dkim_signer dk = None \<and> \<not> env_malloc e (MAXADDRESS + 1) then (DKIM_STAT_NORESOURCE, dk)
     else (DKIM_STAT_OK, dk\<lparr>dkim_signer := Some (strlcpy signer (MAXADDRESS + 1))\<rparr>))"

definition dkim_setpartial :: "dkim \<Rightarrow> bool \<Rightarrow> int \<times> dkim" where
  "dkim_setpartial dk v =
    (if dkim_mode dk \<noteq> DKIM_MODE_SIGN then (DKIM_STAT_INVALID, dk) else (DKIM_STAT_OK, dk\<lparr>dkim_partial := v\<rparr>))"

definition dkim_set_margin :: "dkim \<Rightarrow> int \<Rightarrow> int \<times> dkim" where
  "dkim_set_margin dk v =
    (if dkim_mode dk \<noteq> DKIM_MODE_SIGN \<or> v < 0 \<or> dkim_state dk \<ge> DKIM_STATE_EOM2 then (DKIM_STAT_INVALID, dk)
     else (DKIM_STAT_OK, dk\<lparr>dkim_margin := nat v\<rparr>))"

subsection \<open>\<open>dkim_ohdrs\<close>\<close>

text \<open>One field: \<open>Inl\<close> is a "=" that two hexadecimal digits do not follow, with what was decoded before it.\<close>

fun z_decode :: "string \<Rightarrow> string \<Rightarrow> string + string" where
  "z_decode [] q = Inr q"
| "z_decode (c # p) q =
    (if c = CHR ''='' then
       (case p of
          a # b # p' \<Rightarrow>
            if \<not> isxdigit a \<or> \<not> isxdigit b then Inl q
            else z_decode p' (q @ [char_of (16 * the (dkim_hexchar a) + the (dkim_hexchar b))])
        | _ \<Rightarrow> Inl q)
     else z_decode p (q @ [c]))"

text \<open>The fields in turn; \<open>False\<close> at the first that cannot be decoded.\<close>

fun z_fields :: "string list \<Rightarrow> bool \<times> string list" where
  "z_fields [] = (True, [])"
| "z_fields (ch # chs) =
    (case z_decode ch [] of
       Inl q \<Rightarrow> (False, [])
     | Inr q \<Rightarrow> (case z_fields chs of (ok, fs) \<Rightarrow> (ok, cstr q # fs)))"

text \<open>
  What is left of the tag, since the fields are cut out and decoded in place: the separators before the
  first field, and that field up to its first NUL.
\<close>

definition z_left :: "string \<Rightarrow> string" where
  "z_left z =
    takeWhile (\<lambda>c. c = CHR ''|'') z @
    (case strtok CHR ''|'' z of [] \<Rightarrow> []
     | ch # chs \<Rightarrow> cstr (case z_decode ch [] of Inr q \<Rightarrow> q | Inl q \<Rightarrow> q @ drop (length q) ch))"

definition tag_put :: "string \<Rightarrow> string \<Rightarrow> dkim_set \<Rightarrow> dkim_set" where
  "tag_put param v st = st\<lparr>set_plist := map (\<lambda>(n, w). (n, if n = param then v else w)) (set_plist st)\<rparr>"

text \<open>The first signature that was processed and is not to be ignored.\<close>

definition ohdrs_sig :: "dkim \<Rightarrow> nat option \<Rightarrow> nat option" where
  "ohdrs_sig dk sig =
    (case sig of Some i \<Rightarrow> Some i
     | None \<Rightarrow> find (\<lambda>c. and (sig_flags (dkim_siglist dk ! c)) DKIM_SIGFLAG_PROCESSED \<noteq> 0 \<and>
                       and (sig_flags (dkim_siglist dk ! c)) DKIM_SIGFLAG_IGNORE = 0) [0 ..< dkim_sigcount dk])"

text \<open>
  The status, the strings stored in \<open>ptrs\<close>, the number of fields if \<open>*pcnt\<close> is set, and the handle.
  A copy of the tag is made, for the length of the tag whatever the size of its buffer, and not used.
\<close>

definition dkim_ohdrs :: "env \<Rightarrow> dkim \<Rightarrow> nat option \<Rightarrow> nat \<Rightarrow> int \<times> string list \<times> nat option \<times> dkim" where
  "dkim_ohdrs e dk sig pcnt =
    (if dkim_mode dk \<noteq> DKIM_MODE_VERIFY then (DKIM_STAT_INVALID, [], None, dk)
     else case ohdrs_sig dk sig of
       None \<Rightarrow> (DKIM_STAT_INVALID, [], None, dk)
     | Some i \<Rightarrow>
        (let k = the (sig_taglist (dkim_siglist dk ! i)) in
         case dkim_param_get (dkim_sets dk ! k) ''z'' of
           None \<Rightarrow> (DKIM_STAT_OK, [], Some 0, dk)
         | Some z \<Rightarrow>
             if z = [] then (DKIM_STAT_OK, [], Some 0, dk)
             else if dkim_zdecode dk = None \<and> \<not> env_malloc e MAXHEADERS then (DKIM_STAT_NORESOURCE, [], None, dk)
             else (let dk = dk\<lparr>dkim_zdecode := Some (strlcpy z (length z)),
                     dkim_sets := (dkim_sets dk)[k := tag_put ''z'' (z_left z) (dkim_sets dk ! k)]\<rparr> in
               case z_fields (strtok CHR ''|'' z) of (ok, fs) \<Rightarrow>
                 if ok then (DKIM_STAT_OK, take pcnt fs, Some (length fs), dk)
                 else (DKIM_STAT_INVALID, take pcnt fs, None, dk))))"

subsection \<open>The copied fields come back\<close>

definition z_char :: "byte \<Rightarrow> string" where
  "z_char c = (if (0x21 \<le> ord c \<and> ord c \<le> 0x3a) \<or> ord c = 0x3c \<or> (0x3e \<le> ord c \<and> ord c \<le> 0x7e) then [c] else hex_escape c)"

definition z_text :: "string \<Rightarrow> string" where
  "z_text t = concat (map z_char t)"

lemma z_text_simps [simp]: "z_text [] = []" "z_text (c # t) = z_char c @ z_text t"
  by (simp_all add: z_text_def)

text \<open>The bytes for which the escape has three characters, and the separator, which is not escaped.\<close>

definition z_ok :: "string \<Rightarrow> bool" where
  "z_ok t \<longleftrightarrow> t \<noteq> [] \<and> (\<forall>c\<in>set t. c \<noteq> NUL \<and> c \<noteq> CHR ''|'' \<and> ord c < 128)"

lemma z_loop_text:
  assumes "\<forall>c\<in>set p. ord c < 128" "length pre = q" "len = DKIM_MAXHEADER - q" "q + 3 * length p + 1 \<le> DKIM_MAXHEADER"
  shows "z_loop (pre @ replicate (DKIM_MAXHEADER + 1 - q) NUL) q len p =
    pre @ z_text p @ replicate (DKIM_MAXHEADER + 1 - q - length (z_text p)) NUL"
  using assms
proof (induction p arbitrary: pre q len)
  case (Cons c p)
  show ?case
  proof (cases "(0x21 \<le> ord c \<and> ord c \<le> 0x3a) \<or> ord c = 0x3c \<or> (0x3e \<le> ord c \<and> ord c \<le> 0x7e)")
    case True
    have "poke (pre @ replicate (DKIM_MAXHEADER + 1 - q) NUL) q [c] = (pre @ [c]) @ replicate (DKIM_MAXHEADER + 1 - (q + 1)) NUL"
      using Cons.prems by (simp add: poke_def)
    then show ?thesis
      using Cons.IH [of "pre @ [c]" "q + 1" "len - 1"] Cons.prems True by (simp add: z_char_def)
  next
    case False
    let ?e = "hex_escape c"
    have e: "length ?e = 3" using Cons.prems(1) by (simp add: hex_escape_def)
    have l: "take (len - 1) ?e = ?e" using Cons.prems e by simp
    have "poke (pre @ replicate (DKIM_MAXHEADER + 1 - q) NUL) q (?e @ [NUL]) = (pre @ ?e) @ [NUL] @ replicate (DKIM_MAXHEADER + 1 - (q + 4)) NUL"
      using Cons.prems e by (simp add: poke_def)
    also have "[NUL] @ replicate (DKIM_MAXHEADER + 1 - (q + 4)) NUL = replicate (DKIM_MAXHEADER + 1 - (q + 3)) NUL"
      using Cons.prems(4) by (simp flip: replicate_Suc add: Suc_diff_le)
    finally have p: "poke (pre @ replicate (DKIM_MAXHEADER + 1 - q) NUL) q (take (len - 1) ?e @ [NUL]) = (pre @ ?e) @ replicate (DKIM_MAXHEADER + 1 - (q + 3)) NUL"
      by (simp only: l)
    have q: "\<not> q \<ge> DKIM_MAXHEADER" using Cons.prems(4) by simp
    have IH: "z_loop ((pre @ ?e) @ replicate (DKIM_MAXHEADER + 1 - (q + 3)) NUL) (q + 3) (len - 3) p =
        (pre @ ?e) @ z_text p @ replicate (DKIM_MAXHEADER + 1 - (q + 3) - length (z_text p)) NUL"
      by (rule Cons.IH) (use Cons.prems e in simp_all)
    have z: "z_text (c # p) = ?e @ z_text p" unfolding z_text_simps z_char_def if_not_P [OF False] ..
    show ?thesis
      unfolding z_loop.simps(2) if_not_P [OF q] if_not_P [OF False] p IH z using e by simp
  qed
qed simp

lemma hexdig_decode: "n < 16 \<Longrightarrow> isxdigit (hexdig n) \<and> dkim_hexchar (hexdig n) = Some n"
  by (auto simp: less_Suc_eq numeral_eq_Suc hexdig_def isxdigit_def isdigit_def dkim_hexchar_def)

lemma hexdig_plain: "n < 16 \<Longrightarrow> hexdig n \<noteq> NUL \<and> hexdig n \<noteq> CHR ''|''"
  using hexdig_decode [of n] by (auto simp: dkim_hexchar_def)

lemma z_char_plain:
  assumes "c \<noteq> NUL" "c \<noteq> CHR ''|''" "ord c < 128"
  shows "NUL \<notin> set (z_char c)" "CHR ''|'' \<notin> set (z_char c)" "z_char c \<noteq> []"
proof -
  have "ord c div 16 < 16" "ord c mod 16 < 16" using assms(3) by simp_all
  note hexdig_plain [OF this(1)] hexdig_plain [OF this(2)]
  then show "NUL \<notin> set (z_char c)" "CHR ''|'' \<notin> set (z_char c)" "z_char c \<noteq> []"
    using assms by (auto simp: z_char_def hex_escape_def)
qed

lemma z_text_plain:
  assumes "z_ok t"
  shows "is_cstring (z_text t)" "CHR ''|'' \<notin> set (z_text t)" "z_text t \<noteq> []"
  using assms z_char_plain by (auto simp: z_ok_def z_text_def is_cstring_def)

lemma z_decode_char: "ord c < 128 \<Longrightarrow> z_decode (z_char c @ s) q = z_decode s (q @ [c])"
proof (cases "z_char c = [c]")
  case True
  assume "ord c < 128"
  then have "c \<noteq> CHR ''=''" using True by (auto simp: z_char_def hex_escape_def)
  then show ?thesis using True by simp
next
  case False
  assume c: "ord c < 128"
  then have z: "z_char c = CHR ''='' # [hexdig (ord c div 16), hexdig (ord c mod 16)]"
    using False by (auto simp: z_char_def hex_escape_def)
  have "char_of (16 * (ord c div 16) + ord c mod 16) = c" by simp
  then show ?thesis
    using hexdig_decode [of "ord c div 16"] hexdig_decode [of "ord c mod 16"] c by (simp add: z)
qed

lemma z_decode_text: "\<forall>c\<in>set t. ord c < 128 \<Longrightarrow> z_decode (z_text t) q = Inr (q @ t)"
  by (induction t arbitrary: q) (simp_all add: z_decode_char)

lemma z_header_text:
  assumes "z_ok (hdr_text h)" "3 * length (hdr_text h) + 2 \<le> DKIM_MAXHEADER"
  shows "z_header first h = (if first then [] else ''|'') @ z_text (hdr_text h)"
proof -
  have c: "\<forall>c\<in>set (hdr_text h). ord c < 128" using assms(1) by (simp add: z_ok_def)
  have t: "z_loop (replicate (DKIM_MAXHEADER + 1) NUL) 0 DKIM_MAXHEADER (hdr_text h) =
      z_text (hdr_text h) @ replicate (DKIM_MAXHEADER + 1 - length (z_text (hdr_text h))) NUL"
    using z_loop_text [OF c, of "[]" 0] assms(2) by simp
  have "poke (replicate (DKIM_MAXHEADER + 1) NUL) 0 ''|'' = ''|'' @ replicate (DKIM_MAXHEADER + 1 - 1) NUL"
    by (simp add: poke_def)
  then have f: "z_loop (poke (replicate (DKIM_MAXHEADER + 1) NUL) 0 ''|'') 1 (DKIM_MAXHEADER - 1) (hdr_text h) =
      (''|'' @ z_text (hdr_text h)) @ replicate (DKIM_MAXHEADER + 1 - 1 - length (z_text (hdr_text h))) NUL"
    using z_loop_text [OF c, of "''|''" 1] assms(2) by simp
  have n: "cstr (s @ replicate n NUL) = s" if "is_cstring s" for s n
    using that cstr_append_NUL [OF that] cstr_id [OF that] by (cases n) simp_all
  have z: "is_cstring (z_text (hdr_text h))" "is_cstring (''|'' @ z_text (hdr_text h))" using z_text_plain(1) [OF assms(1)] by simp_all
  show ?thesis unfolding z_header_def Let_def t f by (cases first) (simp_all only: if_True if_False n [OF z(1)] n [OF z(2)] append_Nil)
qed

text \<open>What \<open>dkim_gensighdr\<close> writes after "z=".\<close>

definition z_value :: "header list \<Rightarrow> string" where
  "z_value hs = (case hs of [] \<Rightarrow> [] | h # hs \<Rightarrow> z_header True h @ concat (map (z_header False) hs))"

lemma z_tag_value:
  "lib_flag dk DKIM_LIBFLAGS_ZTAGS \<Longrightarrow> ops_text (z_tag dk delim) = '';'' @ delim @ ''z='' @ z_value (dkim_hdrs dk)"
  by (auto simp: z_tag_text z_value_def split: list.splits)

lemma z_value_fields:
  assumes "\<forall>h\<in>set hs. z_ok (hdr_text h) \<and> 3 * length (hdr_text h) + 2 \<le> DKIM_MAXHEADER" "hs \<noteq> []"
  shows "strtok CHR ''|'' (z_value hs) = map (\<lambda>h. z_text (hdr_text h)) hs"
proof -
  have tail: "strtok CHR ''|'' (z_text t @ concat (map (z_header False) gs)) = z_text t # map (\<lambda>h. z_text (hdr_text h)) gs"
    if "z_ok t" "\<forall>h\<in>set gs. z_ok (hdr_text h) \<and> 3 * length (hdr_text h) + 2 \<le> DKIM_MAXHEADER" for t gs
    using that
  proof (induction gs arbitrary: t)
    case Nil
    then show ?case using z_text_plain [OF Nil(1)] by (simp add: strtok_single)
  next
    case (Cons h gs)
    have h: "z_header False h = CHR ''|'' # z_text (hdr_text h)" using z_header_text [of h False] Cons.prems(2) by simp
    show ?case using Cons.IH [of "hdr_text h"] Cons.prems z_text_plain [OF Cons.prems(1)] by (simp add: h strtok_append)
  qed
  obtain h gs where hs: "hs = h # gs" using assms(2) by (cases hs) auto
  show ?thesis using tail [of "hdr_text h" gs] assms(1) z_header_text [of h True] by (simp add: hs z_value_def)
qed

lemma z_ok_decode:
  assumes "z_ok t"
  shows "cstr t = t" "z_decode (z_text t) [] = Inr t"
proof -
  have t: "\<forall>c\<in>set t. c \<noteq> NUL \<and> c \<noteq> CHR ''|'' \<and> ord c < 128" using assms unfolding z_ok_def by blast
  then have "NUL \<notin> set t" by metis
  then show "cstr t = t" by (intro cstr_id) (simp only: is_cstring_def simp_thms)
  show "z_decode (z_text t) [] = Inr t" using z_decode_text [of t "[]"] t by (metis append_Nil)
qed

lemma z_fields_texts: "\<forall>t\<in>set ts. z_ok t \<Longrightarrow> z_fields (map z_text ts) = (True, ts)"
proof (induction ts)
  case (Cons t ts)
  have "z_ok t" "\<forall>t\<in>set ts. z_ok t" using Cons.prems by simp_all
  then show ?case using Cons.IH z_ok_decode [of t] by (simp only: list.map z_fields.simps sum.case prod.case)
qed simp

lemma tag_put_get: "dkim_param_get st param = Some w \<Longrightarrow> dkim_param_get (tag_put param v st) param = Some v"
proof -
  have "map_of pl param = Some w \<Longrightarrow> map_of (map (\<lambda>(n, w). (n, if n = param then v else w)) pl) param = Some v" for pl
    by (induction pl) auto
  then show "dkim_param_get st param = Some w \<Longrightarrow> dkim_param_get (tag_put param v st) param = Some v"
    by (simp add: dkim_param_get_def tag_put_def)
qed

text \<open>
  C39: the fields copied into "z=" come back. For header fields of seven-bit bytes without "|", the tag as a
  signer writes it is decoded by \<open>dkim_ohdrs\<close> into the texts of the fields, of which as many are
  stored as there are pointers, and their number is returned. The tag is cut in place: afterwards
  it is the first field only.
\<close>
theorem ohdrs_roundtrip:
  assumes mode: "dkim_mode dk = DKIM_MODE_VERIFY" and mem: "env_malloc e MAXHEADERS"
    and sig: "sig_taglist (dkim_siglist dk ! i) = Some k" "k < length (dkim_sets dk)"
    and tag: "dkim_param_get (dkim_sets dk ! k) ''z'' = Some (z_value hs)" "hs \<noteq> []"
    and ok: "\<forall>h\<in>set hs. z_ok (hdr_text h) \<and> 3 * length (hdr_text h) + 2 \<le> DKIM_MAXHEADER"
  shows "\<exists>dk'. dkim_ohdrs e dk (Some i) pcnt = (DKIM_STAT_OK, take pcnt (map hdr_text hs), Some (length hs), dk') \<and>
    dkim_param_get (dkim_sets dk' ! k) ''z'' = Some (hdr_text (hd hs))"
proof -
  let ?z = "z_value hs" and ?h = "hdr_text (hd hs)"
  obtain g gs where hs: "hs = g # gs" using tag(2) by (cases hs) auto
  have g: "z_ok ?h" "3 * length ?h + 2 \<le> DKIM_MAXHEADER" using ok unfolding hs by simp_all
  have tok: "strtok CHR ''|'' ?z = map z_text (map hdr_text hs)" unfolding z_value_fields [OF ok tag(2)] map_map o_def ..
  have f: "z_fields (strtok CHR ''|'' ?z) = (True, map hdr_text hs)" unfolding tok by (rule z_fields_texts) (use ok in auto)
  have zh: "?z = z_text ?h @ concat (map (z_header False) gs)"
    using z_header_text [of g True] g unfolding hs z_value_def list.sel by simp
  have ne: "?z \<noteq> []" using z_text_plain(3) [OF g(1)] unfolding zh by simp
  have pre: "takeWhile (\<lambda>c. c = CHR ''|'') ?z = []"
    using z_text_plain(2,3) [OF g(1)] unfolding zh by (cases "z_text ?h") auto
  have left: "z_left ?z = ?h"
    unfolding z_left_def pre tok unfolding hs list.map list.sel list.case append_Nil
    using z_ok_decode [OF g(1)] by (simp only: hs list.sel sum.case)
  define dk' where "dk' = dk\<lparr>dkim_zdecode := Some (strlcpy ?z (length ?z)), dkim_sets := (dkim_sets dk)[k := tag_put ''z'' ?h (dkim_sets dk ! k)]\<rparr>"
  have "dkim_ohdrs e dk (Some i) pcnt = (DKIM_STAT_OK, take pcnt (map hdr_text hs), Some (length hs), dk')"
    by (simp add: dkim_ohdrs_def ohdrs_sig_def mode mem sig(1) tag(1) ne f left dk'_def)
  moreover have "dkim_param_get (dkim_sets dk' ! k) ''z'' = Some ?h"
    using tag_put_get [OF tag(1), of ?h] sig(2) by (simp add: dk'_def)
  ultimately show ?thesis by blast
qed

definition oh_hdrs :: "header list" where
  "oh_hdrs = [hdr_of ''From: a'' 4, hdr_of ''To: b=c'' 2]"

definition oh_dk :: dkim where
  "oh_dk = (dkim_zero lib0)\<lparr>dkim_mode := DKIM_MODE_VERIFY, dkim_siglist := [siginfo0\<lparr>sig_taglist := Some 0\<rparr>],
     dkim_sets := [\<lparr>set_bad = False, set_type = DKIM_SETTYPE_SIGNATURE, set_udata = None, set_plist = [(''z'', z_value oh_hdrs)]\<rparr>]\<rparr>"

lemma ohdrs_roundtrip_witness:
  "\<exists>dk'. dkim_ohdrs env0 oh_dk (Some 0) 5 = (DKIM_STAT_OK, [''From: a'', ''To: b=c''], Some 2, dk') \<and>
    dkim_param_get (dkim_sets dk' ! 0) ''z'' = Some ''From: a''"
proof -
  have given: "dkim_mode oh_dk = DKIM_MODE_VERIFY" "env_malloc env0 MAXHEADERS" "sig_taglist (dkim_siglist oh_dk ! 0) = Some 0"
    "0 < length (dkim_sets oh_dk)" "dkim_param_get (dkim_sets oh_dk ! 0) ''z'' = Some (z_value oh_hdrs)" "oh_hdrs \<noteq> []"
    by (simp_all add: oh_dk_def env0_def siginfo0_def dkim_param_get_def oh_hdrs_def)
  have ok: "\<forall>h\<in>set oh_hdrs. z_ok (hdr_text h) \<and> 3 * length (hdr_text h) + 2 \<le> DKIM_MAXHEADER"
    by (simp add: oh_hdrs_def hdr_of_def z_ok_def)
  have v: "map hdr_text oh_hdrs = [''From: a'', ''To: b=c'']" by (simp add: oh_hdrs_def hdr_of_def)
  have "length oh_hdrs = 2" "hdr_text (hd oh_hdrs) = ''From: a''" by (simp_all add: oh_hdrs_def hdr_of_def)
  then show ?thesis
    using ohdrs_roundtrip [OF given ok, of 5] by (simp add: v)
qed

end
